(* ===== verification/Prelude.thy ===== *)
theory Prelude
  imports Complex_Main "HOL-Library.Sublist"
begin

text \<open>
  Shared vocabulary of the development: the collections of simplification rules that the
  component theories fill, the result type that stands for Rust's \<open>Result\<close>, and the generic
  facts on lists that more than one component uses. Nothing here models a particular source
  file.
\<close>

named_theorems text_simps \<open>equations of the Rust text library\<close>
named_theorems json_simps \<open>equations of the JSON accessors\<close>
named_theorems compress_defs \<open>definitions of the output compressors\<close>
named_theorems switch_defs \<open>definitions of the protocol translators\<close>
named_theorems patch_defs \<open>definitions of the patch engine\<close>

type_synonym ('e, 'a) result = "'e + 'a"

abbreviation Err :: "'e \<Rightarrow> ('e, 'a) result" where "Err \<equiv> Inl"
abbreviation Ok :: "'a \<Rightarrow> ('e, 'a) result" where "Ok \<equiv> Inr"

text \<open>Rust's \<open>?\<close> operator: pass an error on, continue with the value otherwise.\<close>

definition and_then :: "('e, 'a) result \<Rightarrow> ('a \<Rightarrow> ('e, 'b) result) \<Rightarrow> ('e, 'b) result" where
  "and_then r f = (case r of Inl e \<Rightarrow> Inl e | Inr a \<Rightarrow> f a)"

lemma and_then_simps [simp]:
  "and_then (Inl e) f = Inl e"
  "and_then (Inr a) f = f a"
  by (simp_all add: and_then_def)

lemma and_then_Ok_iff: "and_then r f = Inr b \<longleftrightarrow> (\<exists>a. r = Inr a \<and> f a = Inr b)"
  by (cases r) auto

lemma and_then_Err_iff:
  "and_then r f = Inl e \<longleftrightarrow> r = Inl e \<or> (\<exists>a. r = Inr a \<and> f a = Inl e)"
  by (cases r) auto

lemma and_then_cong [fundef_cong]:
  "r = r' \<Longrightarrow> (\<And>a. r' = Inr a \<Longrightarrow> f a = g a) \<Longrightarrow> and_then r f = and_then r' g"
  by (cases r') auto

text \<open>Collect the results of a fallible map, stopping at the first error.\<close>

fun map_result :: "('a \<Rightarrow> ('e, 'b) result) \<Rightarrow> 'a list \<Rightarrow> ('e, 'b list) result" where
  "map_result f [] = Inr []"
| "map_result f (x # xs) =
     and_then (f x) (\<lambda>y. and_then (map_result f xs) (\<lambda>ys. Inr (y # ys)))"

lemma map_result_length: "map_result f xs = Inr ys \<Longrightarrow> length ys = length xs"
  by (induction xs arbitrary: ys) (auto simp: and_then_Ok_iff)

lemma map_result_Ok_iff:
  "map_result f xs = Inr ys \<longleftrightarrow> list_all2 (\<lambda>x y. f x = Inr y) xs ys"
  by (induction xs arbitrary: ys) (auto simp: and_then_Ok_iff list_all2_Cons1)

lemma map_result_Err: "map_result f xs = Inl e \<Longrightarrow> \<exists>x \<in> set xs. f x = Inl e"
  by (induction xs) (auto simp: and_then_Err_iff)

lemma length_dropWhile_less [termination_simp]: "length (dropWhile P xs) < Suc (length xs)"
  by (simp add: length_dropWhile_le le_imp_less_Suc)

text \<open>
  Run-length folding of a list of flagged elements: flagged elements are emitted, every maximal
  run of unflagged elements is replaced by one marker that depends on the length of the run.
  The diff, log and search compressors all end in this loop.
\<close>

fun collapse_dropped :: "(nat \<Rightarrow> 'a) \<Rightarrow> (bool \<times> 'a) list \<Rightarrow> 'a list" where
  "collapse_dropped mk [] = []"
| "collapse_dropped mk ((k, x) # xs) =
     (if k then x # collapse_dropped mk xs
      else mk (Suc (length (takeWhile (\<lambda>p. \<not> fst p) xs)))
             # collapse_dropped mk (dropWhile (\<lambda>p. \<not> fst p) xs))"

lemma collapse_dropped_all:
  "\<forall>p \<in> set xs. fst p \<Longrightarrow> collapse_dropped mk xs = map snd xs"
  by (induction mk xs rule: collapse_dropped.induct) auto

lemma kept_dropWhile:
  "filter fst (dropWhile (\<lambda>p. \<not> fst p) xs) = filter fst xs"
  by (induction xs) auto

lemma collapse_dropped_kept:
  "subseq (map snd (filter fst xs)) (collapse_dropped mk xs)"
proof (induction mk xs rule: collapse_dropped.induct)
  case (2 mk k x xs)
  show ?case
  proof (cases k)
    case True
    with "2.IH"(1) show ?thesis by simp
  next
    case False
    with "2.IH"(2) have
      "subseq (map snd (filter fst xs)) (collapse_dropped mk (dropWhile (\<lambda>p. \<not> fst p) xs))"
      by (simp add: kept_dropWhile)
    with False show ?thesis by (simp add: list_emb_Cons)
  qed
qed simp

lemma set_collapse_dropped:
  "y \<in> set (collapse_dropped mk xs) \<Longrightarrow> y \<in> set (map snd (filter fst xs)) \<or> (\<exists>n. y = mk n)"
proof (induction mk xs rule: collapse_dropped.induct)
  case (2 mk k x xs)
  show ?case
  proof (cases k)
    case True
    with 2 show ?thesis by auto
  next
    case False
    with 2 show ?thesis by (auto simp: kept_dropWhile)
  qed
qed simp

lemma length_collapse_dropped: "length (collapse_dropped mk xs) \<le> length xs"
proof (induction mk xs rule: collapse_dropped.induct)
  case (2 mk k x xs)
  have "length (dropWhile (\<lambda>p. \<not> fst p) xs) \<le> length xs" by (rule length_dropWhile_le)
  with 2 show ?case by (cases k) auto
qed simp

text \<open>
  Every input position is accounted for: an emitted element stands for itself, a marker for the
  run it replaces. Expanding the markers of a recorded folding gives the input back.
\<close>

fun fold_plan :: "(bool \<times> 'a) list \<Rightarrow> ('a + nat) list" where
  "fold_plan [] = []"
| "fold_plan ((k, x) # xs) =
     (if k then Inl x # fold_plan xs
      else Inr (Suc (length (takeWhile (\<lambda>p. \<not> fst p) xs)))
             # fold_plan (dropWhile (\<lambda>p. \<not> fst p) xs))"

lemma collapse_dropped_plan:
  "collapse_dropped mk xs = map (case_sum id mk) (fold_plan xs)"
  by (induction xs rule: fold_plan.induct) auto

lemma fold_plan_total:
  "sum_list (map (case_sum (\<lambda>_. 1) id) (fold_plan xs)) = length xs"
proof (induction xs rule: fold_plan.induct)
  case (2 k x xs)
  have "length (takeWhile (\<lambda>p. \<not> fst p) xs) + length (dropWhile (\<lambda>p. \<not> fst p) xs) = length xs"
    by (metis length_append takeWhile_dropWhile_id)
  with 2 show ?case by (cases k) auto
qed simp

lemma fold_plan_kept: "[x. Inl x \<leftarrow> fold_plan xs] = map snd (filter fst xs)"
proof (induction xs rule: fold_plan.induct)
  case (2 k x xs)
  then show ?case by (cases k) (auto simp: kept_dropWhile)
qed simp

text \<open>Flags computed position by position.\<close>

lemma filter_zip_subseq:
  "length ks = length xs \<Longrightarrow> (\<And>i. i < length xs \<Longrightarrow> P (xs ! i) \<Longrightarrow> ks ! i) \<Longrightarrow>
     subseq (filter P xs) (map snd (filter fst (zip ks xs)))"
proof (induction ks xs rule: list_induct2)
  case (Cons k ks x xs)
  from Cons.prems [of 0] have k: "P x \<Longrightarrow> k" by simp
  have "ks ! i" if "i < length xs" "P (xs ! i)" for i
    using Cons.prems [of "Suc i"] that by simp
  then have "subseq (filter P xs) (map snd (filter fst (zip ks xs)))"
    by (rule Cons.IH)
  with k show ?case by (cases k) auto
qed simp

lemma kept_zip_nth:
  "length ks = length xs \<Longrightarrow>
     map snd (filter fst (zip ks xs)) = [xs ! i. i \<leftarrow> [0..<length xs], ks ! i]"
proof (induction ks xs rule: list_induct2)
  case (Cons k ks x xs)
  have "[0..<length (x # xs)] = 0 # map Suc [0..<length xs]"
    by (simp add: upt_conv_Cons map_Suc_upt del: upt_Suc)
  with Cons show ?case by (simp add: o_def del: upt_Suc cong: if_cong)
qed simp

text \<open>Small list facts.\<close>

lemma sum_list_subseq_le:
  "subseq xs ys \<Longrightarrow> sum_list (map f xs) \<le> sum_list (map f ys)" for f :: "'a \<Rightarrow> nat"
  by (induction rule: list_emb.induct) auto

lemma sum_list_butlast:
  "xs \<noteq> [] \<Longrightarrow> sum_list (map f xs) = sum_list (map f (butlast xs)) + f (last xs)"
  for f :: "'a \<Rightarrow> nat"
  by (cases xs rule: rev_cases) auto

lemma find_SomeD: "List.find P xs = Some x \<Longrightarrow> x \<in> set xs \<and> P x"
  by (auto simp: find_Some_iff)

end
