(* ===== verification/Rust_Text.thy ===== *)
theory Rust_Text
  imports Prelude
begin

text \<open>
  Rust text. A \<open>char\<close> is its Unicode scalar value, a \<open>str\<close> or \<open>String\<close> the list of
  its chars; \<open>len\<close> counts UTF-8 bytes as \<open>str::len\<close> does, and \<open>as_bytes\<close> is the UTF-8
  encoding. The functions below are the parts of the standard library that the modelled code
  calls; each is written to the documented behaviour of the method it is named after.
\<close>

type_synonym rchar = nat
type_synonym rstr = "rchar list"
type_synonym byte = nat

definition lit :: "string \<Rightarrow> rstr" where
  "lit s = map of_char s"

abbreviation (input) nl :: rchar where "nl \<equiv> 10"
abbreviation (input) cr :: rchar where "cr \<equiv> 13"

text \<open>The \<open>usize\<close> arithmetic that the code writes as saturating; \<open>u64\<close> has the same width.\<close>

definition USIZE_MAX :: nat where "USIZE_MAX = 2 ^ 64 - 1"

definition saturating_add :: "nat \<Rightarrow> nat \<Rightarrow> nat" where
  "saturating_add a b = min (a + b) USIZE_MAX"

definition saturating_mul :: "nat \<Rightarrow> nat \<Rightarrow> nat" where
  "saturating_mul a b = min (a * b) USIZE_MAX"

lemma lit_inj [simp]: "lit a = lit b \<longleftrightarrow> a = b"
  unfolding lit_def by (auto simp: inj_on_def)

lemma lit_Nil [simp]: "lit s = [] \<longleftrightarrow> s = []" "lit [] = []" "[] = lit s \<longleftrightarrow> s = []"
  by (auto simp: lit_def)

section \<open>Length and UTF-8\<close>

definition len_utf8 :: "rchar \<Rightarrow> nat" where
  "len_utf8 c = (if c < 128 then 1 else if c < 2048 then 2 else if c < 65536 then 3 else 4)"

definition len :: "rstr \<Rightarrow> nat" where
  "len s = sum_list (map len_utf8 s)"

definition utf8_char :: "rchar \<Rightarrow> byte list" where
  "utf8_char c =
     (if c < 128 then [c]
      else if c < 2048 then [192 + c div 64, 128 + c mod 64]
      else if c < 65536 then [224 + c div 4096, 128 + c div 64 mod 64, 128 + c mod 64]
      else [240 + c div 262144, 128 + c div 4096 mod 64, 128 + c div 64 mod 64, 128 + c mod 64])"

definition as_bytes :: "rstr \<Rightarrow> byte list" where
  "as_bytes s = concat (map utf8_char s)"

definition scalar :: "rchar \<Rightarrow> bool" where
  "scalar c \<longleftrightarrow> c < 55296 \<or> (57344 \<le> c \<and> c < 1114112)"

definition is_cont :: "byte \<Rightarrow> bool" where
  "is_cont b \<longleftrightarrow> 128 \<le> b \<and> b < 192"

text \<open>\<open>std::str::from_utf8\<close>: overlong forms, surrogates and values past U+10FFFF are errors.\<close>

fun from_utf8 :: "byte list \<Rightarrow> rstr option" where
  "from_utf8 [] = Some []"
| "from_utf8 (a # bs) =
     (if a < 128 then map_option ((#) a) (from_utf8 bs)
      else if 194 \<le> a \<and> a < 224 then
        (case bs of b # bs' \<Rightarrow>
           if is_cont b then map_option ((#) ((a - 192) * 64 + (b - 128))) (from_utf8 bs')
           else None
         | _ \<Rightarrow> None)
      else if 224 \<le> a \<and> a < 240 then
        (case bs of b # c # bs' \<Rightarrow>
           let v = (a - 224) * 4096 + (b - 128) * 64 + (c - 128) in
           if is_cont b \<and> is_cont c \<and> 2048 \<le> v \<and> scalar v
           then map_option ((#) v) (from_utf8 bs') else None
         | _ \<Rightarrow> None)
      else if 240 \<le> a \<and> a < 245 then
        (case bs of b # c # d # bs' \<Rightarrow>
           let v = (a - 240) * 262144 + (b - 128) * 4096 + (c - 128) * 64 + (d - 128) in
           if is_cont b \<and> is_cont c \<and> is_cont d \<and> 65536 \<le> v \<and> scalar v
           then map_option ((#) v) (from_utf8 bs') else None
         | _ \<Rightarrow> None)
      else None)"

lemma len_utf8_pos [simp]: "0 < len_utf8 c" "len_utf8 c \<le> 4" "Suc 0 \<le> len_utf8 c"
  by (simp_all add: len_utf8_def)

lemma len_Nil [simp]: "len [] = 0"
  and len_Cons [simp]: "len (c # s) = len_utf8 c + len s"
  and len_append [simp]: "len (s @ t) = len s + len t"
  by (simp_all add: len_def)

lemma len_0_iff [simp]: "len s = 0 \<longleftrightarrow> s = []"
  by (cases s) auto

lemma length_le_len: "length s \<le> len s"
proof (induction s)
  case (Cons c s)
  from len_utf8_pos(1) [of c] Cons show ?case by (simp del: len_utf8_pos)
qed simp

lemma len_rev [simp]: "len (rev s) = len s"
  by (induction s) auto

lemma len_ascii: "\<forall>c \<in> set s. c < 128 \<Longrightarrow> len s = length s"
  by (induction s) (auto simp: len_utf8_def)

lemma length_utf8_char: "length (utf8_char c) = len_utf8 c"
  by (simp add: utf8_char_def len_utf8_def)

lemma length_as_bytes [simp]: "length (as_bytes s) = len s"
  by (induction s) (auto simp: as_bytes_def length_utf8_char)

lemma as_bytes_append [simp]: "as_bytes (s @ t) = as_bytes s @ as_bytes t"
  by (simp add: as_bytes_def)

lemma split3: "4096 * (c div 4096) + 64 * (c div 64 mod 64) + c mod 64 = (c::nat)"
proof -
  have "c div 4096 = c div 64 div 64" by (simp add: div_mult2_eq [symmetric])
  moreover have "64 * (c div 64 div 64) + c div 64 mod 64 = c div 64" by (rule mult_div_mod_eq)
  moreover have "64 * (c div 64) + c mod 64 = c" by (rule mult_div_mod_eq)
  ultimately show ?thesis by linarith
qed

lemma split4:
  "262144 * (c div 262144) + 4096 * (c div 4096 mod 64) + 64 * (c div 64 mod 64) + c mod 64
     = (c::nat)"
proof -
  have "c div 262144 = c div 4096 div 64" by (simp add: div_mult2_eq [symmetric])
  moreover have "64 * (c div 4096 div 64) + c div 4096 mod 64 = c div 4096" by (rule mult_div_mod_eq)
  ultimately show ?thesis using split3 [of c] by linarith
qed

lemma from_utf8_1: "a < 128 \<Longrightarrow> from_utf8 (a # bs) = map_option ((#) a) (from_utf8 bs)"
  by simp

lemma from_utf8_2:
  "2 \<le> h \<Longrightarrow> h < 32 \<Longrightarrow> l < 64 \<Longrightarrow>
    from_utf8 ((192 + h) # (128 + l) # bs) = map_option ((#) (64 * h + l)) (from_utf8 bs)"
  by (simp add: is_cont_def mult.commute)

lemma from_utf8_3:
  "h < 16 \<Longrightarrow> m < 64 \<Longrightarrow> l < 64 \<Longrightarrow> v = 4096 * h + 64 * m + l \<Longrightarrow> 2048 \<le> v \<Longrightarrow> scalar v \<Longrightarrow>
    from_utf8 ((224 + h) # (128 + m) # (128 + l) # bs) = map_option ((#) v) (from_utf8 bs)"
  by (simp add: is_cont_def mult.commute)

lemma from_utf8_4:
  "h < 5 \<Longrightarrow> k < 64 \<Longrightarrow> m < 64 \<Longrightarrow> l < 64 \<Longrightarrow> v = 262144 * h + 4096 * k + 64 * m + l \<Longrightarrow>
    65536 \<le> v \<Longrightarrow> scalar v \<Longrightarrow>
    from_utf8 ((240 + h) # (128 + k) # (128 + m) # (128 + l) # bs)
      = map_option ((#) v) (from_utf8 bs)"
  by (simp add: is_cont_def mult.commute)

declare from_utf8.simps(2) [simp del]

lemma from_utf8_char:
  assumes "scalar c"
  shows "from_utf8 (utf8_char c @ bs) = map_option ((#) c) (from_utf8 bs)"
proof -
  consider "c < 128" | "128 \<le> c" "c < 2048" | "2048 \<le> c" "c < 65536" | "65536 \<le> c" "c < 1114112"
    using assms by (force simp: scalar_def)
  then show ?thesis
  proof cases
    case 1
    then show ?thesis by (simp add: utf8_char_def from_utf8_1)
  next
    case 2
    then have "2 \<le> c div 64" "c div 64 < 32" by auto
    then have "from_utf8 ((192 + c div 64) # (128 + c mod 64) # bs)
        = map_option ((#) (64 * (c div 64) + c mod 64)) (from_utf8 bs)"
      by (rule from_utf8_2) simp
    with 2 show ?thesis by (simp add: utf8_char_def)
  next
    case 3
    then have "c div 4096 < 16" by auto
    then have "from_utf8 ((224 + c div 4096) # (128 + c div 64 mod 64) # (128 + c mod 64) # bs)
        = map_option ((#) c) (from_utf8 bs)"
      by (rule from_utf8_3) (use 3 assms split3 [of c] in simp_all)
    with 3 show ?thesis by (simp add: utf8_char_def)
  next
    case 4
    then have "c div 262144 < 5" by auto
    then have "from_utf8 ((240 + c div 262144) # (128 + c div 4096 mod 64) # (128 + c div 64 mod 64)
          # (128 + c mod 64) # bs) = map_option ((#) c) (from_utf8 bs)"
      by (rule from_utf8_4) (use 4 assms split4 [of c] in simp_all)
    with 4 show ?thesis by (simp add: utf8_char_def)
  qed
qed

lemma from_utf8_as_bytes: "\<forall>c \<in> set s. scalar c \<Longrightarrow> from_utf8 (as_bytes s) = Some s"
  by (induction s) (auto simp: as_bytes_def from_utf8_char)

section \<open>Prefixes, suffixes and searching\<close>

definition starts_with :: "rstr \<Rightarrow> rstr \<Rightarrow> bool" where
  "starts_with s p \<longleftrightarrow> take (length p) s = p"

definition ends_with :: "rstr \<Rightarrow> rstr \<Rightarrow> bool" where
  "ends_with s p \<longleftrightarrow> length p \<le> length s \<and> drop (length s - length p) s = p"

definition strip_prefix :: "rstr \<Rightarrow> rstr \<Rightarrow> rstr option" where
  "strip_prefix s p = (if starts_with s p then Some (drop (length p) s) else None)"

definition strip_suffix :: "rstr \<Rightarrow> rstr \<Rightarrow> rstr option" where
  "strip_suffix s p = (if ends_with s p then Some (take (length s - length p) s) else None)"

text \<open>
  \<open>str::find\<close> with the byte index already turned into the two halves of the string: the text
  before the first occurrence, and the text from it on.
\<close>

fun find_sub :: "rstr \<Rightarrow> rstr \<Rightarrow> (rstr \<times> rstr) option" where
  "find_sub [] p = (if p = [] then Some ([], []) else None)"
| "find_sub (c # s) p =
     (if starts_with (c # s) p then Some ([], c # s)
      else map_option (\<lambda>(a, b). (c # a, b)) (find_sub s p))"

definition contains :: "rstr \<Rightarrow> rstr \<Rightarrow> bool" where
  "contains s p \<longleftrightarrow> find_sub s p \<noteq> None"

definition split_once :: "rstr \<Rightarrow> rchar \<Rightarrow> (rstr \<times> rstr) option" where
  "split_once s d =
     (if d \<in> set s then Some (takeWhile (\<lambda>c. c \<noteq> d) s, tl (dropWhile (\<lambda>c. c \<noteq> d) s)) else None)"

definition rsplit_once :: "rstr \<Rightarrow> rchar \<Rightarrow> (rstr \<times> rstr) option" where
  "rsplit_once s d =
     map_option (\<lambda>(a, b). (rev b, rev a)) (split_once (rev s) d)"

text \<open>\<open>s.rsplit(d).next()\<close>: the part after the last separator.\<close>

definition rsplit_next :: "rstr \<Rightarrow> rchar \<Rightarrow> rstr" where
  "rsplit_next s d = rev (takeWhile (\<lambda>c. c \<noteq> d) (rev s))"

definition trim_start_matches :: "rstr \<Rightarrow> rchar \<Rightarrow> rstr" where
  "trim_start_matches s d = dropWhile (\<lambda>c. c = d) s"

definition trim_end_matches :: "rstr \<Rightarrow> rchar \<Rightarrow> rstr" where
  "trim_end_matches s d = rev (dropWhile (\<lambda>c. c = d) (rev s))"

lemma starts_with_append [simp]: "starts_with (p @ s) p"
  by (simp add: starts_with_def)

lemma starts_with_Nil [simp]: "starts_with s []"
  by (simp add: starts_with_def)

lemma starts_with_iff: "starts_with s p \<longleftrightarrow> (\<exists>t. s = p @ t)"
  by (metis append_take_drop_id append_eq_conv_conj starts_with_def)

lemma strip_prefix_Some_iff: "strip_prefix s p = Some t \<longleftrightarrow> s = p @ t"
  by (auto simp: strip_prefix_def starts_with_iff split: if_splits)

lemma strip_prefix_None_iff: "strip_prefix s p = None \<longleftrightarrow> \<not> starts_with s p"
  by (simp add: strip_prefix_def)

lemma strip_prefix_append [simp]: "strip_prefix (p @ s) p = Some s"
  by (simp add: strip_prefix_Some_iff)

lemma ends_with_iff: "ends_with s p \<longleftrightarrow> (\<exists>t. s = t @ p)"
  by (auto simp: ends_with_def intro: exI [of _ "take (length s - length p) s"])
     (metis append_take_drop_id)

lemma strip_suffix_Some_iff: "strip_suffix s p = Some t \<longleftrightarrow> s = t @ p"
  by (auto simp: strip_suffix_def ends_with_iff split: if_splits)

lemma find_sub_Some: "find_sub s p = Some (a, b) \<Longrightarrow> s = a @ b \<and> starts_with b p"
  by (induction s p arbitrary: a b rule: find_sub.induct) (auto split: if_splits)

lemma find_sub_None: "find_sub s p = None \<longleftrightarrow> (\<forall>a b. s \<noteq> a @ p @ b)"
proof (induction s p rule: find_sub.induct)
  case (2 c s p)
  have "(\<exists>a b. c # s = a @ p @ b) \<longleftrightarrow> starts_with (c # s) p \<or> (\<exists>a b. s = a @ p @ b)"
    unfolding starts_with_iff by (auto simp: Cons_eq_append_conv)
  with 2 show ?case by auto
qed auto

lemma contains_iff: "contains s p \<longleftrightarrow> (\<exists>a b. s = a @ p @ b)"
  by (simp add: contains_def find_sub_None)

lemma contains_single: "contains s [c] \<longleftrightarrow> c \<in> set s"
  by (auto simp: contains_iff in_set_conv_decomp)

lemma len_dropWhile: "len (dropWhile P s) \<le> len s"
  by (induction s) auto

lemma len_trim_end_matches: "len (trim_end_matches s d) \<le> len s"
  using len_dropWhile [of "\<lambda>c. c = d" "rev s"] by (simp add: trim_end_matches_def)

text \<open>\<open>Path::join\<close>: an absolute argument replaces the path; else at most one separator is added.\<close>

definition path_join :: "rstr \<Rightarrow> rstr \<Rightarrow> rstr" where
  "path_join d f =
     (if starts_with f (lit ''/'') then f
      else if d = [] \<or> ends_with d (lit ''/'') then d @ f
      else d @ lit ''/'' @ f)"

section \<open>White space\<close>

text \<open>\<open>char::is_whitespace\<close>: the Unicode property \<open>White_Space\<close>.\<close>

definition is_whitespace :: "rchar \<Rightarrow> bool" where
  "is_whitespace c \<longleftrightarrow>
     (9 \<le> c \<and> c \<le> 13) \<or> c = 32 \<or> c = 133 \<or> c = 160 \<or> c = 5760 \<or> (8192 \<le> c \<and> c \<le> 8202)
     \<or> c = 8232 \<or> c = 8233 \<or> c = 8239 \<or> c = 8287 \<or> c = 12288"

definition trim_start :: "rstr \<Rightarrow> rstr" where
  "trim_start s = dropWhile is_whitespace s"

definition trim_end :: "rstr \<Rightarrow> rstr" where
  "trim_end s = rev (dropWhile is_whitespace (rev s))"

definition trim :: "rstr \<Rightarrow> rstr" where
  "trim s = trim_end (trim_start s)"

fun split_whitespace_aux :: "rstr \<Rightarrow> rstr \<Rightarrow> rstr list" where
  "split_whitespace_aux cur [] = (if cur = [] then [] else [rev cur])"
| "split_whitespace_aux cur (c # s) =
     (if is_whitespace c
      then (if cur = [] then split_whitespace_aux [] s else rev cur # split_whitespace_aux [] s)
      else split_whitespace_aux (c # cur) s)"

definition split_whitespace :: "rstr \<Rightarrow> rstr list" where
  "split_whitespace s = split_whitespace_aux [] s"

lemma len_trim_start: "len (trim_start s) \<le> len s"
  by (simp add: trim_start_def len_dropWhile)

lemma len_trim_end: "len (trim_end s) \<le> len s"
  using len_dropWhile [of is_whitespace "rev s"] by (simp add: trim_end_def)

lemma len_trim: "len (trim s) \<le> len s"
  using len_trim_end [of "trim_start s"] len_trim_start [of s] by (simp add: trim_def)

lemma trim_Nil [simp]: "trim [] = []" "trim_end [] = []" "trim_start [] = []"
  by (simp_all add: trim_def trim_end_def trim_start_def)

lemma dropWhile_idem [simp]: "dropWhile P (dropWhile P s) = dropWhile P s"
  by (induction s) auto

lemma trim_end_idem [simp]: "trim_end (trim_end s) = trim_end s"
  by (simp add: trim_end_def)

lemma trim_start_empty: "trim_start s = [] \<longleftrightarrow> (\<forall>c \<in> set s. is_whitespace c)"
  by (simp add: trim_start_def)

lemma trim_empty: "trim s = [] \<longleftrightarrow> (\<forall>c \<in> set s. is_whitespace c)"
proof -
  have "trim_end t = [] \<longleftrightarrow> (\<forall>c \<in> set t. is_whitespace c)" for t
    by (simp add: trim_end_def)
  moreover have "(\<forall>c \<in> set (trim_start s). is_whitespace c) \<longleftrightarrow> (\<forall>c \<in> set s. is_whitespace c)"
    by (induction s) (auto simp: trim_start_def)
  ultimately show ?thesis by (simp add: trim_def)
qed

lemma trim_end_no_trailing:
  "s \<noteq> [] \<Longrightarrow> \<not> is_whitespace (last s) \<Longrightarrow> trim_end s = s"
  by (cases s rule: rev_cases) (auto simp: trim_end_def)

section \<open>Lines\<close>

fun split_on :: "rchar \<Rightarrow> rstr \<Rightarrow> rstr list" where
  "split_on d [] = [[]]"
| "split_on d (c # s) =
     (if c = d then [] # split_on d s
      else (case split_on d s of [] \<Rightarrow> [[c]] | l # ls \<Rightarrow> (c # l) # ls))"

fun join :: "rstr \<Rightarrow> rstr list \<Rightarrow> rstr" where
  "join sep [] = []"
| "join sep [x] = x"
| "join sep (x # y # ys) = x @ sep @ join sep (y # ys)"

definition strip_cr :: "rstr \<Rightarrow> rstr" where
  "strip_cr l = (case strip_suffix l [cr] of Some l' \<Rightarrow> l' | None \<Rightarrow> l)"

text \<open>
  \<open>str::lines\<close>: every line that ends in a line feed loses it and one carriage return before
  it; an empty rest after the last line feed is not a line.
\<close>

definition lines :: "rstr \<Rightarrow> rstr list" where
  "lines s =
     (let ps = split_on nl s
      in map strip_cr (butlast ps) @ (if last ps = [] then [] else [last ps]))"

lemma split_on_neq_Nil [simp]: "split_on d s \<noteq> []"
  by (induction d s rule: split_on.induct) (auto split: list.splits)

lemma split_on_nonempty: "\<exists>l ls. split_on d s = l # ls"
  by (meson neq_Nil_conv split_on_neq_Nil)

lemma join_Cons: "ys \<noteq> [] \<Longrightarrow> join sep (x # ys) = x @ sep @ join sep ys"
  by (cases ys) auto

lemma join_split_on [simp]: "join [d] (split_on d s) = s"
proof (induction d s rule: split_on.induct)
  case (2 d c s)
  obtain l ls where "split_on d s = l # ls" using split_on_nonempty by blast
  with 2 show ?case by (cases ls) (auto simp: join_Cons)
qed simp

lemma split_on_no_sep_all: "\<forall>l \<in> set (split_on d s). d \<notin> set l"
  by (induction s) (auto split: list.splits)

lemma split_on_no_sep: "l \<in> set (split_on d s) \<Longrightarrow> d \<notin> set l"
  using split_on_no_sep_all by blast

lemma split_on_single: "d \<notin> set s \<Longrightarrow> split_on d s = [s]"
  by (induction s) auto

lemma split_on_append_sep: "d \<notin> set l \<Longrightarrow> split_on d (l @ d # s) = l # split_on d s"
  by (induction l) auto

lemma split_on_join:
  "ls \<noteq> [] \<Longrightarrow> \<forall>l \<in> set ls. d \<notin> set l \<Longrightarrow> split_on d (join [d] ls) = ls"
  by (induction "[d]" ls rule: join.induct) (auto simp: split_on_single split_on_append_sep)

lemma len_nl [simp]: "len_utf8 10 = 1" "len_utf8 13 = 1"
  by (simp_all add: len_utf8_def)

lemma len_join: "len (join [nl] ls) = sum_list (map len ls) + (length ls - 1)"
  by (induction "[nl]" ls rule: join.induct) auto

lemma sum_len_split_on: "len s = sum_list (map len (split_on nl s)) + (length (split_on nl s) - 1)"
  using len_join [of "split_on nl s"] by simp

lemma len_join_le:
  "xs \<noteq> [] \<Longrightarrow> length xs \<le> length ys \<Longrightarrow> sum_list (map len xs) \<le> sum_list (map len ys)
    \<Longrightarrow> len (join [nl] xs) \<le> len (join [nl] ys)"
  by (simp add: len_join add_mono diff_le_mono)

lemma len_strip_cr: "len (strip_cr l) \<le> len l"
  by (auto simp: strip_cr_def strip_suffix_Some_iff split: option.splits)

lemma lines_no_nl: "l \<in> set (lines s) \<Longrightarrow> nl \<notin> set l"
proof -
  assume "l \<in> set (lines s)"
  then obtain p where p: "p \<in> set (split_on nl s)" and "l = strip_cr p \<or> l = p"
    by (auto simp: lines_def Let_def split: if_splits dest: in_set_butlastD
        intro: last_in_set [OF split_on_neq_Nil])
  moreover have "set (strip_cr p) \<subseteq> set p"
    by (auto simp: strip_cr_def strip_suffix_Some_iff split: option.splits)
  ultimately show ?thesis using split_on_no_sep [OF p] by auto
qed

lemma len_join_lines: "len (join [nl] (lines s)) \<le> len s"
proof -
  let ?ps = "split_on nl s"
  have cr: "sum_list (map len (map strip_cr xs)) \<le> sum_list (map len xs)" for xs
    by (induction xs) (auto intro: add_mono len_strip_cr)
  have "sum_list (map len ?ps) = sum_list (map len (butlast ?ps)) + len (last ?ps)"
    by (rule sum_list_butlast) simp
  then have total: "len s = sum_list (map len (butlast ?ps)) + len (last ?ps) + length (butlast ?ps)"
    using sum_len_split_on [of s] by simp
  show ?thesis
  proof (cases "last ?ps = []")
    case True
    with cr [of "butlast ?ps"] total show ?thesis by (simp add: lines_def Let_def len_join)
  next
    case False
    with cr [of "butlast ?ps"] total show ?thesis by (simp add: lines_def Let_def len_join)
  qed
qed

section \<open>Numbers, character classes, case\<close>

definition is_ascii_digit :: "rchar \<Rightarrow> bool" where
  "is_ascii_digit c \<longleftrightarrow> 48 \<le> c \<and> c \<le> 57"

definition is_ascii_alphanumeric :: "rchar \<Rightarrow> bool" where
  "is_ascii_alphanumeric c \<longleftrightarrow>
     is_ascii_digit c \<or> (65 \<le> c \<and> c \<le> 90) \<or> (97 \<le> c \<and> c \<le> 122)"

definition to_ascii_lowercase :: "rstr \<Rightarrow> rstr" where
  "to_ascii_lowercase s = map (\<lambda>c. if 65 \<le> c \<and> c \<le> 90 then c + 32 else c) s"

fun show_nat :: "nat \<Rightarrow> rstr" where
  "show_nat n = (if n < 10 then [48 + n] else show_nat (n div 10) @ [48 + n mod 10])"

declare show_nat.simps [simp del]

text \<open>
  The Unicode tables of the standard library are data outside the repository: full lower-casing
  and the alphanumeric property are fields of a record that the modelled functions take as an
  argument. \<open>unicode_ascii\<close> is the restriction to ASCII, used to evaluate concrete inputs.
\<close>

record unicode =
  to_lowercase :: "rstr \<Rightarrow> rstr"
  is_alphanumeric :: "rchar \<Rightarrow> bool"

definition unicode_ascii :: unicode where
  "unicode_ascii =
     \<lparr>to_lowercase = to_ascii_lowercase, is_alphanumeric = is_ascii_alphanumeric\<rparr>"

text \<open>\<open>str::parse::<f64>().is_ok()\<close>: the grammar of \<open>f64::from_str\<close>.\<close>

definition drop_sign :: "rstr \<Rightarrow> rstr" where
  "drop_sign s = (case s of c # t \<Rightarrow> if c = 43 \<or> c = 45 then t else s | [] \<Rightarrow> [])"

definition float_exponent_ok :: "rstr \<Rightarrow> bool" where
  "float_exponent_ok s =
     (case s of [] \<Rightarrow> True
      | c # t \<Rightarrow> (c = 101 \<or> c = 69) \<and> drop_sign t \<noteq> [] \<and> list_all is_ascii_digit (drop_sign t))"

definition float_number_ok :: "rstr \<Rightarrow> bool" where
  "float_number_ok s =
     (let ds = takeWhile is_ascii_digit s; r = dropWhile is_ascii_digit s
      in case r of
           c # t \<Rightarrow>
             if c = 46
             then (ds \<noteq> [] \<or> takeWhile is_ascii_digit t \<noteq> [])
                  \<and> float_exponent_ok (dropWhile is_ascii_digit t)
             else ds \<noteq> [] \<and> float_exponent_ok r
         | [] \<Rightarrow> ds \<noteq> [])"

definition parse_f64_ok :: "rstr \<Rightarrow> bool" where
  "parse_f64_ok s =
     (let t = drop_sign s; l = to_ascii_lowercase t
      in l = lit ''inf'' \<or> l = lit ''infinity'' \<or> l = lit ''nan'' \<or> float_number_ok t)"

section \<open>Truncation at a char boundary\<close>

text \<open>
  The longest prefix of whole chars that fits in a number of bytes: the \<open>char_indices\<close> loop
  that moves a cut forward while the end of the char stays within the budget.
\<close>

fun take_bytes :: "nat \<Rightarrow> rstr \<Rightarrow> rstr" where
  "take_bytes n [] = []"
| "take_bytes n (c # s) =
     (if len_utf8 c \<le> n then c # take_bytes (n - len_utf8 c) s else [])"

lemma len_take_bytes: "len (take_bytes n s) \<le> n"
  by (induction n s rule: take_bytes.induct) auto

lemma take_bytes_prefix: "\<exists>t. s = take_bytes n s @ t"
  by (induction n s rule: take_bytes.induct) auto

lemma take_bytes_all: "len s \<le> n \<Longrightarrow> take_bytes n s = s"
  by (induction n s rule: take_bytes.induct) auto

lemma take_bytes_maximal: "s = take_bytes n s @ c # t \<Longrightarrow> n < len (take_bytes n s) + len_utf8 c"
  by (induction n s arbitrary: c t rule: take_bytes.induct) (fastforce split: if_splits)+

end
