(* ===== verification/Json.thy ===== *)
theory Json
  imports Rust_Text "HOL-Library.Finite_Map" "HOL-Library.Word"
begin

text \<open>
  JSON values as \<open>serde_json::Value\<close> has them, with the accessors the modelled code calls, and
  the ordered maps (\<open>BTreeMap\<close>) that the streaming translators key by an integer index.
  An object is a finite map, so equality of objects is equality of their entries whatever order
  they were inserted in. Parsing and printing of JSON text is code of the \<open>serde_json\<close>
  crate: the functions that need it take it as an argument.
\<close>

type_synonym i64 = "64 word"
type_synonym u64 = "64 word"
type_synonym u32 = "32 word"

text \<open>
  \<open>serde_json::Number\<close>: an unsigned integer, a negative integer in two's complement, or the
  bits of a finite float.
\<close>

datatype jnumber = PosInt u64 | NegInt i64 | Float "64 word"

datatype json =
    JNull
  | JBool bool
  | JNumber jnumber
  | JString rstr
  | JArray "json list"
  | JObject "(rstr, json) fmap"

type_synonym jmap = "(rstr, json) fmap"

fun jget :: "json \<Rightarrow> rstr \<Rightarrow> json option" where
  "jget (JObject m) k = fmlookup m k"
| "jget _ k = None"

fun as_str :: "json \<Rightarrow> rstr option" where
  "as_str (JString s) = Some s"
| "as_str _ = None"

fun as_array :: "json \<Rightarrow> json list option" where
  "as_array (JArray xs) = Some xs"
| "as_array _ = None"

fun as_i64 :: "json \<Rightarrow> i64 option" where
  "as_i64 (JNumber (PosInt n)) = (if unat n < 2 ^ 63 then Some n else None)"
| "as_i64 (JNumber (NegInt n)) = Some n"
| "as_i64 _ = None"

fun as_u64 :: "json \<Rightarrow> u64 option" where
  "as_u64 (JNumber (PosInt n)) = Some n"
| "as_u64 _ = None"

text \<open>The accessors are chained with \<open>and_then\<close> on options.\<close>

definition get_str :: "json \<Rightarrow> rstr \<Rightarrow> rstr option" where
  "get_str v k = Option.bind (jget v k) as_str"

definition get_i64 :: "json \<Rightarrow> rstr \<Rightarrow> i64 option" where
  "get_i64 v k = Option.bind (jget v k) as_i64"

definition get_array :: "json \<Rightarrow> rstr \<Rightarrow> json list option" where
  "get_array v k = Option.bind (jget v k) as_array"

text \<open>The object literals of the \<open>json!\<close> macro.\<close>

definition jmap_of :: "(rstr \<times> json) list \<Rightarrow> jmap" where
  "jmap_of kvs = fold (\<lambda>(k, v) m. fmupd k v m) kvs fmempty"

definition jobj :: "(rstr \<times> json) list \<Rightarrow> json" where
  "jobj kvs = JObject (jmap_of kvs)"

definition jstr :: "string \<Rightarrow> json" where
  "jstr s = JString (lit s)"

definition jnat :: "u64 \<Rightarrow> json" where
  "jnat n = JNumber (PosInt n)"

lemma fmlookup_fold_fmupd:
  "fmlookup (fold (\<lambda>(k, v) m. fmupd k v m) kvs m) k
     = (case map_of (rev kvs) k of Some v \<Rightarrow> Some v | None \<Rightarrow> fmlookup m k)"
  by (induction kvs arbitrary: m) (auto simp: map_add_def split: option.splits)

lemma fmlookup_jmap_of [json_simps]: "fmlookup (jmap_of kvs) k = map_of (rev kvs) k"
  by (simp add: jmap_of_def fmlookup_fold_fmupd split: option.splits)

lemma jget_jobj [json_simps]: "jget (jobj kvs) k = map_of (rev kvs) k"
  by (simp add: jobj_def fmlookup_jmap_of)

lemma as_str_Some_iff: "as_str v = Some s \<longleftrightarrow> v = JString s"
  by (cases v) auto

lemma as_array_Some_iff: "as_array v = Some xs \<longleftrightarrow> v = JArray xs"
  by (cases v) auto

lemma get_str_Some_iff: "get_str v k = Some s \<longleftrightarrow> jget v k = Some (JString s)"
  by (auto simp: get_str_def as_str_Some_iff bind_eq_Some_conv)

lemma as_i64_range:
  "as_i64 v = Some n \<Longrightarrow> v = JNumber (PosInt m) \<Longrightarrow> n = m \<and> unat m < 2 ^ 63"
  by (auto split: if_splits)

declare get_str_def [json_simps] get_i64_def [json_simps] get_array_def [json_simps]
  jstr_def [json_simps] jnat_def [json_simps]

section \<open>Ordered maps\<close>

text \<open>
  The contract the translators rely on: a map with a default entry, whose keys are kept in
  increasing order. \<open>entry k f\<close> is \<open>entry(k).or_default()\<close> followed by an in-place update.
\<close>

locale ordered_map =
  fixes empty :: "'m"
    and get :: "'m \<Rightarrow> int \<Rightarrow> 'v option"
    and put :: "int \<Rightarrow> 'v \<Rightarrow> 'm \<Rightarrow> 'm"
    and entries :: "'m \<Rightarrow> (int \<times> 'v) list"
    and inv :: "'m \<Rightarrow> bool"
  assumes inv_empty: "inv empty"
    and get_empty: "get empty k = None"
    and inv_put: "inv m \<Longrightarrow> inv (put k v m)"
    and get_put: "inv m \<Longrightarrow> get (put k v m) k' = (if k' = k then Some v else get m k')"
    and entries_get: "inv m \<Longrightarrow> (k, v) \<in> set (entries m) \<longleftrightarrow> get m k = Some v"
    and entries_sorted: "inv m \<Longrightarrow> sorted_wrt (<) (map fst (entries m))"
begin

definition entry :: "'v \<Rightarrow> int \<Rightarrow> ('v \<Rightarrow> 'v) \<Rightarrow> 'm \<Rightarrow> 'm" where
  "entry d k f m = put k (f (case get m k of Some v \<Rightarrow> v | None \<Rightarrow> d)) m"

lemma inv_entry: "inv m \<Longrightarrow> inv (entry d k f m)"
  by (simp add: entry_def inv_put)

lemma get_entry:
  "inv m \<Longrightarrow> get (entry d k f m) k'
     = (if k' = k then Some (f (case get m k of Some v \<Rightarrow> v | None \<Rightarrow> d)) else get m k')"
  by (simp add: entry_def get_put)

lemma entries_distinct: "inv m \<Longrightarrow> distinct (map fst (entries m))"
  using entries_sorted strict_sorted_iff by blast

lemma entries_empty: "entries empty = []"
  using entries_get [OF inv_empty] get_empty
  by (metis list.set_intros(1) neq_Nil_conv option.distinct(1) surj_pair)

end

type_synonym 'v btree = "(int \<times> 'v) list"

fun bt_put :: "int \<Rightarrow> 'v \<Rightarrow> 'v btree \<Rightarrow> 'v btree" where
  "bt_put k v [] = [(k, v)]"
| "bt_put k v ((k', v') # m) =
     (if k < k' then (k, v) # (k', v') # m
      else if k = k' then (k, v) # m
      else (k', v') # bt_put k v m)"

definition bt_inv :: "'v btree \<Rightarrow> bool" where
  "bt_inv m \<longleftrightarrow> sorted_wrt (<) (map fst m)"

definition bt_entry :: "'v \<Rightarrow> int \<Rightarrow> ('v \<Rightarrow> 'v) \<Rightarrow> 'v btree \<Rightarrow> 'v btree" where
  "bt_entry d k f m = bt_put k (f (case map_of m k of Some v \<Rightarrow> v | None \<Rightarrow> d)) m"

lemma keys_bt_put: "(\<forall>p \<in> set (bt_put k v m). P (fst p)) \<longleftrightarrow> P k \<and> (\<forall>p \<in> set m. P (fst p))"
  by (induction k v m rule: bt_put.induct) auto

lemma bt_inv_put: "bt_inv m \<Longrightarrow> bt_inv (bt_put k v m)"
  by (induction k v m rule: bt_put.induct)
     (auto simp: bt_inv_def keys_bt_put [where P = "\<lambda>x. _ < x"])

lemma map_of_bt_put:
  "bt_inv m \<Longrightarrow> map_of (bt_put k v m) k' = (if k' = k then Some v else map_of m k')"
  by (induction k v m rule: bt_put.induct)
     (auto simp: bt_inv_def map_of_eq_None_iff [symmetric] intro!: map_of_eq_None_iff [THEN iffD2])

interpretation bt: ordered_map "[]" map_of bt_put "\<lambda>m. m" bt_inv
proof unfold_locales
  fix m :: "'v btree" and k v
  assume "bt_inv m"
  then have "distinct (map fst m)"
    by (simp add: bt_inv_def strict_sorted_iff)
  then show "(k, v) \<in> set m \<longleftrightarrow> map_of m k = Some v" by simp
qed (auto simp: bt_inv_put map_of_bt_put, simp_all add: bt_inv_def)

lemma bt_entry_eq: "bt_entry = bt.entry"
  by (intro ext) (simp add: bt_entry_def bt.entry_def)

end
