(* ===== verification/Protocol.thy ===== *)
theory Protocol
  imports Json
begin

text \<open>
  The request and event types that the llm-compress and llm-switch crates exchange with codex:
  \<open>ResponseItem\<close> and its payloads (codex-rs/protocol), \<open>ResponsesApiRequest\<close>,
  \<open>ResponseEvent\<close> and \<open>ApiError\<close> (codex-rs/codex-api), and the session sources that purpose
  routing reads. Payloads that none of the modelled functions inspect are kept as the JSON value
  they serialise to.
\<close>

type_synonym opaque = json

datatype image_detail = DetailAuto | DetailLow | DetailHigh | DetailOriginal

datatype message_phase = Commentary | FinalAnswer

type_synonym passthrough = "rstr option"

datatype content_item =
    InputText rstr
  | InputImage rstr "image_detail option"
  | OutputText rstr

datatype agent_message_input_content =
    AgentInputText rstr
  | AgentEncryptedContent rstr

datatype function_call_output_content_item =
    FcoInputText rstr
  | FcoInputImage rstr "image_detail option"
  | FcoEncryptedContent rstr

datatype function_call_output_body =
    Text rstr
  | ContentItems "function_call_output_content_item list"

record function_call_output_payload =
  out_body :: function_call_output_body
  out_success :: "bool option"

text \<open>
  Fields in the order of the source: the item id first, the passthrough metadata last.
\<close>

datatype response_item =
    Message "rstr option" rstr "content_item list" "message_phase option" "passthrough option"
  | AgentMessage "rstr option" rstr rstr "agent_message_input_content list" "passthrough option"
  | Reasoning "rstr option" "opaque list" "opaque list option" "rstr option" "passthrough option"
  | LocalShellCall "rstr option" "rstr option" opaque opaque "passthrough option"
  | FunctionCall "rstr option" rstr "rstr option" rstr rstr "passthrough option"
  | ToolSearchCall "rstr option" "rstr option" "rstr option" rstr json "passthrough option"
  | FunctionCallOutput "rstr option" rstr function_call_output_payload "passthrough option"
  | CustomToolCall "rstr option" "rstr option" rstr rstr rstr "passthrough option"
  | CustomToolCallOutput "rstr option" rstr "rstr option" function_call_output_payload
      "passthrough option"
  | ToolSearchOutput "rstr option" "rstr option" rstr rstr "json list" "passthrough option"
  | WebSearchCall "rstr option" "rstr option" "opaque option" "passthrough option"
  | ImageGenerationCall "rstr option" rstr "rstr option" rstr "passthrough option"
  | Compaction "rstr option" rstr "passthrough option"
  | CompactionTrigger "passthrough option"
  | ContextCompaction "rstr option" "rstr option" "passthrough option"
  | Other

record token_usage =
  input_tokens :: i64
  cached_input_tokens :: i64
  output_tokens :: i64
  reasoning_output_tokens :: i64
  total_tokens :: i64

datatype response_event =
    Created
  | SafetyBuffering opaque
  | OutputItemDone response_item
  | OutputItemAdded response_item
  | ServerModel rstr
  | ModelVerifications "opaque list"
  | TurnModerationMetadata opaque
  | ServerReasoningIncluded bool
  | Completed rstr "token_usage option" "bool option"
  | OutputTextDelta rstr
  | ToolCallInputDelta rstr "rstr option" rstr
  | ReasoningSummaryDelta rstr i64
  | ReasoningContentDelta rstr i64
  | ReasoningSummaryPartAdded i64
  | RateLimits opaque
  | ModelsEtag rstr

datatype api_error =
    Transport rstr
  | Api nat rstr
  | StreamError rstr
  | ContextWindowExceeded
  | QuotaExceeded
  | UsageNotIncluded
  | Retryable rstr "nat option"
  | RateLimit rstr
  | InvalidRequest rstr
  | CyberPolicy rstr
  | ServerOverloaded

datatype reasoning_effort =
    EffortNone | Minimal | Low | Medium | High | XHigh | Custom rstr

fun reasoning_effort_as_str :: "reasoning_effort \<Rightarrow> rstr" where
  "reasoning_effort_as_str EffortNone = lit ''none''"
| "reasoning_effort_as_str Minimal = lit ''minimal''"
| "reasoning_effort_as_str Low = lit ''low''"
| "reasoning_effort_as_str Medium = lit ''medium''"
| "reasoning_effort_as_str High = lit ''high''"
| "reasoning_effort_as_str XHigh = lit ''xhigh''"
| "reasoning_effort_as_str (Custom effort) = effort"

record reasoning_cfg =
  effort :: "reasoning_effort option"
  summary :: "opaque option"
  context_cfg :: "opaque option"

text \<open>\<open>TextFormatType\<close> has one variant, \<open>JsonSchema\<close>, which serialises as \<open>json_schema\<close>.\<close>

datatype text_format_type = JsonSchema

record text_format =
  format_type :: text_format_type
  strict :: bool
  schema :: json
  format_name :: rstr

record text_controls =
  verbosity :: "opaque option"
  format :: "text_format option"

text \<open>The derived \<open>Serialize\<close> of \<open>TextFormat\<close>.\<close>

definition text_format_to_value :: "text_format \<Rightarrow> json" where
  "text_format_to_value f =
     jobj [(lit ''type'', case format_type f of JsonSchema \<Rightarrow> jstr ''json_schema''),
           (lit ''strict'', JBool (strict f)),
           (lit ''schema'', schema f),
           (lit ''name'', JString (format_name f))]"

record responses_api_request =
  model :: rstr
  instructions :: rstr
  input :: "response_item list"
  tools :: "json list"
  tool_choice :: rstr
  parallel_tool_calls :: bool
  reasoning :: "reasoning_cfg option"
  store :: bool
  stream :: bool
  include_fields :: "rstr list"
  service_tier :: "rstr option"
  prompt_cache_key :: "rstr option"
  text_cfg :: "text_controls option"
  client_metadata :: "(rstr \<times> rstr) list option"

datatype internal_session_source = InternalMemoryConsolidation

datatype sub_agent_source =
    Review
  | Compact
  | ThreadSpawn opaque "32 word" "opaque option" "rstr option" "rstr option"
  | MemoryConsolidation
  | OtherSource rstr

datatype session_source =
    Cli | VSCode | Exec | Mcp
  | CustomSource rstr
  | Internal internal_session_source
  | SubAgent sub_agent_source
  | Unknown

text \<open>The call identifier an item refers to, where it has one.\<close>

fun output_call_id :: "response_item \<Rightarrow> rstr option" where
  "output_call_id (FunctionCallOutput i c p m) = Some c"
| "output_call_id (CustomToolCallOutput i c n p m) = Some c"
| "output_call_id _ = None"

end
