(* ===== verification/Compress_Config.thy ===== *)
theory Compress_Config
  imports Protocol
begin

text \<open>
  Configuration of llm-compress (zmod/llm-compress/src/config.rs) and the external code the
  crate calls. A missing home directory, a missing file, a missing \<open>[llm_compress]\<close> section
  and a parse error all give the disabled configuration.
\<close>

record truncate_cfg =
  head_lines :: nat
  tail_lines :: nat
  max_bytes :: nat

record json_cfg =
  use_toon :: bool

record diff_cfg =
  context_lines :: nat

record log_cfg =
  keep_levels :: "rstr list"

record preprocess_cfg =
  cfg_strip_progress :: bool
  cfg_collapse_blank :: bool
  truncate_line_bytes :: nat
  cfg_dedup_consecutive :: bool
  blob_min_bytes :: nat

record search_cfg =
  max_per_file :: nat
  max_files :: nat

record protect_cfg =
  error_max_bytes :: nat

record ccr_cfg =
  ccr_enabled :: bool
  max_files_per_thread :: nat
  max_thread_bytes :: nat
  max_file_bytes :: nat

record compress_config =
  enabled :: bool
  per_item_min_bytes :: nat
  truncate_sec :: truncate_cfg
  json_sec :: json_cfg
  diff_sec :: diff_cfg
  log_sec :: log_cfg
  preprocess_sec :: preprocess_cfg
  search_sec :: search_cfg
  protect_sec :: protect_cfg
  ccr_sec :: ccr_cfg

definition truncate_cfg_default :: truncate_cfg where
  "truncate_cfg_default = \<lparr>head_lines = 50, tail_lines = 50, max_bytes = 16384\<rparr>"

definition json_cfg_default :: json_cfg where
  "json_cfg_default = \<lparr>use_toon = True\<rparr>"

definition diff_cfg_default :: diff_cfg where
  "diff_cfg_default = \<lparr>context_lines = 3\<rparr>"

definition log_cfg_default :: log_cfg where
  "log_cfg_default = \<lparr>keep_levels = [lit ''error'', lit ''warn'']\<rparr>"

definition preprocess_cfg_default :: preprocess_cfg where
  "preprocess_cfg_default =
     \<lparr>cfg_strip_progress = True, cfg_collapse_blank = True, truncate_line_bytes = 2000,
      cfg_dedup_consecutive = True, blob_min_bytes = 256\<rparr>"

definition search_cfg_default :: search_cfg where
  "search_cfg_default = \<lparr>max_per_file = 5, max_files = 15\<rparr>"

definition protect_cfg_default :: protect_cfg where
  "protect_cfg_default = \<lparr>error_max_bytes = 8192\<rparr>"

definition ccr_cfg_default :: ccr_cfg where
  "ccr_cfg_default =
     \<lparr>ccr_enabled = True, max_files_per_thread = 200, max_thread_bytes = 67108864,
      max_file_bytes = 4194304\<rparr>"

definition compress_config_default :: compress_config where
  "compress_config_default =
     \<lparr>enabled = False, per_item_min_bytes = 1024,
      truncate_sec = truncate_cfg_default, json_sec = json_cfg_default,
      diff_sec = diff_cfg_default, log_sec = log_cfg_default,
      preprocess_sec = preprocess_cfg_default, search_sec = search_cfg_default,
      protect_sec = protect_cfg_default, ccr_sec = ccr_cfg_default\<rparr>"

definition config_disabled :: compress_config where
  "config_disabled = compress_config_default"

text \<open>
  \<open>toml::from_str::<RootFile>\<close> is external: it gives an error message or the optional
  \<open>[llm_compress]\<close> section. A file that cannot be read is \<open>None\<close>.
\<close>

type_synonym toml_parser = "rstr \<Rightarrow> (rstr, compress_config option) result"

definition load_from :: "toml_parser \<Rightarrow> rstr option \<Rightarrow> compress_config" where
  "load_from toml file =
     (case file of
        None \<Rightarrow> config_disabled
      | Some content \<Rightarrow>
          (case toml content of
             Inr (Some c) \<Rightarrow> c
           | Inr None \<Rightarrow> config_disabled
           | Inl e \<Rightarrow> config_disabled))"

definition config_path :: "rstr option \<Rightarrow> rstr option" where
  "config_path home =
     map_option (\<lambda>h. path_join (path_join h (lit ''.codex'')) (lit ''config-zmod.toml'')) home"

definition load :: "toml_parser \<Rightarrow> (rstr \<Rightarrow> rstr option) \<Rightarrow> rstr option \<Rightarrow> compress_config" where
  "load toml read_file home =
     (case config_path home of Some p \<Rightarrow> load_from toml (read_file p) | None \<Rightarrow> config_disabled)"

lemma config_disabled_not_enabled [simp]: "\<not> enabled config_disabled"
  by (simp add: config_disabled_def compress_config_default_def)

text \<open>Compression is on only when a readable file has a parsed section that turns it on.\<close>

lemma load_enabledD:
  assumes "enabled (load toml read_file home)"
  obtains h content c where "home = Some h"
    "read_file (path_join (path_join h (lit ''.codex'')) (lit ''config-zmod.toml'')) = Some content"
    "toml content = Inr (Some c)" "enabled c" "load toml read_file home = c"
  using assms
  by (cases home)
     (auto simp: load_def load_from_def config_path_def split: option.splits sum.splits)

section \<open>External code\<close>

text \<open>
  What the crate calls from other packages: the Unicode tables, the JSON parser of
  \<open>serde_json\<close>, the encoder and decoder of \<open>toon_format\<close> and SHA-256. Every field is total and
  pure; an error of the library is \<open>None\<close>.
\<close>

record external =
  uni :: unicode
  parse_json :: "rstr \<Rightarrow> json option"
  toon_encode :: "json \<Rightarrow> rstr option"
  toon_decode :: "rstr \<Rightarrow> json option"
  sha256 :: "byte list \<Rightarrow> byte list"

text \<open>A concrete instance for evaluation: no JSON is recognised, no TOON is produced.\<close>

definition external_plain :: external where
  "external_plain =
     \<lparr>uni = unicode_ascii, parse_json = (\<lambda>_. None), toon_encode = (\<lambda>_. None),
      toon_decode = (\<lambda>_. None), sha256 = (\<lambda>bs. replicate 32 (sum_list bs mod 256))\<rparr>"

section \<open>Property\<close>

text \<open>
  Compression is fail-safe: it is on only when the home directory is known, the
  configuration file can be read, it parses, it has the section, and the section turns
  compression on. Every other case gives the disabled configuration.
\<close>

theorem load_fail_safe:
  "enabled (load toml read_file home) \<longleftrightarrow>
     (\<exists>h content c. home = Some h
        \<and> read_file (path_join (path_join h (lit ''.codex'')) (lit ''config-zmod.toml'')) = Some content
        \<and> toml content = Ok (Some c) \<and> enabled c)" (is "?on = ?file")
proof
  assume ?on
  then show ?file by (rule load_enabledD) blast
next
  assume ?file
  then show ?on by (auto simp: load_def load_from_def config_path_def)
qed

end
