(* ===== verification/Compress_Command.thy ===== *)
theory Compress_Command
  imports Compress_Config
begin

text \<open>
  Command hints (zmod/llm-compress/src/command.rs): which shell command produced a tool output,
  read from the arguments of the function call with the same call id. The hint only steers
  routing; a call whose arguments cannot be read is not indexed.
\<close>

record command_hint =
  program :: rstr
  argv :: "rstr list"

definition is_git_diff :: "command_hint \<Rightarrow> bool" where
  "is_git_diff c \<longleftrightarrow>
     ends_with (program c) (lit ''git'')
     \<and> (case argv c of a # _ \<Rightarrow> a = lit ''diff'' \<or> a = lit ''show'' | [] \<Rightarrow> False)"

definition is_grep :: "command_hint \<Rightarrow> bool" where
  "is_grep c \<longleftrightarrow>
     rsplit_next (program c) 47 \<in> {lit ''grep'', lit ''rg'', lit ''ripgrep''}"

definition is_test_runner :: "command_hint \<Rightarrow> bool" where
  "is_test_runner c \<longleftrightarrow>
     rsplit_next (program c) 47
       \<in> {lit ''pytest'', lit ''jest'', lit ''vitest'', lit ''cargo'', lit ''go'', lit ''rspec''}"

text \<open>
  The tokenizer's state: finished tokens, the current token, the open quote and whether a token
  has begun. A quote opens a token even when nothing follows, so \<open>''\<close> is an empty token.
\<close>

record split_state =
  toks :: "rstr list"
  cur_tok :: rstr
  quote_ch :: "rchar option"
  has_token :: bool

definition split_step :: "split_state \<Rightarrow> rchar \<Rightarrow> split_state" where
  "split_step st ch =
     (case quote_ch st of
        Some q \<Rightarrow> if ch = q then st\<lparr>quote_ch := None\<rparr> else st\<lparr>cur_tok := cur_tok st @ [ch]\<rparr>
      | None \<Rightarrow>
          if ch = 39 \<or> ch = 34 then st\<lparr>quote_ch := Some ch, has_token := True\<rparr>
          else if is_whitespace ch then
            (if has_token st
             then st\<lparr>toks := toks st @ [cur_tok st], cur_tok := [], has_token := False\<rparr> else st)
          else st\<lparr>cur_tok := cur_tok st @ [ch], has_token := True\<rparr>)"

definition shell_split :: "rstr \<Rightarrow> rstr list" where
  "shell_split line =
     (let st = foldl split_step \<lparr>toks = [], cur_tok = [], quote_ch = None, has_token = False\<rparr> line
      in if has_token st then toks st @ [cur_tok st] else toks st)"

definition hint_of_line :: "rstr \<Rightarrow> command_hint option" where
  "hint_of_line line =
     (case shell_split line of
        [] \<Rightarrow> None
      | p # args \<Rightarrow> Some \<lparr>program = p, argv = args\<rparr>)"

definition parse_hint :: "external \<Rightarrow> rstr \<Rightarrow> rstr \<Rightarrow> command_hint option" where
  "parse_hint ext name arguments =
     (if name = lit ''shell_command'' then
        Option.bind (Option.bind (parse_json ext arguments) (\<lambda>v. get_str v (lit ''command'')))
          hint_of_line
      else if name = lit ''exec_command'' then
        Option.bind (Option.bind (parse_json ext arguments) (\<lambda>v. get_str v (lit ''cmd'')))
          hint_of_line
      else if name = [] then None
      else Some \<lparr>program = name, argv = []\<rparr>)"

fun index_item :: "external \<Rightarrow> response_item \<Rightarrow> (rstr \<rightharpoonup> command_hint) \<Rightarrow> (rstr \<rightharpoonup> command_hint)" where
  "index_item ext (FunctionCall i name ns arguments call_id meta) m =
     (case parse_hint ext name arguments of Some hint \<Rightarrow> m(call_id \<mapsto> hint) | None \<Rightarrow> m)"
| "index_item ext _ m = m"

definition index :: "external \<Rightarrow> responses_api_request \<Rightarrow> (rstr \<rightharpoonup> command_hint)" where
  "index ext request = fold (index_item ext) (input request) Map.empty"

section \<open>The tokenizer inverts quoting\<close>

definition quoted :: "rstr \<Rightarrow> rstr" where
  "quoted w = 39 # w @ [39]"

lemma split_step_in_quote:
  "39 \<notin> set w \<Longrightarrow> quote_ch st = Some 39 \<Longrightarrow>
    foldl split_step st w = st\<lparr>cur_tok := cur_tok st @ w\<rparr>"
proof (induction w arbitrary: st)
  case Nil
  then show ?case by simp
next
  case (Cons c w)
  then show ?case by (simp add: split_step_def)
qed

lemma split_step_quoted:
  assumes "39 \<notin> set w" and "quote_ch st = None" and "cur_tok st = []"
  shows "foldl split_step st (quoted w) = st\<lparr>cur_tok := w, quote_ch := None, has_token := True\<rparr>"
proof -
  have open_q: "split_step st 39 = st\<lparr>quote_ch := Some 39, has_token := True\<rparr>"
    using assms by (simp add: split_step_def)
  have body: "foldl split_step (split_step st 39) w
      = st\<lparr>quote_ch := Some 39, has_token := True, cur_tok := w\<rparr>"
    using assms by (simp add: open_q split_step_in_quote)
  show ?thesis
    using assms by (simp add: quoted_def body) (simp add: split_step_def)
qed

lemma split_step_space:
  "quote_ch st = None \<Longrightarrow> has_token st \<Longrightarrow>
    split_step st 32 = st\<lparr>toks := toks st @ [cur_tok st], cur_tok := [], has_token := False\<rparr>"
  by (simp add: split_step_def is_whitespace_def)

lemma foldl_split_quoted_words:
  assumes "ws \<noteq> []" and "\<forall>w \<in> set ws. 39 \<notin> set w" and "quote_ch st = None" and "cur_tok st = []"
  shows "foldl split_step st (join [32] (map quoted ws))
    = st\<lparr>toks := toks st @ butlast ws, cur_tok := last ws, quote_ch := None, has_token := True\<rparr>"
  using assms
proof (induction ws arbitrary: st rule: list_nonempty_induct)
  case (single w)
  then show ?case by (simp add: split_step_quoted)
next
  case (cons w ws)
  then show ?case
    by (simp add: join_Cons split_step_quoted split_step_space)
qed

lemma shell_split_quoted:
  assumes "\<forall>w \<in> set ws. 39 \<notin> set w"
  shows "shell_split (join [32] (map quoted ws)) = ws"
proof (cases "ws = []")
  case True
  then show ?thesis by (simp add: shell_split_def)
next
  case False
  with assms show ?thesis
    by (simp add: shell_split_def foldl_split_quoted_words Let_def)
qed

lemma index_dom:
  "fold (index_item ext) items m call_id = Some hint \<Longrightarrow>
    m call_id = Some hint \<or>
    (\<exists>i name ns args meta. FunctionCall i name ns args call_id meta \<in> set items
       \<and> parse_hint ext name args = Some hint)"
proof (induction items arbitrary: m)
  case Nil
  then show ?case by simp
next
  case (Cons it items)
  from Cons.IH [of "index_item ext it m"] Cons.prems
  have "index_item ext it m call_id = Some hint \<or>
    (\<exists>i name ns args meta. FunctionCall i name ns args call_id meta \<in> set items
       \<and> parse_hint ext name args = Some hint)" by simp
  moreover have "index_item ext it m call_id = Some hint \<Longrightarrow> m call_id = Some hint \<or>
    (\<exists>i name ns args meta. it = FunctionCall i name ns args call_id meta
       \<and> parse_hint ext name args = Some hint)"
    by (cases it) (auto split: option.splits if_splits)
  ultimately show ?case by fastforce
qed

section \<open>Property\<close>

text \<open>
  The tokenizer inverts quoting: words without single quotes, each wrapped in single quotes
  and joined by spaces, come back exactly, empty words and words with blanks included.
\<close>

theorem shell_split_inverts_quoting:
  assumes "\<forall>w \<in> set ws. 39 \<notin> set w"
  shows "shell_split (join [32] (map quoted ws)) = ws"
  using assms by (rule shell_split_quoted)

theorem shell_split_inverts_quoting_witness:
  "shell_split (join [32] (map quoted [lit ''git'', [], lit ''a b''])) = [lit ''git'', [], lit ''a b'']"
  by (rule shell_split_inverts_quoting) (simp add: lit_def)

end
