(* ===== verification/Compress_Router.thy ===== *)
theory Compress_Router
  imports Compress_Command
begin

text \<open>
  The compressor contract and the content router (zmod/llm-compress/src/router.rs), the line
  score (score.rs) and the error-output protection gate (protect.rs).

  A compressor's \<open>detect\<close> and \<open>compress\<close> run under \<open>catch_unwind\<close>: the model gives them an
  optional result, \<open>None\<close> standing for a panic. The locale \<open>compressor_contract\<close> states what a
  compressor promises, \<open>compressor_list\<close> what the router gives when all of its compressors keep
  the promise; each compressor theory interprets the first, the transform theory the second.
\<close>

datatype content_kind = KText | KJson | KToon

record budget =
  cfg :: compress_config
  cmd :: "command_hint option"

datatype compress_outcome =
    Compressed rstr nat bool content_kind
  | Unchanged

record compressor =
  cname :: rstr
  detect :: "rstr \<Rightarrow> budget \<Rightarrow> bool option"
  compress :: "rstr \<Rightarrow> budget \<Rightarrow> compress_outcome option"

definition preferred :: "budget \<Rightarrow> rstr option" where
  "preferred b =
     Option.bind (cmd b)
       (\<lambda>c. if is_git_diff c then Some (lit ''diff'')
            else if is_grep c then Some (lit ''search'')
            else None)"

text \<open>
  \<open>order.remove(pos)\<close> and \<open>order.insert(0, idx)\<close>: the first compressor of the preferred name
  moves to the front, the others keep their order.
\<close>

fun move_to_front :: "rstr \<Rightarrow> compressor list \<Rightarrow> compressor list" where
  "move_to_front n cs =
     (case List.extract (\<lambda>c. cname c = n) cs of
        Some (ys, c, zs) \<Rightarrow> c # ys @ zs
      | None \<Rightarrow> cs)"

definition candidates :: "compressor list \<Rightarrow> budget \<Rightarrow> compressor list" where
  "candidates cs b = (case preferred b of Some n \<Rightarrow> move_to_front n cs | None \<Rightarrow> cs)"

definition compress_text ::
  "compressor list \<Rightarrow> rstr \<Rightarrow> budget \<Rightarrow> (rstr \<times> bool \<times> content_kind) option" where
  "compress_text cs txt b =
     (case List.find (\<lambda>c. detect c txt b = Some True) (candidates cs b) of
        None \<Rightarrow> None
      | Some c \<Rightarrow>
          (case compress c txt b of
             Some (Compressed new saved_bytes lossy kind) \<Rightarrow>
               if saved_bytes > 0 then Some (new, lossy, kind) else None
           | Some Unchanged \<Rightarrow> None
           | None \<Rightarrow> None))"

lemma set_move_to_front: "set (move_to_front n cs) = set cs"
  by (auto simp: extract_Some_iff split: option.splits)

lemma set_candidates: "set (candidates cs b) = set cs"
  by (simp add: candidates_def set_move_to_front del: move_to_front.simps split: option.splits)

locale compressor_contract =
  fixes c :: compressor
  assumes shrinks:
    "compress c t b = Some (Compressed new saved lossy kind) \<Longrightarrow>
       saved = len t - len new \<and> len new < len t"
    and lossy_iff_text:
    "compress c t b = Some (Compressed new saved lossy kind) \<Longrightarrow> lossy \<longleftrightarrow> kind = KText"
    and never_json:
    "compress c t b = Some (Compressed new saved lossy kind) \<Longrightarrow> kind \<noteq> KJson"
    and no_panic: "detect c t b \<noteq> None" "compress c t b \<noteq> None"
begin

lemma saved_positive:
  "compress c t b = Some (Compressed new saved lossy kind) \<Longrightarrow> 0 < saved"
  using shrinks by fastforce

lemma saved_accounts:
  "compress c t b = Some (Compressed new saved lossy kind) \<Longrightarrow> len new + saved = len t"
  using shrinks by fastforce

end

locale compressor_list =
  fixes cs :: "compressor list"
  assumes all_contract: "c \<in> set cs \<Longrightarrow> compressor_contract c"
begin

lemma compress_text_source:
  assumes "compress_text cs t b = Some (new, lossy, kind)"
  obtains c saved where "c \<in> set cs" "detect c t b = Some True"
    "compress c t b = Some (Compressed new saved lossy kind)"
proof -
  from assms obtain c saved where
    f: "List.find (\<lambda>c. detect c t b = Some True) (candidates cs b) = Some c"
    and k: "compress c t b = Some (Compressed new saved lossy kind)"
    by (auto simp: compress_text_def split: option.splits compress_outcome.splits if_splits)
  from f have "c \<in> set (candidates cs b)" "detect c t b = Some True"
    by (auto dest: find_SomeD)
  then have "c \<in> set cs" "detect c t b = Some True"
    by (simp_all add: set_candidates)
  then show thesis using k that by blast
qed

lemma compress_text_shrinks:
  "compress_text cs t b = Some (new, lossy, kind) \<Longrightarrow> len new < len t"
  by (metis compress_text_source all_contract compressor_contract.shrinks)

lemma compress_text_kinds:
  "compress_text cs t b = Some (new, lossy, kind) \<Longrightarrow>
     lossy \<and> kind = KText \<or> \<not> lossy \<and> kind = KToon"
  by (metis (full_types) compress_text_source all_contract content_kind.exhaust
      compressor_contract.lossy_iff_text compressor_contract.never_json)

lemma compress_text_None:
  assumes "compress_text cs t b = None"
  shows "(\<forall>c \<in> set cs. detect c t b = Some False) \<or> (\<exists>c \<in> set cs. compress c t b = Some Unchanged)"
proof (cases "List.find (\<lambda>c. detect c t b = Some True) (candidates cs b)")
  case None
  then have "\<forall>c \<in> set cs. detect c t b \<noteq> Some True"
    by (simp add: find_None_iff set_candidates)
  moreover have "detect c t b \<noteq> None" if "c \<in> set cs" for c
    using compressor_contract.no_panic(1) [OF all_contract [OF that]] .
  ultimately show ?thesis by (metis (full_types) option.exhaust)
next
  case (Some c)
  then have c: "c \<in> set cs" by (auto dest: find_SomeD simp: set_candidates)
  obtain o' where o': "compress c t b = Some o'"
    using compressor_contract.no_panic(2) [OF all_contract [OF c]] by blast
  with assms Some have "o' = Unchanged \<or> (\<exists>new lossy kind. o' = Compressed new 0 lossy kind)"
    by (auto simp: compress_text_def split: compress_outcome.splits if_splits)
  moreover have "o' \<noteq> Compressed new 0 lossy kind" for new lossy kind
    using compressor_contract.saved_positive [OF all_contract [OF c]] o' by blast
  ultimately show ?thesis using c o' by blast
qed

end

section \<open>Line score and protection gate\<close>

definition error_keywords :: "rstr list" where
  "error_keywords =
     [lit ''error'', lit ''fail'', lit ''panic'', lit ''exception'', lit ''traceback'', lit ''fatal'']"

definition warn_keywords :: "rstr list" where
  "warn_keywords = [lit ''warn'', lit ''warning'']"

text \<open>The scores 0.0, 0.5 and 1.0 are exact in \<open>f32\<close>; the model uses rationals.\<close>

definition line_score :: "unicode \<Rightarrow> rstr \<Rightarrow> rat" where
  "line_score u line =
     (let trimmed = trim line in
      if trimmed = [] \<or> \<not> list_ex (is_alphanumeric u) trimmed then 0
      else let lower = to_lowercase u line in
           if list_ex (contains lower) error_keywords then 1
           else if list_ex (contains lower) warn_keywords then 1 / 2
           else 0)"

lemma line_score_range: "line_score u l \<in> {0, 1 / 2, 1}"
  by (simp add: line_score_def Let_def)

definition strong_error_markers :: "rstr list" where
  "strong_error_markers =
     [lit ''traceback (most recent call last)'', lit ''panic'', lit ''error:'', lit ''exception'',
      lit ''fatal:'', lit ''segmentation fault'']"

definition should_protect :: "unicode \<Rightarrow> rstr \<Rightarrow> command_hint option \<Rightarrow> compress_config \<Rightarrow> bool" where
  "should_protect u t c cf =
     (let limit = error_max_bytes (protect_sec cf) in
      if limit = 0 then False
      else if limit \<le> len t then False
      else
        let lower = to_lowercase u t;
            has_error = list_ex (contains lower) strong_error_markers;
            test_failed =
              (case c of
                 Some h \<Rightarrow> is_test_runner h
                   \<and> (contains lower (lit ''fail'') \<or> contains lower (lit ''error''))
               | None \<Rightarrow> False)
        in has_error \<or> test_failed)"

lemma should_protect_small: "should_protect u t c cf \<Longrightarrow> len t < error_max_bytes (protect_sec cf)"
  by (auto simp: should_protect_def Let_def split: if_splits)

end
