(* ===== verification/Compress_Preprocess.thy ===== *)
theory Compress_Preprocess
  imports Compress_Router
begin

text \<open>
  The generic preprocessing layer (zmod/llm-compress/src/preprocess.rs): five line passes, each
  behind a switch of the configuration. Deleting progress lines, folding blobs and cutting long
  lines report that content was lost; collapsing blank lines and folding repeated lines are
  called format reconstruction. The last section proves that they are: without a loss report,
  the non-blank lines of the input can be read back from the output.
\<close>

definition marker_prefix :: rstr where
  "marker_prefix = lit ''[llm-compress: ''"

definition is_progress_line :: "rstr \<Rightarrow> bool" where
  "is_progress_line line =
     (let t = trim_start line in
      if starts_with t (lit ''Downloading'') \<or> starts_with t (lit ''Downloaded'')
         \<or> starts_with t (lit ''Fetching'')
      then True
      else if contains line [cr] then True
      else
        let has_pct =
              list_ex (\<lambda>w. ends_with w (lit ''%'') \<and> parse_f64_ok (trim_end_matches w 37))
                (split_whitespace t)
        in has_pct \<and> (contains t (lit ''['') \<or> contains t (lit ''#'') \<or> contains t (lit ''='')))"

definition strip_progress :: "rstr \<Rightarrow> rstr \<times> bool" where
  "strip_progress t =
     (let ls = split_on nl t
      in (join [nl] (filter (\<lambda>l. \<not> is_progress_line l) ls), list_ex is_progress_line ls))"

definition is_base64_char :: "rchar \<Rightarrow> bool" where
  "is_base64_char c \<longleftrightarrow> is_ascii_alphanumeric c \<or> c \<in> {43, 47, 61, 45, 95}"

text \<open>The number of matching chars is compared with the length in bytes.\<close>

definition is_blobish :: "rstr \<Rightarrow> bool" where
  "is_blobish s =
     (if starts_with s (lit ''data:'') then True
      else
        let bdy = (case strip_prefix s (lit ''data:'') of Some r \<Rightarrow> r | None \<Rightarrow> s);
            b64_ratio = length (filter is_base64_char bdy)
        in bdy \<noteq> [] \<and> b64_ratio = len bdy)"

definition blob_marker :: "nat \<Rightarrow> rstr" where
  "blob_marker n = lit ''[llm-compress: base64 '' @ show_nat n @ lit '' bytes]''"

definition is_blob_line :: "nat \<Rightarrow> rstr \<Rightarrow> bool" where
  "is_blob_line min_bytes line \<longleftrightarrow> min_bytes \<le> len (trim line) \<and> is_blobish (trim line)"

definition blob_fold :: "rstr \<Rightarrow> nat \<Rightarrow> rstr \<times> bool" where
  "blob_fold t min_bytes =
     (let ls = split_on nl t
      in (join [nl]
            (map (\<lambda>l. if is_blob_line min_bytes l then blob_marker (len (trim l)) else l) ls),
          list_ex (is_blob_line min_bytes) ls))"

abbreviation blank :: "rstr \<Rightarrow> bool" where
  "blank l \<equiv> trim l = []"

fun collapse_blank_lines :: "bool \<Rightarrow> rstr list \<Rightarrow> rstr list" where
  "collapse_blank_lines prev_blank [] = []"
| "collapse_blank_lines prev_blank (l # ls) =
     (if blank l \<and> prev_blank then collapse_blank_lines prev_blank ls
      else l # collapse_blank_lines (blank l) ls)"

definition collapse_blank :: "rstr \<Rightarrow> rstr" where
  "collapse_blank t = join [nl] (collapse_blank_lines False (split_on nl t))"

definition truncated_marker :: rstr where
  "truncated_marker = lit ''[llm-compress: line truncated]''"

definition truncate_line :: "nat \<Rightarrow> rstr \<Rightarrow> rstr" where
  "truncate_line max_b l =
     (if len l > max_b then take_bytes max_b l @ truncated_marker else l)"

definition truncate_lines :: "rstr \<Rightarrow> nat \<Rightarrow> rstr \<times> bool" where
  "truncate_lines t max_b =
     (let ls = split_on nl t
      in (join [nl] (map (truncate_line max_b) ls), list_ex (\<lambda>l. len l > max_b) ls))"

text \<open>The sign between the words and the count is U+00D7.\<close>

definition dup_marker :: "nat \<Rightarrow> rstr" where
  "dup_marker n = lit ''[llm-compress: previous line '' @ [215] @ show_nat n @ lit '']''"

fun dedup_lines :: "rstr list \<Rightarrow> rstr list" where
  "dedup_lines [] = []"
| "dedup_lines (c # rest) =
     (if starts_with c marker_prefix then c # dedup_lines rest
      else
        let same = (\<lambda>l. l = c \<and> \<not> starts_with l marker_prefix);
            count = Suc (length (takeWhile same rest))
        in c # (if count \<ge> 2 then [dup_marker count] else []) @ dedup_lines (dropWhile same rest))"

definition dedup_consecutive :: "rstr \<Rightarrow> rstr" where
  "dedup_consecutive t = join [nl] (dedup_lines (split_on nl t))"

definition run :: "rstr \<Rightarrow> preprocess_cfg \<Rightarrow> rstr \<times> bool" where
  "run t pc =
     (let (s, lossy) = (t, False);
          (s, lossy) =
            (if cfg_strip_progress pc then let (ns, ch) = strip_progress s in (ns, lossy \<or> ch)
             else (s, lossy));
          (s, lossy) =
            (if blob_min_bytes pc > 0
             then let (ns, ch) = blob_fold s (blob_min_bytes pc) in (ns, lossy \<or> ch)
             else (s, lossy));
          s = (if cfg_collapse_blank pc then collapse_blank s else s);
          (s, lossy) =
            (if truncate_line_bytes pc > 0
             then let (ns, ch) = truncate_lines s (truncate_line_bytes pc) in (ns, lossy \<or> ch)
             else (s, lossy));
          s = (if cfg_dedup_consecutive pc then dedup_consecutive s else s)
      in (s, lossy))"

section \<open>The passes one by one\<close>

lemma filter_id_conv_list_ex: "\<not> list_ex P xs \<Longrightarrow> filter (\<lambda>x. \<not> P x) xs = xs"
  by (induction xs) auto

lemma strip_progress_lossless: "strip_progress t = (s, False) \<Longrightarrow> s = t"
  by (auto simp: strip_progress_def Let_def filter_id_conv_list_ex)

lemma blob_fold_lossless: "blob_fold t n = (s, False) \<Longrightarrow> s = t"
proof -
  assume a: "blob_fold t n = (s, False)"
  then have "\<forall>l \<in> set (split_on nl t). \<not> is_blob_line n l"
    by (auto simp: blob_fold_def Let_def list_ex_iff)
  then have "map (\<lambda>l. if is_blob_line n l then blob_marker (len (trim l)) else l) (split_on nl t)
      = split_on nl t"
    by (simp add: map_idI)
  with a show "s = t" by (auto simp: blob_fold_def Let_def)
qed

lemma truncate_lines_lossless: "truncate_lines t n = (s, False) \<Longrightarrow> s = t"
proof -
  assume a: "truncate_lines t n = (s, False)"
  then have "\<forall>l \<in> set (split_on nl t). \<not> len l > n"
    by (auto simp: truncate_lines_def Let_def list_ex_iff)
  then have "map (truncate_line n) (split_on nl t) = split_on nl t"
    by (simp add: map_idI truncate_line_def)
  with a show "s = t" by (auto simp: truncate_lines_def Let_def)
qed

lemma len_truncated_marker: "len truncated_marker = 30"
  by (simp add: truncated_marker_def lit_def len_utf8_def)

lemma truncate_line_len: "len (truncate_line n l) \<le> n + 30"
  using len_take_bytes [of n l] by (simp add: truncate_line_def len_truncated_marker)

lemma collapse_blank_nonblank:
  "filter (\<lambda>l. \<not> blank l) (collapse_blank_lines b ls) = filter (\<lambda>l. \<not> blank l) ls"
  by (induction b ls rule: collapse_blank_lines.induct) auto

lemma collapse_blank_adjacent:
  "successively (\<lambda>l m. \<not> (blank l \<and> blank m)) (collapse_blank_lines b ls)
   \<and> (b \<longrightarrow> collapse_blank_lines b ls = [] \<or> \<not> blank (hd (collapse_blank_lines b ls)))"
proof (induction ls arbitrary: b)
  case Nil
  show ?case by simp
next
  case (Cons l ls)
  show ?case
  proof (cases "blank l \<and> b")
    case True
    then have "collapse_blank_lines b (l # ls) = collapse_blank_lines b ls" by simp
    with Cons.IH [of b] show ?thesis by metis
  next
    case False
    then have "collapse_blank_lines b (l # ls) = l # collapse_blank_lines (blank l) ls" by auto
    with False Cons.IH [of "blank l"] show ?thesis
      by (simp only: successively_Cons list.sel) blast
  qed
qed

lemma collapse_blank_lines_subset: "set (collapse_blank_lines b ls) \<subseteq> set ls"
  by (induction b ls rule: collapse_blank_lines.induct) auto

lemma collapse_blank_lines_neq_Nil: "ls \<noteq> [] \<Longrightarrow> collapse_blank_lines False ls \<noteq> []"
  by (cases ls) auto

section \<open>Reading the output back\<close>

definition read_nat :: "rstr \<Rightarrow> nat" where
  "read_nat s = foldl (\<lambda>a c. 10 * a + (c - 48)) 0 s"

lemma read_nat_show_nat: "read_nat (show_nat n) = n"
proof (induction n rule: show_nat.induct)
  case (1 n)
  show ?case
  proof (cases "n < 10")
    case True
    then show ?thesis by (simp add: show_nat.simps [of n] read_nat_def)
  next
    case False
    with 1 have "read_nat (show_nat (n div 10)) = n div 10" by simp
    with False show ?thesis by (simp add: show_nat.simps [of n] read_nat_def)
  qed
qed

lemma show_nat_digits: "c \<in> set (show_nat n) \<Longrightarrow> is_ascii_digit c"
proof (induction n rule: show_nat.induct)
  case (1 n)
  show ?case
  proof (cases "n < 10")
    case True
    with "1.prems" show ?thesis by (simp add: show_nat.simps [of n] is_ascii_digit_def)
  next
    case False
    with "1.prems" have "c \<in> set (show_nat (n div 10)) \<or> c = 48 + n mod 10"
      by (auto simp: show_nat.simps [of n])
    moreover have "n mod 10 < 10" by simp
    ultimately show ?thesis using "1.IH" [OF False] by (auto simp: is_ascii_digit_def)
  qed
qed

text \<open>A reader of the folded form: a line, then how often it stands for.\<close>

definition dup_count :: "rstr \<Rightarrow> nat option" where
  "dup_count m =
     (case strip_prefix m (lit ''[llm-compress: previous line '' @ [215]) of
        Some d \<Rightarrow> map_option read_nat (strip_suffix d (lit '']''))
      | None \<Rightarrow> None)"

fun expand_lines :: "rstr list \<Rightarrow> rstr list" where
  "expand_lines [] = []"
| "expand_lines [l] = [l]"
| "expand_lines (l # m # rest) =
     (case dup_count m of
        Some n \<Rightarrow> replicate n l @ expand_lines rest
      | None \<Rightarrow> l # expand_lines (m # rest))"

lemma dup_count_marker [simp]: "dup_count (dup_marker n) = Some n"
proof -
  have "strip_prefix (dup_marker n) (lit ''[llm-compress: previous line '' @ [215])
      = Some (show_nat n @ lit '']'')"
    by (simp add: dup_marker_def strip_prefix_Some_iff)
  moreover have "strip_suffix (show_nat n @ lit '']'') (lit '']'') = Some (show_nat n)"
    by (simp add: strip_suffix_Some_iff)
  ultimately show ?thesis by (simp add: dup_count_def read_nat_show_nat)
qed

lemma dup_prefix_is_marker:
  "lit ''[llm-compress: previous line '' @ [215] @ r = marker_prefix @ lit ''previous line '' @ [215] @ r"
  by (simp add: marker_prefix_def lit_def)

lemma dup_count_unmarked: "\<not> starts_with m marker_prefix \<Longrightarrow> dup_count m = None"
  using dup_prefix_is_marker
  by (auto simp: dup_count_def strip_prefix_Some_iff starts_with_iff split: option.splits)

lemma expand_lines_Cons:
  "ms = [] \<or> dup_count (hd ms) = None \<Longrightarrow> expand_lines (l # ms) = l # expand_lines ms"
  by (cases ms) auto

lemma dedup_lines_hd: "ls \<noteq> [] \<Longrightarrow> dedup_lines ls \<noteq> [] \<and> hd (dedup_lines ls) = hd ls"
  by (cases ls) (auto simp: Let_def)

lemma takeWhile_eq_replicate:
  "(\<And>x. P x \<Longrightarrow> x = c) \<Longrightarrow> takeWhile P xs = replicate (length (takeWhile P xs)) c"
  by (induction xs) auto

lemma dedup_lines_unmarked:
  assumes "\<not> starts_with c marker_prefix"
  shows "dedup_lines (c # rest) =
    (let k = length (takeWhile (\<lambda>l. l = c) rest)
     in c # (if k = 0 then [] else [dup_marker (Suc k)]) @ dedup_lines (dropWhile (\<lambda>l. l = c) rest))"
proof -
  have "(\<lambda>l. l = c \<and> \<not> starts_with l marker_prefix) = (\<lambda>l. l = c)" using assms by auto
  with assms show ?thesis
    by (cases "takeWhile (\<lambda>l. l = c) rest") (auto simp: Let_def)
qed

lemma expand_dedup_lines:
  "\<forall>l \<in> set ls. \<not> starts_with l marker_prefix \<Longrightarrow> expand_lines (dedup_lines ls) = ls"
proof (induction ls rule: length_induct)
  case (1 ls)
  show ?case
  proof (cases ls)
    case Nil
    then show ?thesis by simp
  next
    case (Cons c rest)
    define k where "k = length (takeWhile (\<lambda>l. l = c) rest)"
    define r where "r = dropWhile (\<lambda>l. l = c) rest"
    have "takeWhile (\<lambda>l. l = c) rest = replicate k c"
      unfolding k_def by (rule takeWhile_eq_replicate)
    then have rest: "replicate k c @ r = rest"
      unfolding r_def by (metis takeWhile_dropWhile_id)
    have "length r < length ls" unfolding Cons r_def by (simp add: length_dropWhile_less)
    moreover have r: "\<forall>l \<in> set r. \<not> starts_with l marker_prefix"
      using "1.prems" Cons by (auto simp: r_def dest: set_dropWhileD)
    ultimately have IH: "expand_lines (dedup_lines r) = r" using "1.IH" by blast
    have "dedup_lines r = [] \<or> dup_count (hd (dedup_lines r)) = None"
      using dedup_lines_hd [of r] r dup_count_unmarked [of "hd r"] by (cases r) auto
    then have nofold: "expand_lines (c # dedup_lines r) = c # r"
      by (simp only: expand_lines_Cons IH)
    have step: "dedup_lines ls = c # (if k = 0 then [] else [dup_marker (Suc k)]) @ dedup_lines r"
      using "1.prems" unfolding Cons k_def r_def
      by (subst dedup_lines_unmarked) (simp_all only: Let_def list.set_intros simp_thms)
    have "expand_lines (dedup_lines ls) = replicate (Suc k) c @ r"
      unfolding step by (cases k) (simp_all add: nofold IH)
    also have "\<dots> = ls"
      by (simp only: replicate_Suc append_Cons rest Cons)
    finally show ?thesis .
  qed
qed

lemma nl_notin_lit_marker: "nl \<notin> set (dup_marker n)"
  using show_nat_digits [of nl n] by (auto simp: dup_marker_def lit_def is_ascii_digit_def)

lemma dedup_lines_no_nl:
  "\<forall>l \<in> set ls. nl \<notin> set l \<Longrightarrow> \<forall>l \<in> set (dedup_lines ls). nl \<notin> set l"
  by (induction ls rule: dedup_lines.induct)
     (auto simp: Let_def nl_notin_lit_marker dest!: set_dropWhileD split: if_splits)

lemma split_dedup_consecutive:
  "split_on nl (dedup_consecutive t) = dedup_lines (split_on nl t)"
  using dedup_lines_no_nl [OF split_on_no_sep_all] dedup_lines_hd [OF split_on_neq_Nil]
  by (simp add: dedup_consecutive_def split_on_join)

lemma split_collapse_blank:
  "split_on nl (collapse_blank t) = collapse_blank_lines False (split_on nl t)"
proof -
  have "\<forall>l \<in> set (collapse_blank_lines False (split_on nl t)). nl \<notin> set l"
    using collapse_blank_lines_subset split_on_no_sep_all by fastforce
  then show ?thesis
    by (simp add: collapse_blank_def split_on_join collapse_blank_lines_neq_Nil)
qed

lemma run_lossless_form:
  assumes "run t pc = (s, False)"
  shows "s = (let u = if cfg_collapse_blank pc then collapse_blank t else t
              in if cfg_dedup_consecutive pc then dedup_consecutive u else u)"
  using assms
  by (auto simp: run_def Let_def split: if_splits prod.splits
      dest: strip_progress_lossless blob_fold_lossless truncate_lines_lossless)

definition nonblank_lines :: "rstr \<Rightarrow> rstr list" where
  "nonblank_lines t = filter (\<lambda>l. \<not> blank l) (split_on nl t)"

lemma run_lossless_readback:
  assumes run: "run t pc = (s, False)" and dd: "cfg_dedup_consecutive pc"
    and clean: "\<forall>l \<in> set (split_on nl t). \<not> starts_with l marker_prefix"
  shows "filter (\<lambda>l. \<not> blank l) (expand_lines (split_on nl s)) = nonblank_lines t"
proof (cases "cfg_collapse_blank pc")
  case True
  have "\<forall>l \<in> set (collapse_blank_lines False (split_on nl t)). \<not> starts_with l marker_prefix"
    using clean collapse_blank_lines_subset by blast
  with True run_lossless_form [OF run] dd show ?thesis
    by (simp add: split_dedup_consecutive split_collapse_blank expand_dedup_lines
        collapse_blank_nonblank nonblank_lines_def)
next
  case False
  with run_lossless_form [OF run] dd clean show ?thesis
    by (simp add: split_dedup_consecutive expand_dedup_lines nonblank_lines_def)
qed

section \<open>Property\<close>


definition readback_text :: rstr where
  "readback_text = lit ''a'' @ [nl, nl, nl] @ lit ''b'' @ [nl] @ lit ''b''"

lemmas preprocess_eval = run_def strip_progress_def is_progress_line_def blob_fold_def
  is_blob_line_def is_blobish_def collapse_blank_def truncate_lines_def dedup_consecutive_def
  preprocess_cfg_default_def marker_prefix_def trim_def trim_end_def trim_start_def
  is_whitespace_def starts_with_def ends_with_def contains_def split_whitespace_def lit_def
  len_utf8_def


end
