(* ===== verification/Compress_Diff.thy ===== *)
theory Compress_Diff
  imports Compress_Router
begin

text \<open>
  The unified-diff compressor (zmod/llm-compress/src/compress/diff.rs). Change lines, headers and
  every line that is not a context line survive; a context line survives exactly when a change
  line is at most \<open>context_lines\<close> away; each maximal run of dropped lines becomes one
  placeholder that carries its length.
\<close>

definition consume_range :: "rstr \<Rightarrow> rstr option" where
  "consume_range s =
     (let first_len = length (takeWhile is_ascii_digit s) in
      if first_len = 0 then None
      else
        let s = drop first_len s in
        case strip_prefix s (lit '','') of
          Some after_comma \<Rightarrow>
            let n = length (takeWhile is_ascii_digit after_comma) in
            if n = 0 then None else Some (drop n after_comma)
        | None \<Rightarrow> Some s)"

definition is_hunk_header :: "rstr \<Rightarrow> bool" where
  "is_hunk_header line =
     (case strip_prefix line (lit ''@@ -'') of
        None \<Rightarrow> False
      | Some rest \<Rightarrow>
     (case consume_range rest of
        None \<Rightarrow> False
      | Some rest \<Rightarrow>
     (case strip_prefix rest (lit '' '') of
        None \<Rightarrow> False
      | Some rest \<Rightarrow>
     (case strip_prefix rest (lit ''+'') of
        None \<Rightarrow> False
      | Some rest \<Rightarrow>
     (case consume_range rest of
        None \<Rightarrow> False
      | Some rest \<Rightarrow> starts_with rest (lit '' @@''))))))"

definition is_change_line :: "rstr \<Rightarrow> bool" where
  "is_change_line line =
     (if starts_with line (lit ''+++ '') \<or> starts_with line (lit ''--- '') then False
      else starts_with line (lit ''+'') \<or> starts_with line (lit ''-''))"

definition is_context_line :: "rstr \<Rightarrow> bool" where
  "is_context_line line = starts_with line (lit '' '')"

fun diff_detect_lines :: "bool \<Rightarrow> bool \<Rightarrow> rstr list \<Rightarrow> bool" where
  "diff_detect_lines has_minus has_plus [] = (has_minus \<and> has_plus)"
| "diff_detect_lines has_minus has_plus (line # ls) =
     (if is_hunk_header line then True
      else if starts_with line (lit ''diff --git '') then True
      else diff_detect_lines (has_minus \<or> starts_with line (lit ''--- ''))
             (has_plus \<or> starts_with line (lit ''+++ '')) ls)"

definition diff_detect :: "rstr \<Rightarrow> budget \<Rightarrow> bool" where
  "diff_detect t b = diff_detect_lines False False (lines t)"

definition near_change :: "nat \<Rightarrow> rstr list \<Rightarrow> nat \<Rightarrow> bool" where
  "near_change ctx ls i \<longleftrightarrow>
     list_ex (\<lambda>j. is_change_line (ls ! j)) [i - ctx..<i]
     \<or> list_ex (\<lambda>j. is_change_line (ls ! j)) [i + 1..<min (i + ctx + 1) (length ls)]"

definition diff_keep :: "nat \<Rightarrow> rstr list \<Rightarrow> bool list" where
  "diff_keep ctx ls =
     map (\<lambda>i. if \<not> is_context_line (ls ! i) then True else near_change ctx ls i) [0..<length ls]"

text \<open>The placeholder text, with its Chinese words as code points.\<close>

definition diff_marker :: "nat \<Rightarrow> rstr" where
  "diff_marker folded =
     lit ''[llm-compress: '' @ [30053, 32] @ show_nat folded @ [32, 34892, 19978, 19979, 25991] @ lit '']''"

definition diff_out_lines :: "nat \<Rightarrow> rstr list \<Rightarrow> rstr list" where
  "diff_out_lines ctx ls = collapse_dropped diff_marker (zip (diff_keep ctx ls) ls)"

definition diff_compress :: "rstr \<Rightarrow> budget \<Rightarrow> compress_outcome" where
  "diff_compress t b =
     (let ctx = context_lines (diff_sec (cfg b));
          ls = lines t;
          any_folded = list_ex Not (diff_keep ctx ls)
      in if \<not> any_folded then Unchanged
         else
           let result = join [nl] (diff_out_lines ctx ls) @ (if ends_with t [nl] then [nl] else [])
           in if len t \<le> len result then Unchanged
              else Compressed result (len t - len result) True KText)"

definition diff_compressor :: compressor where
  "diff_compressor =
     \<lparr>cname = lit ''diff'', detect = (\<lambda>t b. Some (diff_detect t b)),
      compress = (\<lambda>t b. Some (diff_compress t b))\<rparr>"

interpretation diff: compressor_contract diff_compressor
  by unfold_locales (auto simp: diff_compressor_def diff_compress_def Let_def split: if_splits)

section \<open>What survives\<close>

lemma length_diff_keep [simp]: "length (diff_keep ctx ls) = length ls"
  by (simp add: diff_keep_def)

lemma near_change_iff:
  assumes "i < length ls" and "\<not> is_change_line (ls ! i)"
  shows "near_change ctx ls i
    \<longleftrightarrow> (\<exists>j < length ls. is_change_line (ls ! j) \<and> j \<le> i + ctx \<and> i \<le> j + ctx)"
proof
  assume "near_change ctx ls i"
  then consider j where "i - ctx \<le> j" "j < i" "is_change_line (ls ! j)"
    | j where "i + 1 \<le> j" "j < i + ctx + 1" "j < length ls" "is_change_line (ls ! j)"
    by (auto simp: near_change_def list_ex_iff)
  then show "\<exists>j < length ls. is_change_line (ls ! j) \<and> j \<le> i + ctx \<and> i \<le> j + ctx"
  proof cases
    case (1 j)
    with assms show ?thesis by (intro exI [of _ j]) auto
  next
    case (2 j)
    with assms show ?thesis by (intro exI [of _ j]) auto
  qed
next
  assume "\<exists>j < length ls. is_change_line (ls ! j) \<and> j \<le> i + ctx \<and> i \<le> j + ctx"
  then obtain j where j: "j < length ls" "is_change_line (ls ! j)" "j \<le> i + ctx" "i \<le> j + ctx"
    by blast
  then have "j \<noteq> i" using assms by auto
  then have "j \<in> set [i - ctx..<i] \<or> j \<in> set [i + 1..<min (i + ctx + 1) (length ls)]"
    using j by auto
  then show "near_change ctx ls i"
    unfolding near_change_def list_ex_iff using j(2) by blast
qed

lemma context_not_change: "is_context_line l \<Longrightarrow> \<not> is_change_line l"
  by (auto simp: is_context_line_def is_change_line_def starts_with_iff lit_def)

lemma diff_keep_iff:
  "i < length ls \<Longrightarrow> diff_keep ctx ls ! i \<longleftrightarrow>
     (is_context_line (ls ! i) \<longrightarrow>
      (\<exists>j < length ls. is_change_line (ls ! j) \<and> j \<le> i + ctx \<and> i \<le> j + ctx))"
  by (simp add: diff_keep_def near_change_iff context_not_change)

lemma diff_out_lines_keep:
  "subseq (filter (\<lambda>l. \<not> is_context_line l) ls) (diff_out_lines ctx ls)"
proof -
  have "subseq (filter (\<lambda>l. \<not> is_context_line l) ls) (map snd (filter fst (zip (diff_keep ctx ls) ls)))"
    by (rule filter_zip_subseq) (auto simp: diff_keep_iff)
  then show ?thesis
    unfolding diff_out_lines_def by (rule subseq_order.trans) (rule collapse_dropped_kept)
qed

lemma diff_out_lines_plan:
  "\<exists>plan. diff_out_lines ctx ls = map (case_sum id diff_marker) plan
     \<and> [x. Inl x \<leftarrow> plan] = [ls ! i. i \<leftarrow> [0..<length ls], diff_keep ctx ls ! i]
     \<and> sum_list (map (case_sum (\<lambda>_. 1) id) plan) = length ls"
proof (intro exI conjI)
  let ?z = "zip (diff_keep ctx ls) ls"
  show "diff_out_lines ctx ls = map (case_sum id diff_marker) (fold_plan ?z)"
    by (simp add: diff_out_lines_def collapse_dropped_plan)
  show "[x. Inl x \<leftarrow> fold_plan ?z] = [ls ! i. i \<leftarrow> [0..<length ls], diff_keep ctx ls ! i]"
    by (simp only: fold_plan_kept kept_zip_nth length_diff_keep)
  show "sum_list (map (case_sum (\<lambda>_. 1) id) (fold_plan ?z)) = length ls"
    using fold_plan_total [of ?z] by simp
qed

lemma diff_compress_Compressed:
  "diff_compress t b = Compressed new saved lossy kind \<longleftrightarrow>
     (let ctx = context_lines (diff_sec (cfg b)); ls = lines t in
      list_ex Not (diff_keep ctx ls)
      \<and> new = join [nl] (diff_out_lines ctx ls) @ (if ends_with t [nl] then [nl] else [])
      \<and> len new < len t \<and> saved = len t - len new \<and> lossy \<and> kind = KText)"
  by (auto simp: diff_compress_def Let_def)

section \<open>Property\<close>

definition diff_survivor :: "nat \<Rightarrow> rstr list \<Rightarrow> nat \<Rightarrow> bool" where
  "diff_survivor ctx ls i \<longleftrightarrow>
     (is_context_line (ls ! i) \<longrightarrow>
      (\<exists>j < length ls. is_change_line (ls ! j) \<and> j \<le> i + ctx \<and> i \<le> j + ctx))"


definition diff_sample :: rstr where
  "diff_sample = lit ''+x'' @ [nl] @ replicate 60 32 @ [nl] @ replicate 60 32"

definition diff_sample_budget :: budget where
  "diff_sample_budget =
     \<lparr>cfg = compress_config_default\<lparr>diff_sec := \<lparr>context_lines = 0\<rparr>\<rparr>, cmd = None\<rparr>"

lemma diff_sample_compressed: "\<exists>new saved. diff_compress diff_sample diff_sample_budget = Compressed new saved True KText"
proof -
  have ls: "lines diff_sample = [lit ''+x'', replicate 60 32, replicate 60 32]"
    by (simp add: diff_sample_def lines_def lit_def strip_cr_def strip_suffix_def ends_with_def
        numeral_eq_Suc)
  have keep: "diff_keep 0 [lit ''+x'', replicate 60 32, replicate 60 32] = [True, False, False]"
    by (simp add: diff_keep_def is_context_line_def near_change_def is_change_line_def
        starts_with_def lit_def)
  have out_ls: "diff_out_lines 0 [lit ''+x'', replicate 60 32, replicate 60 32] = [lit ''+x'', diff_marker 2]"
    by (simp add: diff_out_lines_def keep numeral_2_eq_2)
  have "len diff_sample = 124"
    by (simp add: diff_sample_def len_def lit_def len_utf8_def sum_list_replicate)
  moreover have "len (lit ''+x'') = 2" "len (diff_marker 2) = 34"
    by (simp_all add: diff_marker_def lit_def len_utf8_def show_nat.simps)
  ultimately show ?thesis
    by (simp add: diff_compress_def ls diff_sample_budget_def keep out_ls Let_def)
qed


end
