(* ===== verification/Compress_Log.thy ===== *)
theory Compress_Log
  imports Compress_Router
begin

text \<open>
  The log compressor (zmod/llm-compress/src/compress/log.rs): head and tail lines, earlier
  placeholders, high-scoring lines, lines of a configured level and stack frames are kept, each
  maximal run of other lines becomes one placeholder.
\<close>

definition MIN_LINES :: nat where
  "MIN_LINES = 8"

definition is_clock :: "byte list \<Rightarrow> bool" where
  "is_clock w \<longleftrightarrow>
     length w = 8 \<and> is_ascii_digit (w ! 0) \<and> is_ascii_digit (w ! 1) \<and> w ! 2 = 58
     \<and> is_ascii_digit (w ! 3) \<and> is_ascii_digit (w ! 4) \<and> w ! 5 = 58
     \<and> is_ascii_digit (w ! 6) \<and> is_ascii_digit (w ! 7)"

definition line_has_full_ts :: "rstr \<Rightarrow> bool" where
  "line_has_full_ts line =
     (let bytes = as_bytes line in
      if length bytes < 19 then False
      else list_ex (\<lambda>i.
        let w = take 19 (drop i bytes);
            date_ok = is_ascii_digit (w ! 0) \<and> is_ascii_digit (w ! 1) \<and> is_ascii_digit (w ! 2)
              \<and> is_ascii_digit (w ! 3) \<and> w ! 4 = 45
              \<and> is_ascii_digit (w ! 5) \<and> is_ascii_digit (w ! 6) \<and> w ! 7 = 45
              \<and> is_ascii_digit (w ! 8) \<and> is_ascii_digit (w ! 9);
            sep_ok = w ! 10 = 84 \<or> w ! 10 = 32;
            time_ok = is_clock (drop 11 w)
        in date_ok \<and> sep_ok \<and> time_ok) [0..<Suc (length bytes - 19)])"

definition line_has_clock_ts :: "rstr \<Rightarrow> bool" where
  "line_has_clock_ts line =
     (let bytes = as_bytes line in
      if length bytes < 8 then False
      else list_ex (\<lambda>i. is_clock (take 8 (drop i bytes))) [0..<Suc (length bytes - 8)])"

definition has_timestamp :: "rstr list \<Rightarrow> bool" where
  "has_timestamp ls = list_ex (\<lambda>l. line_has_full_ts l \<or> line_has_clock_ts l) ls"

text \<open>
  The source scans bytes for a colon followed by an ASCII digit; both are single-byte chars
  that never occur inside the encoding of another char, so the model scans the chars.
\<close>

fun colon_then_digit :: "rstr \<Rightarrow> bool" where
  "colon_then_digit (a # b # s) = (a = 58 \<and> is_ascii_digit b \<or> colon_then_digit (b # s))"
| "colon_then_digit _ = False"

definition is_stack_frame :: "rstr \<Rightarrow> bool" where
  "is_stack_frame line =
     (case find_sub line (lit '' at '') of
        Some (_, hit) \<Rightarrow> colon_then_digit (drop 4 hit)
      | None \<Rightarrow> False)"

definition has_stacktrace :: "rstr list \<Rightarrow> bool" where
  "has_stacktrace ls =
     list_ex (\<lambda>l. case find_sub l (lit '' at '') of
                    Some (_, hit) \<Rightarrow> colon_then_digit (drop 4 hit)
                  | None \<Rightarrow> False) ls"

fun has_consecutive_repeat :: "rstr list \<Rightarrow> bool" where
  "has_consecutive_repeat (a # b # ls) = (a = b \<or> has_consecutive_repeat (b # ls))"
| "has_consecutive_repeat _ = False"

definition log_detect :: "rstr \<Rightarrow> budget \<Rightarrow> bool" where
  "log_detect t b =
     (let ls = lines t in
      if length ls < MIN_LINES then False
      else has_timestamp ls \<or> has_stacktrace ls \<or> has_consecutive_repeat ls)"

definition line_has_keep_level :: "unicode \<Rightarrow> rstr \<Rightarrow> rstr list \<Rightarrow> bool" where
  "line_has_keep_level u line levels =
     (let lower = to_lowercase u line in list_ex (contains lower) levels)"

definition must_keep :: "unicode \<Rightarrow> rstr list \<Rightarrow> rstr \<Rightarrow> bool" where
  "must_keep u levels line \<longleftrightarrow>
     starts_with line (lit ''[llm-compress: '') \<or> 1 \<le> line_score u line
     \<or> line_has_keep_level u line levels \<or> is_stack_frame line"

definition log_keep :: "unicode \<Rightarrow> nat \<Rightarrow> nat \<Rightarrow> rstr list \<Rightarrow> rstr list \<Rightarrow> bool list" where
  "log_keep u head tail levels ls =
     (let n = length ls
      in map (\<lambda>i. i < min head n \<or> n - tail \<le> i \<or> must_keep u levels (ls ! i)) [0..<n])"

definition log_marker :: "nat \<Rightarrow> rstr" where
  "log_marker n = lit ''[llm-compress: '' @ [30053, 32] @ show_nat n @ [32, 34892] @ lit '']''"

definition score_keep ::
  "unicode \<Rightarrow> rstr list \<Rightarrow> nat \<Rightarrow> nat \<Rightarrow> rstr list \<Rightarrow> rstr list \<times> bool" where
  "score_keep u ls head tail levels =
     (if length ls \<le> head + tail then (ls, False)
      else
        let keep = log_keep u head tail levels ls
        in (collapse_dropped log_marker (zip keep ls), list_ex Not keep))"

definition log_compress :: "unicode \<Rightarrow> rstr \<Rightarrow> budget \<Rightarrow> compress_outcome" where
  "log_compress u t b =
     (let ls = lines t;
          head = head_lines (truncate_sec (cfg b));
          tail = tail_lines (truncate_sec (cfg b));
          (after_score, dropped) = score_keep u ls head tail (keep_levels (log_sec (cfg b)))
      in if \<not> dropped then Unchanged
         else
           let new_text = join [nl] after_score; saved = len t - len new_text
           in if saved = 0 then Unchanged else Compressed new_text saved True KText)"

definition log_compressor :: "unicode \<Rightarrow> compressor" where
  "log_compressor u =
     \<lparr>cname = lit ''log'', detect = (\<lambda>t b. Some (log_detect t b)),
      compress = (\<lambda>t b. Some (log_compress u t b))\<rparr>"

interpretation logc: compressor_contract "log_compressor u" for u
  by unfold_locales
     (auto simp: log_compressor_def log_compress_def Let_def split: if_splits prod.splits)

section \<open>What survives\<close>

lemma length_log_keep [simp]: "length (log_keep u head tail levels ls) = length ls"
  by (simp add: log_keep_def Let_def)

lemma nth_log_keep:
  "i < length ls \<Longrightarrow> log_keep u head tail levels ls ! i \<longleftrightarrow>
     i < head \<or> length ls \<le> i + tail \<or> must_keep u levels (ls ! i)"
  by (auto simp: log_keep_def Let_def)

text \<open>The output is the kept lines, in order, with one counted placeholder per dropped run.\<close>

lemma score_keep_plan:
  assumes "score_keep u ls head tail levels = (out_ls, dropped)" and "head + tail < length ls"
  shows "\<exists>plan. out_ls = map (case_sum id log_marker) plan
     \<and> [x. Inl x \<leftarrow> plan]
         = [ls ! i. i \<leftarrow> [0..<length ls],
              i < head \<or> length ls \<le> i + tail \<or> must_keep u levels (ls ! i)]
     \<and> sum_list (map (case_sum (\<lambda>_. 1) id) plan) = length ls"
proof (intro exI conjI)
  let ?z = "zip (log_keep u head tail levels ls) ls"
  show "out_ls = map (case_sum id log_marker) (fold_plan ?z)"
    using assms by (auto simp: score_keep_def Let_def collapse_dropped_plan)
  have "[ls ! i. i \<leftarrow> [0..<length ls], log_keep u head tail levels ls ! i]
      = [ls ! i. i \<leftarrow> [0..<length ls],
              i < head \<or> length ls \<le> i + tail \<or> must_keep u levels (ls ! i)]"
    by (rule arg_cong [where f = concat], rule map_cong) (auto simp: nth_log_keep)
  then show "[x. Inl x \<leftarrow> fold_plan ?z] = [ls ! i. i \<leftarrow> [0..<length ls],
              i < head \<or> length ls \<le> i + tail \<or> must_keep u levels (ls ! i)]"
    by (simp only: fold_plan_kept kept_zip_nth length_log_keep)
  show "sum_list (map (case_sum (\<lambda>_. 1) id) (fold_plan ?z)) = length ls"
    using fold_plan_total [of ?z] by simp
qed

lemma log_compress_Compressed:
  "log_compress u t b = Compressed new saved lossy kind \<Longrightarrow>
     \<exists>out_ls. score_keep u (lines t) (head_lines (truncate_sec (cfg b)))
           (tail_lines (truncate_sec (cfg b))) (keep_levels (log_sec (cfg b))) = (out_ls, True)
        \<and> new = join [nl] out_ls \<and> len new < len t \<and> lossy \<and> kind = KText
        \<and> head_lines (truncate_sec (cfg b)) + tail_lines (truncate_sec (cfg b)) < length (lines t)"
  by (auto simp: log_compress_def Let_def score_keep_def split: if_splits prod.splits)

lemma must_keep_kept:
  assumes "score_keep u ls head tail levels = (out_ls, dropped)"
  shows "subseq (filter (must_keep u levels) ls) out_ls"
proof (cases "length ls \<le> head + tail")
  case True
  with assms show ?thesis by (simp add: score_keep_def)
next
  case False
  have "subseq (filter (must_keep u levels) ls)
          (map snd (filter fst (zip (log_keep u head tail levels ls) ls)))"
    by (rule filter_zip_subseq) (simp_all add: nth_log_keep)
  also have "subseq \<dots> out_ls"
    using assms False by (auto simp: score_keep_def Let_def intro: collapse_dropped_kept)
  finally show ?thesis .
qed

section \<open>Property\<close>

text \<open>
  A compressed log is the surviving lines in order, with one counted placeholder per dropped
  run: the first and the last lines, and every line that is an earlier placeholder, scores as an
  error, names a configured level or is a stack frame. The text got shorter.
\<close>

theorem log_survivors:
  assumes "log_compress u t b = Compressed new saved lossy kind"
  shows "\<exists>plan. new = join [nl] (map (case_sum id log_marker) plan)
     \<and> [x. Inl x \<leftarrow> plan] = [lines t ! i. i \<leftarrow> [0..<length (lines t)],
          i < head_lines (truncate_sec (cfg b))
          \<or> length (lines t) \<le> i + tail_lines (truncate_sec (cfg b))
          \<or> must_keep u (keep_levels (log_sec (cfg b))) (lines t ! i)]
     \<and> sum_list (map (case_sum (\<lambda>_. 1) id) plan) = length (lines t)
     \<and> len new < len t"
proof -
  from log_compress_Compressed [OF assms] obtain out_ls where
    out: "score_keep u (lines t) (head_lines (truncate_sec (cfg b)))
           (tail_lines (truncate_sec (cfg b))) (keep_levels (log_sec (cfg b))) = (out_ls, True)"
    "head_lines (truncate_sec (cfg b)) + tail_lines (truncate_sec (cfg b)) < length (lines t)"
    "new = join [nl] out_ls" "len new < len t"
    by blast
  with score_keep_plan [OF out(1,2)] show ?thesis by (elim exE conjE) (intro exI conjI, simp_all)
qed

definition log_sample :: rstr where
  "log_sample = lit ''start'' @ [nl] @ replicate 60 46 @ [nl] @ lit ''error: x'' @ [nl] @ lit ''end''"

definition log_sample_budget :: budget where
  "log_sample_budget =
     \<lparr>cfg = compress_config_default\<lparr>truncate_sec := \<lparr>head_lines = 1, tail_lines = 1, max_bytes = 100\<rparr>\<rparr>,
      cmd = None\<rparr>"

lemma contains_subset: "contains s p \<Longrightarrow> set p \<subseteq> set s"
  by (auto simp: contains_iff)

lemma set_trim: "set (trim s) \<subseteq> set s"
  by (auto simp: trim_def trim_end_def trim_start_def dest!: set_dropWhileD)

lemma dots_not_kept:
  "\<not> must_keep unicode_ascii [lit ''error'', lit ''warn''] (replicate n 46)"
proof -
  have no: "\<not> contains (replicate n 46) (lit w)" if "\<exists>c \<in> set (lit w). c \<noteq> 46" for w
    using contains_subset [of "replicate n 46" "lit w"] that by fastforce
  have "to_lowercase unicode_ascii (replicate n 46) = replicate n 46"
    by (simp add: unicode_ascii_def to_ascii_lowercase_def)
  moreover have "\<not> list_ex (is_alphanumeric unicode_ascii) (trim (replicate n 46))"
    using set_trim [of "replicate n 46"]
    by (auto simp: list_ex_iff unicode_ascii_def is_ascii_alphanumeric_def is_ascii_digit_def
        split: if_splits)
  moreover have "\<not> contains (replicate n 46) (lit '' at '')" by (rule no) (simp add: lit_def)
  moreover have "\<not> starts_with (replicate n 46) (lit ''[llm-compress: '')"
    using no [of "''[llm-compress: ''"] by (force simp: starts_with_iff contains_iff lit_def)
  moreover have "\<not> contains (replicate n 46) (lit ''error'')" "\<not> contains (replicate n 46) (lit ''warn'')"
    by (rule no, simp add: lit_def)+
  ultimately show ?thesis
    by (simp add: must_keep_def line_score_def line_has_keep_level_def is_stack_frame_def
        contains_def Let_def split: option.splits)
qed

lemma log_sample_compressed:
  "\<exists>new saved. log_compress unicode_ascii log_sample log_sample_budget = Compressed new saved True KText"
proof -
  let ?ls = "[lit ''start'', replicate 60 46, lit ''error: x'', lit ''end'']"
  have ls: "lines log_sample = ?ls"
    by (simp add: log_sample_def lines_def lit_def strip_cr_def strip_suffix_def ends_with_def
        numeral_eq_Suc)
  have err: "must_keep unicode_ascii [lit ''error'', lit ''warn''] (lit ''error: x'')"
    by (simp add: must_keep_def line_has_keep_level_def unicode_ascii_def to_ascii_lowercase_def
        contains_def lit_def starts_with_def)
  have "[0..<4] = [0, 1, 2, 3::nat]" by (simp add: upt_rec)
  then have "log_keep unicode_ascii 1 1 [lit ''error'', lit ''warn''] ?ls = [True, False, True, True]"
    using dots_not_kept [of 60] err by (simp add: log_keep_def)
  then have sk: "score_keep unicode_ascii ?ls 1 1 [lit ''error'', lit ''warn'']
      = ([lit ''start'', log_marker 1, lit ''error: x'', lit ''end''], True)"
    by (simp add: score_keep_def)
  have "len log_sample = 79"
    by (simp add: log_sample_def len_def lit_def len_utf8_def sum_list_replicate)
  moreover have "len (lit ''start'') = 5" "len (log_marker 1) = 25" "len (lit ''error: x'') = 8"
    "len (lit ''end'') = 3"
    by (simp_all add: log_marker_def lit_def len_utf8_def show_nat.simps)
  moreover have "head_lines (truncate_sec (cfg log_sample_budget)) = 1"
    "tail_lines (truncate_sec (cfg log_sample_budget)) = 1"
    "keep_levels (log_sec (cfg log_sample_budget)) = [lit ''error'', lit ''warn'']"
    by (simp_all add: log_sample_budget_def compress_config_default_def log_cfg_default_def)
  ultimately show ?thesis
    by (simp add: log_compress_def ls sk Let_def del: One_nat_def)
qed

theorem log_survivors_witness:
  "\<exists>new saved plan.
     log_compress unicode_ascii log_sample log_sample_budget = Compressed new saved True KText
     \<and> new = join [nl] (map (case_sum id log_marker) plan)
     \<and> sum_list (map (case_sum (\<lambda>_. 1) id) plan) = length (lines log_sample)"
proof -
  obtain new saved where
    "log_compress unicode_ascii log_sample log_sample_budget = Compressed new saved True KText"
    using log_sample_compressed by blast
  with log_survivors [OF this] show ?thesis by blast
qed

end
