(* ===== verification/Compress_Search.thy ===== *)
theory Compress_Search
  imports Compress_Router "HOL-Library.Multiset"
begin

text \<open>
  The search-result compressor (zmod/llm-compress/src/compress/search.rs): grep output is
  grouped by file; within a file the first and the last match and the best-scoring others are
  kept; of too many files the best-scoring ones are kept, in their original order.
\<close>

definition parse_match :: "rstr \<Rightarrow> rstr option" where
  "parse_match line =
     (case split_once line 58 of
        None \<Rightarrow> None
      | Some (path, rest) \<Rightarrow>
          (case split_once rest 58 of
             None \<Rightarrow> None
           | Some (num, _) \<Rightarrow>
               if num = [] \<or> \<not> list_all is_ascii_digit num then None else Some path))"

definition search_detect :: "rstr \<Rightarrow> budget \<Rightarrow> bool" where
  "search_detect t b =
     (if (case cmd b of Some c \<Rightarrow> is_grep c | None \<Rightarrow> False) then 3 \<le> length (lines t)
      else
        let ls = lines t in
        if length ls < 4 then False
        else
          let matched = length (filter (\<lambda>l. parse_match l \<noteq> None) ls)
          in length ls \<le> matched * 2 \<and> 3 \<le> matched)"

text \<open>
  The grouping loop. The state is the order of first appearance, the lines of each file and the
  lines that are no matches.
\<close>

record grouping =
  file_order :: "rstr list"
  groups :: "rstr \<rightharpoonup> rstr list"
  preamble :: "rstr list"

definition grouping_empty :: grouping where
  "grouping_empty = \<lparr>file_order = [], groups = Map.empty, preamble = []\<rparr>"

definition group_line :: "rstr \<Rightarrow> grouping \<Rightarrow> grouping" where
  "group_line line g =
     (case parse_match line of
        Some key \<Rightarrow>
          let g = (if groups g key = None then g\<lparr>file_order := file_order g @ [key]\<rparr> else g);
              old = (case groups g key of Some v \<Rightarrow> v | None \<Rightarrow> [])
          in g\<lparr>groups := (groups g)(key \<mapsto> old @ [line])\<rparr>
      | None \<Rightarrow> g\<lparr>preamble := preamble g @ [line]\<rparr>)"

definition group_lines :: "rstr list \<Rightarrow> grouping" where
  "group_lines ls = fold group_line ls grouping_empty"

definition group_of :: "grouping \<Rightarrow> rstr \<Rightarrow> rstr list" where
  "group_of g key = (case groups g key of Some v \<Rightarrow> v | None \<Rightarrow> [])"

definition file_score :: "unicode \<Rightarrow> rstr list \<Rightarrow> rat" where
  "file_score u ms = foldl max 0 (map (line_score u) ms)"

text \<open>\<open>sort_by\<close> with the comparison reversed is a stable sort by descending score.\<close>

definition by_score_desc :: "('a \<times> rat) list \<Rightarrow> ('a \<times> rat) list" where
  "by_score_desc xs = sort_key (\<lambda>p. - snd p) xs"

definition keep_files :: "unicode \<Rightarrow> grouping \<Rightarrow> nat \<Rightarrow> rstr list" where
  "keep_files u g max_f =
     (let scored_files = map (\<lambda>k. (k, file_score u (group_of g k))) (file_order g)
      in if max_f < length (file_order g) then map fst (take max_f (by_score_desc scored_files))
         else map fst scored_files)"

definition skipped_matches :: "nat \<Rightarrow> rstr" where
  "skipped_matches n = lit ''[llm-compress: skipped '' @ show_nat n @ lit '' matches]''"

definition skipped_files :: "nat \<Rightarrow> rstr" where
  "skipped_files n = lit ''[llm-compress: skipped '' @ show_nat n @ lit '' files]''"

definition keep_idx :: "unicode \<Rightarrow> rstr list \<Rightarrow> nat \<Rightarrow> nat list" where
  "keep_idx u ms max_pf =
     (let n = length ms;
          mids = map (\<lambda>i. (i, line_score u (ms ! i))) [1..<n - 1]
      in [0, n - 1] @ map fst (take (max_pf - 2) (by_score_desc mids)))"

definition select_in_file :: "unicode \<Rightarrow> rstr list \<Rightarrow> nat \<Rightarrow> rstr list" where
  "select_in_file u ms max_pf =
     (if length ms \<le> max_pf then ms
      else
        let keep = keep_idx u ms max_pf
        in collapse_dropped skipped_matches
             (map (\<lambda>i. (i \<in> set keep, ms ! i)) [0..<length ms]))"

definition compress_search :: "unicode \<Rightarrow> rstr \<Rightarrow> budget \<Rightarrow> rstr option" where
  "compress_search u t b =
     (let max_pf = max (max_per_file (search_sec (cfg b))) 2;
          max_f = max (max_files (search_sec (cfg b))) 1;
          g = group_lines (lines t)
      in if file_order g = [] then None
         else
           let keep = keep_files u g max_f;
               kept = filter (\<lambda>k. k \<in> set keep) (file_order g);
               folded_files = length (filter (\<lambda>k. k \<notin> set keep) (file_order g));
               out_ls = preamble g @ concat (map (\<lambda>k. select_in_file u (group_of g k) max_pf) kept)
                 @ (if folded_files > 0 then [skipped_files folded_files] else [])
           in Some (join [nl] out_ls))"

definition search_compress :: "unicode \<Rightarrow> rstr \<Rightarrow> budget \<Rightarrow> compress_outcome" where
  "search_compress u t b =
     (case compress_search u t b of
        Some new \<Rightarrow>
          let saved = len t - len new
          in if saved > 0 then Compressed new saved True KText else Unchanged
      | None \<Rightarrow> Unchanged)"

definition search_compressor :: "unicode \<Rightarrow> compressor" where
  "search_compressor u =
     \<lparr>cname = lit ''search'', detect = (\<lambda>t b. Some (search_detect t b)),
      compress = (\<lambda>t b. Some (search_compress u t b))\<rparr>"

interpretation search: compressor_contract "search_compressor u" for u
  by unfold_locales
     (auto simp: search_compressor_def search_compress_def Let_def split: if_splits option.splits)

section \<open>Grouping\<close>

text \<open>The loop computes the obvious grouping: per file the matching lines, in order.\<close>

lemma group_lines_snoc: "group_lines (ls @ [l]) = group_line l (group_lines ls)"
  by (simp add: group_lines_def)

lemma groups_eq:
  "groups (group_lines ls) k =
     (let ms = filter (\<lambda>l. parse_match l = Some k) ls in if ms = [] then None else Some ms)"
proof (induction ls rule: rev_induct)
  case (snoc l ls)
  then show ?case
    by (auto simp: group_lines_snoc group_line_def Let_def split: option.splits)
qed (simp add: group_lines_def grouping_empty_def)

lemma group_of_eq: "group_of (group_lines ls) k = filter (\<lambda>l. parse_match l = Some k) ls"
  by (simp add: group_of_def groups_eq Let_def)

lemma preamble_eq: "preamble (group_lines ls) = filter (\<lambda>l. parse_match l = None) ls"
proof (induction ls rule: rev_induct)
  case (snoc l ls)
  then show ?case
    by (auto simp: group_lines_snoc group_line_def Let_def split: option.splits)
qed (simp add: group_lines_def grouping_empty_def)

lemma set_file_order: "set (file_order (group_lines ls)) = {k. \<exists>l \<in> set ls. parse_match l = Some k}"
proof (induction ls rule: rev_induct)
  case (snoc l ls)
  have "groups (group_lines ls) k = None \<longleftrightarrow> k \<notin> {k. \<exists>l \<in> set ls. parse_match l = Some k}" for k
    by (auto simp: groups_eq Let_def filter_empty_conv)
  with snoc show ?case
    by (auto simp: group_lines_snoc group_line_def Let_def split: option.splits)
qed (simp add: group_lines_def grouping_empty_def)

lemma distinct_file_order: "distinct (file_order (group_lines ls))"
proof (induction ls rule: rev_induct)
  case (snoc l ls)
  have "groups (group_lines ls) k = None \<Longrightarrow> k \<notin> set (file_order (group_lines ls))" for k
    by (auto simp: groups_eq Let_def filter_empty_conv set_file_order split: if_splits)
  with snoc show ?case
    by (auto simp: group_lines_snoc group_line_def Let_def split: option.splits)
qed (simp add: group_lines_def grouping_empty_def)

section \<open>Selection\<close>

lemma set_by_score_desc [simp]: "set (by_score_desc xs) = set xs"
  by (simp add: by_score_desc_def)

lemma length_by_score_desc [simp]: "length (by_score_desc xs) = length xs"
  by (simp add: by_score_desc_def)

lemma distinct_by_score_desc [simp]: "distinct (by_score_desc xs) = distinct xs"
  by (simp add: by_score_desc_def)

lemma by_score_desc_top:
  assumes "x \<in> set (take n (by_score_desc xs))" and "y \<in> set (drop n (by_score_desc xs))"
  shows "snd y \<le> snd x"
proof -
  have "sorted (map (\<lambda>p. - snd p) (take n (by_score_desc xs) @ drop n (by_score_desc xs)))"
    by (simp add: by_score_desc_def)
  with assms show ?thesis
    by (auto simp: sorted_append simp del: append_take_drop_id)
qed

lemma distinct_map_fst_by_score_desc:
  "distinct (map fst xs) \<Longrightarrow> distinct (map fst (take n (by_score_desc xs)))"
proof -
  assume d: "distinct (map fst xs)"
  have "mset (map fst (by_score_desc xs)) = mset (map fst xs)"
    by (simp add: by_score_desc_def)
  then have "distinct (map fst (by_score_desc xs))"
    using d by (metis mset_eq_imp_distinct_iff)
  then show ?thesis by (simp add: take_map [symmetric])
qed

text \<open>
  Of too many files exactly the allowed number survives, and no dropped file scores higher than
  a kept one.
\<close>

lemma keep_files_count:
  assumes "distinct (file_order g)"
  shows "length (filter (\<lambda>k. k \<in> set (keep_files u g m)) (file_order g)) = min m (length (file_order g))"
proof (cases "m < length (file_order g)")
  case False
  then have "filter (\<lambda>k. k \<in> set (keep_files u g m)) (file_order g) = file_order g"
    by (simp add: keep_files_def Let_def filter_id_conv o_def)
  with False show ?thesis by simp
next
  case True
  let ?sf = "map (\<lambda>k. (k, file_score u (group_of g k))) (file_order g)"
  let ?ks = "map fst (take m (by_score_desc ?sf))"
  have "distinct (map fst ?sf)" using assms by (simp add: o_def)
  then have d: "distinct ?ks" by (rule distinct_map_fst_by_score_desc)
  have sub: "set ?ks \<subseteq> set (file_order g)"
    by (auto dest!: in_set_takeD)
  have "length (filter (\<lambda>k. k \<in> set ?ks) (file_order g)) = card (set ?ks \<inter> set (file_order g))"
    using assms by (simp only: distinct_length_filter Collect_mem_eq)
  also have "\<dots> = length ?ks" using d sub by (simp only: Int_absorb2 distinct_card)
  finally show ?thesis using True by (simp add: keep_files_def Let_def)
qed

lemma keep_files_best:
  assumes "k \<in> set (file_order g)" "k \<notin> set (keep_files u g m)" "k' \<in> set (keep_files u g m)"
  shows "file_score u (group_of g k) \<le> file_score u (group_of g k')"
proof -
  define sf where "sf = map (\<lambda>k. (k, file_score u (group_of g k))) (file_order g)"
  define x where "x = (k, file_score u (group_of g k))"
  have "m < length (file_order g)"
    using assms(1,2) by (auto simp: keep_files_def Let_def o_def split: if_splits)
  then have keep: "keep_files u g m = map fst (take m (by_score_desc sf))"
    by (simp add: keep_files_def Let_def sf_def)
  from assms(3) obtain y where y: "y \<in> set (take m (by_score_desc sf))" "fst y = k'"
    unfolding keep by auto
  have "x \<in> set (by_score_desc sf)" using assms(1) by (simp add: x_def sf_def)
  then have "x \<in> set (take m (by_score_desc sf)) \<or> x \<in> set (drop m (by_score_desc sf))"
    by (metis Un_iff append_take_drop_id set_append)
  moreover have "x \<notin> set (take m (by_score_desc sf))"
    using assms(2) unfolding keep set_map by (auto simp: x_def image_iff)
  ultimately have "snd x \<le> snd y" using by_score_desc_top [OF y(1)] by blast
  moreover have "y \<in> set sf" using y(1) by (metis in_set_takeD set_by_score_desc)
  then have "snd y = file_score u (group_of g k')" using y(2) by (auto simp: sf_def)
  ultimately show ?thesis by (simp add: x_def)
qed

text \<open>Within a file: the first and the last match survive, and at most the allowed number.\<close>

lemma keep_idx_facts:
  assumes "2 \<le> m" "m < length ms"
  shows "0 \<in> set (keep_idx u ms m)" "length ms - 1 \<in> set (keep_idx u ms m)"
    "set (keep_idx u ms m) \<subseteq> {..<length ms}" "card (set (keep_idx u ms m)) = m"
proof -
  let ?mids = "map (\<lambda>i. (i, line_score u (ms ! i))) [1..<length ms - 1]"
  let ?t = "map fst (take (m - 2) (by_score_desc ?mids))"
  have d: "distinct ?t" by (rule distinct_map_fst_by_score_desc) (simp add: o_def)
  have sub: "set ?t \<subseteq> {1..<length ms - 1}" by (auto dest!: in_set_takeD)
  have k: "keep_idx u ms m = [0, length ms - 1] @ ?t" by (simp add: keep_idx_def Let_def)
  show "0 \<in> set (keep_idx u ms m)" "length ms - 1 \<in> set (keep_idx u ms m)" by (simp_all add: k)
  have "set ?t \<subseteq> {..<length ms}" using sub by (rule subset_trans) auto
  then show "set (keep_idx u ms m) \<subseteq> {..<length ms}"
    using assms unfolding k set_append by (intro Un_least) auto
  have "0 \<notin> set ?t" "length ms - 1 \<notin> set ?t"
    using sub by (meson atLeastLessThan_iff less_irrefl not_one_le_zero subsetD)+
  then have "distinct (keep_idx u ms m)" using d assms unfolding k by simp
  then have "card (set (keep_idx u ms m)) = length (keep_idx u ms m)" by (rule distinct_card)
  also have "\<dots> = m" using assms by (simp add: k)
  finally show "card (set (keep_idx u ms m)) = m" .
qed

lemma select_in_file_plan:
  assumes "2 \<le> m"
  shows "\<exists>plan. select_in_file u ms m = map (case_sum id skipped_matches) plan
     \<and> subseq [x. Inl x \<leftarrow> plan] ms
     \<and> length [x. Inl x \<leftarrow> plan] = min m (length ms)
     \<and> sum_list (map (case_sum (\<lambda>_. 1) id) plan) = length ms"
proof (cases "length ms \<le> m")
  case True
  have "[x. Inl x \<leftarrow> map Inl ms] = ms" by (induction ms) auto
  moreover have "sum_list (map (case_sum (\<lambda>_. 1) id) (map Inl ms)) = length ms"
    by (simp add: o_def sum_list_triv)
  ultimately show ?thesis
    using True by (intro exI [of _ "map Inl ms"]) (simp add: select_in_file_def o_def min_def)
next
  case False
  let ?z = "map (\<lambda>i. (i \<in> set (keep_idx u ms m), ms ! i)) [0..<length ms]"
  let ?K = "filter (\<lambda>i. i \<in> set (keep_idx u ms m)) [0..<length ms]"
  have z: "map snd (filter fst ?z) = map ((!) ms) ?K"
    by (simp add: filter_map o_def)
  have "subseq (map ((!) ms) ?K) (map ((!) ms) [0..<length ms])"
    by (intro subseq_map) simp
  moreover have "length ?K = m"
  proof -
    have "length ?K = card (set (keep_idx u ms m) \<inter> set [0..<length ms])"
      by (simp add: distinct_length_filter)
    also have "set (keep_idx u ms m) \<inter> set [0..<length ms] = set (keep_idx u ms m)"
      using keep_idx_facts(3) [of m ms u] assms False by auto
    finally show ?thesis using keep_idx_facts(4) [of m ms u] assms False by simp
  qed
  ultimately show ?thesis
    using False fold_plan_total [of ?z]
    by (intro exI [of _ "fold_plan ?z"])
       (simp add: select_in_file_def Let_def collapse_dropped_plan fold_plan_kept z map_nth)
qed

lemma collapse_dropped_snoc:
  "collapse_dropped mk (xs @ [(True, x)]) = collapse_dropped mk xs @ [x]"
proof (induction mk xs rule: collapse_dropped.induct)
  case (2 mk k y xs)
  show ?case
  proof (cases "\<forall>p \<in> set xs. \<not> fst p")
    case True
    then have *: "takeWhile (\<lambda>p. \<not> fst p) xs = xs" "dropWhile (\<lambda>p. \<not> fst p) xs = []"
      by (simp_all add: takeWhile_eq_all_conv)
    from True 2 show ?thesis by (cases k) (simp_all add: takeWhile_append dropWhile_append *)
  next
    case False
    with 2 show ?thesis by (cases k) (auto simp: takeWhile_append dropWhile_append)
  qed
qed simp

lemma select_in_file_hd_last:
  assumes "2 \<le> m" "ms \<noteq> []"
  shows "hd (select_in_file u ms m) = hd ms \<and> last (select_in_file u ms m) = last ms"
proof (cases "length ms \<le> m")
  case True
  then show ?thesis by (simp add: select_in_file_def)
next
  case False
  let ?f = "\<lambda>i. (i \<in> set (keep_idx u ms m), ms ! i)"
  have f: "?f 0 = (True, hd ms)" "?f (length ms - 1) = (True, last ms)"
    using keep_idx_facts(1,2) [of m ms u] assms False by (auto simp: hd_conv_nth last_conv_nth)
  define n where "n = length ms - 2"
  have n: "length ms = Suc (Suc n)" using assms False by (simp add: n_def)
  have "[0..<Suc (Suc n)] = [0..<Suc n] @ [Suc n]" by simp
  also have "[0..<Suc n] = 0 # [1..<Suc n]" by (simp add: upt_conv_Cons del: upt_Suc)
  finally have "map ?f [0..<length ms] = ?f 0 # map ?f [1..<Suc n] @ [?f (length ms - 1)]"
    unfolding n by (simp del: upt_Suc)
  then have "select_in_file u ms m
      = hd ms # collapse_dropped skipped_matches (map ?f [1..<Suc n]) @ [last ms]"
    using False by (simp only: f select_in_file_def Let_def if_False collapse_dropped_snoc
        collapse_dropped.simps if_True append_Cons)
  then show ?thesis by simp
qed

section \<open>Properties\<close>

definition search_lines :: "rstr \<Rightarrow> rstr list \<Rightarrow> rstr list" where
  "search_lines k ls = filter (\<lambda>l. parse_match l = Some k) ls"

lemma filter_complement_length:
  "length (filter P xs) + length (filter (\<lambda>x. \<not> P x) xs) = length xs"
  by (induction xs) auto

text \<open>
  Search output keeps every line that is no match, then the matches of the kept files in
  order of first appearance, then one line that counts the skipped files. At most
  \<open>max_files\<close> files are kept, and no skipped file scores higher than a kept one.
\<close>

theorem search_keeps_best_files:
  assumes "compress_search u t b = Some new"
  shows "\<exists>kept. let ls = lines t; order = file_order (group_lines ls);
      max_f = max (max_files (search_sec (cfg b))) 1;
      skipped = length order - length kept
    in subseq kept order \<and> length kept = min max_f (length order)
       \<and> (\<forall>k \<in> set order - set kept. \<forall>k' \<in> set kept.
            file_score u (search_lines k ls) \<le> file_score u (search_lines k' ls))
       \<and> new = join [nl] (filter (\<lambda>l. parse_match l = None) ls
           @ concat (map (\<lambda>k. select_in_file u (search_lines k ls)
                 (max (max_per_file (search_sec (cfg b))) 2)) kept)
           @ (if skipped > 0 then [skipped_files skipped] else []))"
proof -
  define g where "g = group_lines (lines t)"
  define m where "m = max (max_files (search_sec (cfg b))) 1"
  define kept where "kept = filter (\<lambda>k. k \<in> set (keep_files u g m)) (file_order g)"
  have gl: "group_of g k = search_lines k (lines t)" for k
    by (simp add: g_def group_of_eq search_lines_def)
  have dropped: "length (filter (\<lambda>k. k \<notin> set (keep_files u g m)) (file_order g))
      = length (file_order g) - length kept"
    using filter_complement_length [of "\<lambda>k. k \<in> set (keep_files u g m)" "file_order g"]
    unfolding kept_def by linarith
  have "subseq kept (file_order g)" by (simp add: kept_def)
  moreover have "length kept = min m (length (file_order g))"
    unfolding kept_def using keep_files_count [of g u m] distinct_file_order [of "lines t"]
    by (simp add: g_def)
  moreover have "file_score u (search_lines k (lines t)) \<le> file_score u (search_lines k' (lines t))"
    if "k \<in> set (file_order g) - set kept" "k' \<in> set kept" for k k'
    using keep_files_best [of k g u m k'] that by (simp add: kept_def gl)
  moreover have "new = join [nl] (preamble g
      @ concat (map (\<lambda>k. select_in_file u (group_of g k) (max (max_per_file (search_sec (cfg b))) 2)) kept)
      @ (if length (file_order g) - length kept > 0
         then [skipped_files (length (file_order g) - length kept)] else []))"
    using assms
    unfolding compress_search_def Let_def g_def [symmetric] m_def [symmetric] dropped kept_def [symmetric]
    by (auto split: if_splits)
  ultimately show ?thesis
    unfolding Let_def g_def [symmetric] m_def [symmetric]
    by (intro exI [of _ kept]) (simp add: gl preamble_eq [symmetric] g_def [symmetric])
qed

lemma compress_search_total:
  "file_order (group_lines (lines t)) \<noteq> [] \<Longrightarrow> \<exists>new. compress_search u t b = Some new"
  by (simp add: compress_search_def Let_def)

definition search_sample :: rstr where
  "search_sample = lit ''a:1:x'' @ [nl] @ lit ''b:2:y''"

definition search_sample_budget :: budget where
  "search_sample_budget =
     \<lparr>cfg = compress_config_default\<lparr>search_sec := \<lparr>max_per_file = 5, max_files = 1\<rparr>\<rparr>, cmd = None\<rparr>"

theorem search_keeps_best_files_witness:
  "\<exists>new kept. compress_search unicode_ascii search_sample search_sample_budget = Some new
     \<and> subseq kept [lit ''a'', lit ''b''] \<and> length kept = 1"
proof -
  have ls: "lines search_sample = [lit ''a:1:x'', lit ''b:2:y'']"
    by (simp add: search_sample_def lines_def lit_def strip_cr_def strip_suffix_def ends_with_def)
  have pm: "parse_match (lit ''a:1:x'') = Some (lit ''a'')" "parse_match (lit ''b:2:y'') = Some (lit ''b'')"
    by (simp_all add: parse_match_def split_once_def lit_def is_ascii_digit_def)
  have order: "file_order (group_lines (lines search_sample)) = [lit ''a'', lit ''b'']"
    by (simp add: ls group_lines_def grouping_empty_def group_line_def pm)
  then obtain new where new: "compress_search unicode_ascii search_sample search_sample_budget = Some new"
    using compress_search_total [of search_sample] by auto
  from search_keeps_best_files [OF new] show ?thesis
    unfolding Let_def order search_sample_budget_def using new
    by (auto simp: search_sample_budget_def)
qed

text \<open>
  Within a file the selection starts with the first match and ends with the last one, keeps
  exactly as many matches as allowed (or all of them), in order, and its placeholders account
  for every match left out.
\<close>

theorem select_in_file_sound:
  assumes "2 \<le> m" and "ms \<noteq> []"
  shows "hd (select_in_file u ms m) = hd ms \<and> last (select_in_file u ms m) = last ms
    \<and> (\<exists>plan. select_in_file u ms m = map (case_sum id skipped_matches) plan
         \<and> subseq [x. Inl x \<leftarrow> plan] ms
         \<and> length [x. Inl x \<leftarrow> plan] = min m (length ms)
         \<and> sum_list (map (case_sum (\<lambda>_. 1) id) plan) = length ms)"
  using select_in_file_hd_last [OF assms] select_in_file_plan [OF assms(1)] by blast

theorem select_in_file_sound_witness:
  "hd (select_in_file unicode_ascii [lit ''a:1:x'', lit ''a:2:y'', lit ''a:3:z''] 2) = lit ''a:1:x''
   \<and> last (select_in_file unicode_ascii [lit ''a:1:x'', lit ''a:2:y'', lit ''a:3:z''] 2) = lit ''a:3:z''"
  using select_in_file_sound [of 2 "[lit ''a:1:x'', lit ''a:2:y'', lit ''a:3:z'']" unicode_ascii]
  by simp

end
