(* ===== verification/Compress_Table.thy ===== *)
theory Compress_Table
  imports Compress_Router
begin

text \<open>
  The two structured compressors: JSON (compress/json.rs) and CSV, TSV and Markdown tables
  (compress/tabular.rs) rewritten as TOON by the checked encoder (compress/toon.rs). The encoder
  and decoder of \<open>toon_format\<close> and the JSON parser are fields of \<open>external\<close>; nothing is assumed
  about them, because the source decodes every product before it uses it.
\<close>

definition encode_checked :: "external \<Rightarrow> json \<Rightarrow> rstr option" where
  "encode_checked e v =
     (case toon_encode e v of
        None \<Rightarrow> None
      | Some toon \<Rightarrow>
          (case toon_decode e toon of
             None \<Rightarrow> None
           | Some back \<Rightarrow> if back = v then Some toon else None))"

definition json_try_toon :: "external \<Rightarrow> rstr \<Rightarrow> budget \<Rightarrow> rstr option" where
  "json_try_toon e t b =
     (if \<not> use_toon (json_sec (cfg b)) then None
      else
        case (case parse_json e t of
                Some (JObject m) \<Rightarrow> Some (JObject m)
              | Some (JArray xs) \<Rightarrow> Some (JArray xs)
              | _ \<Rightarrow> None) of
          None \<Rightarrow> None
        | Some v \<Rightarrow>
            (case encode_checked e v of
               None \<Rightarrow> None
             | Some toon \<Rightarrow>
                 if len toon < len t \<and> len toon \<le> max_bytes (truncate_sec (cfg b))
                 then Some toon else None))"

definition json_detect :: "external \<Rightarrow> rstr \<Rightarrow> budget \<Rightarrow> bool" where
  "json_detect e t b = (json_try_toon e t b \<noteq> None)"

definition json_compress :: "external \<Rightarrow> rstr \<Rightarrow> budget \<Rightarrow> compress_outcome" where
  "json_compress e t b =
     (case json_try_toon e t b of
        Some toon \<Rightarrow>
          let saved = len t - len toon
          in if saved = 0 then Unchanged else Compressed toon saved False KToon
      | None \<Rightarrow> Unchanged)"

definition json_compressor :: "external \<Rightarrow> compressor" where
  "json_compressor e =
     \<lparr>cname = lit ''json'', detect = (\<lambda>t b. Some (json_detect e t b)),
      compress = (\<lambda>t b. Some (json_compress e t b))\<rparr>"

interpretation jsonc: compressor_contract "json_compressor e" for e
  by unfold_locales
     (auto simp: json_compressor_def json_compress_def Let_def split: if_splits option.splits)

section \<open>Tables\<close>

definition is_separator_row :: "rstr \<Rightarrow> bool" where
  "is_separator_row line = list_all (\<lambda>c. c = 124 \<or> c = 45 \<or> c = 58 \<or> c = 32) line"

definition split_row :: "bool \<Rightarrow> rstr \<Rightarrow> rstr list" where
  "split_row is_md line =
     (if is_md then
        let t = trim_end_matches (trim_start_matches (trim line) 124) 124
        in map trim (split_on 124 t)
      else if 9 \<in> set line then map trim (split_on 9 line)
      else map trim (split_on 44 line))"

definition check_rows :: "rstr list list \<Rightarrow> rstr list list option" where
  "check_rows rows =
     (if length rows < 2 then None
      else
        let ncol = length (rows ! 0); header = rows ! 0 in
        if ncol = 0 then None
        else if list_ex (\<lambda>h. h = []) header then None
        else if \<not> distinct header then None
        else if list_ex (\<lambda>r. length r \<noteq> ncol) rows then None
        else Some rows)"

definition parse_table :: "rstr \<Rightarrow> rstr list list option" where
  "parse_table t =
     (let raw_lines = filter (\<lambda>l. trim l \<noteq> []) (lines t) in
      if length raw_lines < 2 then None
      else
        let is_md = starts_with (trim_start (raw_lines ! 0)) (lit ''|'') in
        if contains t [34] then None
        else
          check_rows (map (split_row is_md)
            (filter (\<lambda>l. \<not> (is_md \<and> is_separator_row l)) raw_lines)))"

definition row_object :: "rstr list \<Rightarrow> rstr list \<Rightarrow> json" where
  "row_object header row =
     JObject (fold (\<lambda>i m. fmupd (header ! i) (JString (row ! i)) m) [0..<length header] fmempty)"

definition table_value :: "rstr list list \<Rightarrow> json" where
  "table_value table = JArray (map (row_object (table ! 0)) (drop 1 table))"

definition tabular_try_toon :: "external \<Rightarrow> rstr \<Rightarrow> budget \<Rightarrow> rstr option" where
  "tabular_try_toon e t b =
     (if \<not> use_toon (json_sec (cfg b)) then None
      else
        case parse_table t of
          None \<Rightarrow> None
        | Some table \<Rightarrow>
            (case encode_checked e (table_value table) of
               None \<Rightarrow> None
             | Some toon \<Rightarrow>
                 if len toon < len t \<and> len toon \<le> max_bytes (truncate_sec (cfg b))
                 then Some toon else None))"

definition tabular_detect :: "external \<Rightarrow> rstr \<Rightarrow> budget \<Rightarrow> bool" where
  "tabular_detect e t b = (tabular_try_toon e t b \<noteq> None)"

definition tabular_compress :: "external \<Rightarrow> rstr \<Rightarrow> budget \<Rightarrow> compress_outcome" where
  "tabular_compress e t b =
     (case tabular_try_toon e t b of
        Some toon \<Rightarrow>
          let saved = len t - len toon
          in if saved = 0 then Unchanged else Compressed toon saved False KToon
      | None \<Rightarrow> Unchanged)"

definition tabular_compressor :: "external \<Rightarrow> compressor" where
  "tabular_compressor e =
     \<lparr>cname = lit ''tabular'', detect = (\<lambda>t b. Some (tabular_detect e t b)),
      compress = (\<lambda>t b. Some (tabular_compress e t b))\<rparr>"

interpretation tabular: compressor_contract "tabular_compressor e" for e
  by unfold_locales
     (auto simp: tabular_compressor_def tabular_compress_def Let_def split: if_splits option.splits)

section \<open>Products can be decoded\<close>

lemma encode_checked_decodes: "encode_checked e v = Some toon \<Longrightarrow> toon_decode e toon = Some v"
  by (auto simp: encode_checked_def split: option.splits if_splits)

lemma json_compress_decodes:
  assumes "json_compress e t b = Compressed new saved lossy kind"
  shows "\<exists>v. parse_json e t = Some v \<and> toon_decode e new = Some v
       \<and> len new \<le> max_bytes (truncate_sec (cfg b))"
  using assms encode_checked_decodes
  by (fastforce simp: json_compress_def json_try_toon_def Let_def
      split: if_splits option.splits json.splits)

lemma parse_table_shape:
  assumes "parse_table t = Some rows"
  shows "2 \<le> length rows" "rows ! 0 \<noteq> []" "distinct (rows ! 0)" "[] \<notin> set (rows ! 0)"
    "\<forall>r \<in> set rows. length r = length (rows ! 0)"
proof -
  obtain rs where "check_rows rs = Some rows"
    using assms by (auto simp: parse_table_def Let_def split: if_splits)
  then have *: "\<not> length rows < 2 \<and> length (rows ! 0) \<noteq> 0 \<and> \<not> list_ex (\<lambda>h. h = []) (rows ! 0)
      \<and> distinct (rows ! 0) \<and> \<not> list_ex (\<lambda>r. length r \<noteq> length (rows ! 0)) rows"
    unfolding check_rows_def Let_def by (simp split: if_splits)
  show "2 \<le> length rows" "rows ! 0 \<noteq> []" "distinct (rows ! 0)" "[] \<notin> set (rows ! 0)"
    "\<forall>r \<in> set rows. length r = length (rows ! 0)"
    using * by (simp_all add: list_ex_iff)
qed

lemma fold_fmupd_lookup:
  "distinct header \<Longrightarrow> n \<le> length header \<Longrightarrow> k < length header \<Longrightarrow>
     fmlookup (fold (\<lambda>i m. fmupd (header ! i) (f i) m) [0..<n] fmempty) (header ! k)
       = (if k < n then Some (f k) else None)"
proof (induction n)
  case (Suc n)
  then show ?case by (auto simp: nth_eq_iff_index_eq)
qed simp

lemma row_object_cell:
  "distinct header \<Longrightarrow> k < length header \<Longrightarrow> jget (row_object header row) (header ! k) = Some (JString (row ! k))"
  by (simp add: row_object_def fold_fmupd_lookup)

text \<open>Every cell of the parsed table can be read back from the decoded product.\<close>

lemma tabular_compress_decodes:
  assumes "tabular_compress e t b = Compressed new saved lossy kind"
  obtains table where "parse_table t = Some table" "toon_decode e new = Some (table_value table)"
    "len new \<le> max_bytes (truncate_sec (cfg b))"
  using assms encode_checked_decodes
  by (fastforce simp: tabular_compress_def tabular_try_toon_def Let_def
      split: if_splits option.splits)

lemma table_value_cell:
  assumes "parse_table t = Some table" and "0 < r" "r < length table" and "k < length (table ! 0)"
  shows "\<exists>rows. table_value table = JArray rows \<and> length rows = length table - 1
    \<and> jget (rows ! (r - 1)) (table ! 0 ! k) = Some (JString (table ! r ! k))"
proof -
  have "map (row_object (table ! 0)) (drop 1 table) ! (r - 1) = row_object (table ! 0) (table ! r)"
    using assms(2,3) by simp
  with parse_table_shape(3) [OF assms(1)] assms(4) show ?thesis
    by (simp add: table_value_def row_object_cell)
qed

text \<open>
  A Markdown row whose cells hold nothing but dashes is taken for the separator row wherever it
  stands: the table below has two data rows, the parsed one only has the second.
\<close>

lemma dash_row_dropped:
  "parse_table (lit ''|a|b|'' @ [nl] @ lit ''|---|---|'' @ [nl] @ lit ''|-|-|'' @ [nl] @ lit ''|1|2|'')
     = Some [[lit ''a'', lit ''b''], [lit ''1'', lit ''2'']]"
  by (simp add: parse_table_def check_rows_def lines_def lit_def strip_cr_def strip_suffix_def
      ends_with_def trim_def trim_end_def trim_start_def is_whitespace_def starts_with_def
      contains_single is_separator_row_def split_row_def trim_start_matches_def
      trim_end_matches_def)

section \<open>Property\<close>

text \<open>
  The TOON product of a table decodes, and the decoded value holds every cell of the parsed
  table under its column name, row by row; the header has no duplicates. The product is shorter
  than the text and fits the size limit.
\<close>

theorem tabular_cells:
  assumes "tabular_compress e t b = Compressed new saved lossy kind"
  shows "\<exists>table rows. parse_table t = Some table \<and> toon_decode e new = Some (JArray rows)
    \<and> distinct (table ! 0) \<and> length rows = length table - 1
    \<and> (\<forall>r < length rows. \<forall>k < length (table ! 0).
         jget (rows ! r) (table ! 0 ! k) = Some (JString (table ! Suc r ! k)))
    \<and> len new < len t \<and> len new \<le> max_bytes (truncate_sec (cfg b))"
proof -
  obtain table where table: "parse_table t = Some table"
    "toon_decode e new = Some (table_value table)" "len new \<le> max_bytes (truncate_sec (cfg b))"
    using assms by (rule tabular_compress_decodes)
  have "len new < len t"
    using tabular.shrinks [of e t b new saved lossy kind] assms
    by (simp add: tabular_compressor_def)
  moreover have "jget (map (row_object (table ! 0)) (drop 1 table) ! r) (table ! 0 ! k)
      = Some (JString (table ! Suc r ! k))"
    if "r < length table - 1" "k < length (table ! 0)" for r k
    using that parse_table_shape(3) [OF table(1)] by (simp add: row_object_cell)
  ultimately show ?thesis
    using table parse_table_shape(3) [OF table(1)]
    by (intro exI [of _ table] exI [of _ "map (row_object (table ! 0)) (drop 1 table)"])
       (simp add: table_value_def)
qed

definition table_sample :: rstr where
  "table_sample = lit ''a,b'' @ [nl] @ lit ''1,2''"

definition external_toon :: external where
  "external_toon = external_plain
     \<lparr>toon_encode := (\<lambda>_. Some (lit ''T'')),
      toon_decode := (\<lambda>_. Some (table_value [[lit ''a'', lit ''b''], [lit ''1'', lit ''2'']]))\<rparr>"

theorem tabular_cells_witness:
  "\<exists>new saved table rows.
     tabular_compress external_toon table_sample \<lparr>cfg = compress_config_default, cmd = None\<rparr>
       = Compressed new saved False KToon
     \<and> parse_table table_sample = Some table
     \<and> toon_decode external_toon new = Some (JArray rows)
     \<and> length rows = length table - 1"
proof -
  have parsed: "parse_table table_sample = Some [[lit ''a'', lit ''b''], [lit ''1'', lit ''2'']]"
    by (simp add: table_sample_def parse_table_def check_rows_def lines_def lit_def strip_cr_def
        strip_suffix_def ends_with_def trim_def trim_end_def trim_start_def is_whitespace_def
        starts_with_def contains_single is_separator_row_def split_row_def)
  have "len table_sample = 7" by (simp add: table_sample_def lit_def len_utf8_def)
  then have "\<exists>new saved. tabular_compress external_toon table_sample
      \<lparr>cfg = compress_config_default, cmd = None\<rparr> = Compressed new saved False KToon"
    by (simp add: tabular_compress_def tabular_try_toon_def parsed encode_checked_def
        external_toon_def compress_config_default_def json_cfg_default_def truncate_cfg_default_def
        lit_def len_utf8_def)
  then obtain new saved where "tabular_compress external_toon table_sample
      \<lparr>cfg = compress_config_default, cmd = None\<rparr> = Compressed new saved False KToon"
    by blast
  with tabular_cells [OF this] show ?thesis by blast
qed

end
