(* ===== verification/Compress_Truncate.thy ===== *)
theory Compress_Truncate
  imports Compress_Router
begin

text \<open>
  The fallback truncator (zmod/llm-compress/src/compress/truncate.rs): control sequences are
  stripped, head and tail lines kept around one placeholder, and what is still too long is cut
  at a char boundary. \<open>detect\<close> always claims the text, so the router's chain always ends here.
\<close>

definition csi_final :: "byte \<Rightarrow> bool" where
  "csi_final b \<longleftrightarrow> 64 \<le> b \<and> b \<le> 126"

lemma length_csi_rest [termination_simp]:
  "length (dropWhile P xs) - Suc 0 < Suc (Suc (length xs))"
  using length_dropWhile_le [of P xs] by linarith

fun strip_ansi_bytes :: "byte list \<Rightarrow> byte list" where
  "strip_ansi_bytes [] = []"
| "strip_ansi_bytes (b # bs) =
     (if b = 27 then
        (case bs of
           [] \<Rightarrow> []
         | c # cs \<Rightarrow>
             if c = 91 then strip_ansi_bytes (drop 1 (dropWhile (\<lambda>x. \<not> csi_final x) cs))
             else strip_ansi_bytes cs)
      else b # strip_ansi_bytes bs)"

definition strip_ansi :: "rstr \<Rightarrow> rstr" where
  "strip_ansi t =
     (case from_utf8 (strip_ansi_bytes (as_bytes t)) of Some s \<Rightarrow> s | None \<Rightarrow> t)"

definition omitted_marker :: "nat \<Rightarrow> nat \<Rightarrow> rstr" where
  "omitted_marker omitted_lines omitted_bytes =
     lit ''[llm-compress: '' @ [30053, 32] @ show_nat omitted_lines @ [32, 34892, 32] @ lit ''/ ''
     @ show_nat omitted_bytes @ [32, 23383, 33410] @ lit '']''"

definition build_head_tail :: "rstr list \<Rightarrow> nat \<Rightarrow> nat \<Rightarrow> rstr" where
  "build_head_tail ls head tail =
     (let n = length ls in
      if n \<le> head + tail then join [nl] ls
      else
        let head_part = take head ls;
            tail_part = drop (n - tail) ls;
            omitted = drop head (take (n - tail) ls);
            omitted_lines = length omitted;
            omitted_bytes = sum_list (map len omitted)
              + (if omitted_lines > 0 then omitted_lines - 1 else 0)
        in join [nl] (head_part @ [omitted_marker omitted_lines omitted_bytes] @ tail_part))"

definition SUFFIX :: rstr where
  "SUFFIX = [nl] @ lit ''[llm-compress: '' @ [25130, 26029, 33267] @ lit '' max_bytes]''"

definition hard_truncate :: "rstr \<Rightarrow> nat \<Rightarrow> rstr" where
  "hard_truncate t max_b = take_bytes (max_b - len SUFFIX) t @ SUFFIX"

definition truncate_compress :: "rstr \<Rightarrow> budget \<Rightarrow> compress_outcome" where
  "truncate_compress t b =
     (let c = truncate_sec (cfg b);
          original_len = len t;
          cleaned = strip_ansi t;
          ls = split_on nl cleaned;
          line_count = length ls
      in if line_count \<le> head_lines c + tail_lines c \<and> len cleaned \<le> max_bytes c then Unchanged
         else
           let result = build_head_tail ls (head_lines c) (tail_lines c);
               result = (if max_bytes c < len result then hard_truncate result (max_bytes c) else result)
           in if len result < original_len
              then Compressed result (original_len - len result) True KText
              else Unchanged)"

definition truncate_compressor :: compressor where
  "truncate_compressor =
     \<lparr>cname = lit ''truncate'', detect = (\<lambda>_ _. Some True),
      compress = (\<lambda>t b. Some (truncate_compress t b))\<rparr>"

interpretation truncate: compressor_contract truncate_compressor
  by unfold_locales
     (auto simp: truncate_compressor_def truncate_compress_def Let_def split: if_splits)

section \<open>Escape sequences\<close>

lemma length_strip_ansi_bytes: "length (strip_ansi_bytes bs) \<le> length bs"
proof (induction bs rule: measure_induct_rule [of length])
  case (less bs)
  have csi: "length (strip_ansi_bytes (drop 1 (dropWhile P cs))) \<le> length bs"
    if "bs = b # c # cs" for P b c cs
  proof -
    have "length (drop 1 (dropWhile P cs)) \<le> length cs"
      using length_dropWhile_le [of P cs] by simp
    then show ?thesis
      using less.IH [of "drop 1 (dropWhile P cs)"] that by simp
  qed
  show ?case
  proof (cases bs)
    case (Cons b bs')
    then show ?thesis
      using less.IH [of bs'] csi less.IH [of "tl bs'"]
      by (cases bs') (auto split: list.splits)
  qed simp
qed

lemma strip_ansi_bytes_no_esc: "27 \<notin> set (strip_ansi_bytes bs)"
  by (induction bs rule: strip_ansi_bytes.induct) (auto split: list.splits)

lemma strip_ansi_bytes_plain: "27 \<notin> set bs \<Longrightarrow> strip_ansi_bytes bs = bs"
  by (induction bs rule: strip_ansi_bytes.induct) auto

lemma from_utf8_step:
  assumes "from_utf8 (a # bs) = Some s"
  obtains c n s' where "s = c # s'" "from_utf8 (drop n bs) = Some s'" "len_utf8 c = Suc n"
    "n \<le> length bs" "c < 128 \<longrightarrow> c = a"
proof -
  consider "a < 128" | "194 \<le> a" "a < 224" | "224 \<le> a" "a < 240" | "240 \<le> a" "a < 245"
    using assms by (subst (asm) from_utf8.simps(2)) (auto split: if_splits)
  then show thesis
  proof cases
    case 1
    with assms show thesis
      by (intro that [of a "tl s" 0]) (auto simp: from_utf8_1 len_utf8_def)
  next
    case 2
    with assms obtain b bs' v where bs: "bs = b # bs'" "is_cont b"
      and v: "v = (a - 192) * 64 + (b - 128)"
      and m: "map_option ((#) v) (from_utf8 bs') = Some s"
      by (subst (asm) from_utf8.simps(2)) (auto split: list.splits if_splits)
    from bs v 2 have "128 \<le> v" "v < 2048"
      by (auto simp: is_cont_def)
    then have "len_utf8 v = Suc 1" by (simp add: len_utf8_def)
    with m bs \<open>128 \<le> v\<close> show thesis
      by (intro that [of v "tl s" 1]) auto
  next
    case 3
    with assms obtain b c bs' v where bs: "bs = b # c # bs'" "is_cont b" "is_cont c" "2048 \<le> v"
      and v: "v = (a - 224) * 4096 + (b - 128) * 64 + (c - 128)"
      and m: "map_option ((#) v) (from_utf8 bs') = Some s"
      by (subst (asm) from_utf8.simps(2)) (simp add: Let_def split: list.splits if_splits)
    from bs v 3 have "v < 65536" by (auto simp: is_cont_def)
    with bs have "len_utf8 v = Suc 2" by (simp add: len_utf8_def)
    with m bs show thesis
      by (intro that [of v "tl s" 2]) auto
  next
    case 4
    with assms obtain b c d bs' v where bs: "bs = b # c # d # bs'" "65536 \<le> v"
      and m: "map_option ((#) v) (from_utf8 bs') = Some s"
      by (subst (asm) from_utf8.simps(2)) (simp add: Let_def split: list.splits if_splits)
    then have "len_utf8 v = Suc 3" by (simp add: len_utf8_def)
    with m bs show thesis
      by (intro that [of v "tl s" 3]) auto
  qed
qed

lemma from_utf8_len: "from_utf8 bs = Some s \<Longrightarrow> len s = length bs"
proof (induction bs arbitrary: s rule: measure_induct_rule [of length])
  case (less bs)
  show ?case
  proof (cases bs)
    case (Cons a bs')
    with less.prems obtain c n s' where s: "s = c # s'" "from_utf8 (drop n bs') = Some s'"
      "len_utf8 c = Suc n" "n \<le> length bs'"
      by (metis from_utf8_step)
    then have "len s' = length (drop n bs')" by (intro less.IH) (simp_all add: Cons)
    with s Cons show ?thesis by simp
  qed (use less.prems in simp)
qed

lemma from_utf8_ascii:
  "from_utf8 bs = Some s \<Longrightarrow> c \<in> set s \<Longrightarrow> c < 128 \<Longrightarrow> c \<in> set bs"
proof (induction bs arbitrary: s rule: measure_induct_rule [of length])
  case (less bs)
  show ?case
  proof (cases bs)
    case (Cons a bs')
    with less.prems have "from_utf8 (a # bs') = Some s" by simp
    then obtain d n s' where s: "s = d # s'" "from_utf8 (drop n bs') = Some s'" "len_utf8 d = Suc n"
      "n \<le> length bs'" "d < 128 \<longrightarrow> d = a"
      by (rule from_utf8_step)
    have "c \<in> set s' \<Longrightarrow> c \<in> set (drop n bs')"
      by (rule less.IH [OF _ s(2)]) (simp_all add: Cons less.prems)
    then have "c \<in> set s' \<Longrightarrow> c \<in> set bs'" by (blast dest: in_set_dropD)
    with s less.prems Cons show ?thesis by auto
  qed (use less.prems in simp)
qed

lemma len_strip_ansi: "len (strip_ansi t) \<le> len t"
  using length_strip_ansi_bytes [of "as_bytes t"]
  by (auto simp: strip_ansi_def dest: from_utf8_len split: option.splits)

lemma strip_ansi_no_esc: "strip_ansi t = t \<or> 27 \<notin> set (strip_ansi t)"
proof (cases "from_utf8 (strip_ansi_bytes (as_bytes t))")
  case (Some s)
  then show ?thesis
    using from_utf8_ascii [OF Some, of 27] strip_ansi_bytes_no_esc [of "as_bytes t"]
    by (auto simp: strip_ansi_def)
qed (simp add: strip_ansi_def)

section \<open>Bounds\<close>

lemma len_SUFFIX: "len SUFFIX = 36"
  by (simp add: SUFFIX_def lit_def len_utf8_def)

lemma len_hard_truncate: "len (hard_truncate t n) \<le> max n (len SUFFIX)"
  using len_take_bytes [of "n - len SUFFIX" t] unfolding hard_truncate_def len_append by linarith

lemma truncate_compress_Compressed:
  "truncate_compress t b = Compressed new saved lossy kind \<Longrightarrow>
     (let c = truncate_sec (cfg b);
          r = build_head_tail (split_on nl (strip_ansi t)) (head_lines c) (tail_lines c)
      in new = (if max_bytes c < len r then hard_truncate r (max_bytes c) else r)
         \<and> len new < len t)"
  by (auto simp: truncate_compress_def Let_def split: if_splits)

lemma len_truncate_compress:
  "truncate_compress t b = Compressed new saved lossy kind \<Longrightarrow>
     len new \<le> max (max_bytes (truncate_sec (cfg b))) (len SUFFIX)"
  using len_hard_truncate [of "build_head_tail (split_on nl (strip_ansi t))
      (head_lines (truncate_sec (cfg b))) (tail_lines (truncate_sec (cfg b)))"
      "max_bytes (truncate_sec (cfg b))"]
  by (auto dest!: truncate_compress_Compressed simp: Let_def split: if_splits)

text \<open>The untruncated assembly keeps the first and the last lines, and counts the others.\<close>

lemma build_head_tail_lines:
  assumes "head + tail < length ls" and "\<forall>l \<in> set ls. nl \<notin> set l"
  shows "\<exists>mid k. split_on nl (build_head_tail ls head tail)
           = take head ls @ [omitted_marker (length mid) k] @ drop (length ls - tail) ls
         \<and> ls = take head ls @ mid @ drop (length ls - tail) ls
         \<and> k = len (join [nl] mid)"
proof -
  let ?mid = "drop head (take (length ls - tail) ls)"
  let ?m = "omitted_marker (length ?mid) (len (join [nl] ?mid))"
  have dig: "nl \<notin> set (show_nat n)" for n
    by (induction n rule: show_nat.induct) (subst show_nat.simps, auto)
  have "nl \<notin> set ?m"
    by (simp add: omitted_marker_def lit_def dig)
  then have "\<forall>l \<in> set (take head ls @ [?m] @ drop (length ls - tail) ls). nl \<notin> set l"
    using assms(2) by (auto dest: in_set_takeD in_set_dropD)
  then have "split_on nl (join [nl] (take head ls @ [?m] @ drop (length ls - tail) ls))
      = take head ls @ [?m] @ drop (length ls - tail) ls"
    by (intro split_on_join) simp
  moreover have "build_head_tail ls head tail
      = join [nl] (take head ls @ [?m] @ drop (length ls - tail) ls)"
    using assms(1) by (simp add: build_head_tail_def Let_def len_join)
  ultimately have "split_on nl (build_head_tail ls head tail)
      = take head ls @ [?m] @ drop (length ls - tail) ls"
    by (simp only:)
  moreover have "ls = take head ls @ ?mid @ drop (length ls - tail) ls"
  proof -
    have "take head ls = take head (take (length ls - tail) ls)" using assms(1) by simp
    then have "take head ls @ ?mid = take (length ls - tail) ls" by (simp only: append_take_drop_id)
    then show ?thesis by (metis append_assoc append_take_drop_id)
  qed
  ultimately show ?thesis by blast
qed

section \<open>Properties\<close>

text \<open>
  C36. What the fallback returns is shorter than the input and within the configured limit; only
  a limit smaller than the truncation mark itself is exceeded, by the mark alone.
\<close>

theorem truncate_bounded:
  assumes "truncate_compress t b = Compressed new saved lossy kind"
  shows "len new < len t \<and> len new \<le> max (max_bytes (truncate_sec (cfg b))) 36
    \<and> saved = len t - len new"
  using len_truncate_compress [OF assms] assms
    truncate.shrinks [of t b new saved lossy kind]
  by (simp add: truncate_compressor_def len_SUFFIX)

definition truncate_sample_budget :: budget where
  "truncate_sample_budget =
     \<lparr>cfg = compress_config_default\<lparr>truncate_sec := \<lparr>head_lines = 1, tail_lines = 1, max_bytes = 40\<rparr>\<rparr>,
      cmd = None\<rparr>"

lemma strip_ansi_plain: "\<forall>c \<in> set t. c < 128 \<and> c \<noteq> 27 \<Longrightarrow> strip_ansi t = t"
proof -
  assume t: "\<forall>c \<in> set t. c < 128 \<and> c \<noteq> 27"
  then have "as_bytes t = t" by (induction t) (auto simp: as_bytes_def utf8_char_def)
  moreover have "from_utf8 (as_bytes t) = Some t"
    by (rule from_utf8_as_bytes) (use t in \<open>auto simp: scalar_def\<close>)
  ultimately show ?thesis using t strip_ansi_bytes_plain [of t] by (force simp: strip_ansi_def)
qed

theorem truncate_bounded_witness:
  "\<exists>new saved. truncate_compress (replicate 100 65) truncate_sample_budget = Compressed new saved True KText
     \<and> len new \<le> 40"
proof -
  have "strip_ansi (replicate 100 65) = replicate 100 65" by (rule strip_ansi_plain) simp
  moreover have "split_on nl (replicate 100 65) = [replicate 100 65]" by (rule split_on_single) simp
  moreover have "len (replicate 100 65) = 100" by (simp add: len_def len_utf8_def sum_list_replicate)
  moreover have "len (hard_truncate (replicate 100 65) 40) \<le> 40"
    using len_hard_truncate [of "replicate 100 65" 40] by (simp add: len_SUFFIX)
  ultimately have "\<exists>new saved. truncate_compress (replicate 100 65) truncate_sample_budget
      = Compressed new saved True KText"
    by (simp add: truncate_compress_def truncate_sample_budget_def build_head_tail_def Let_def)
  then obtain new saved where
    "truncate_compress (replicate 100 65) truncate_sample_budget = Compressed new saved True KText"
    by blast
  with truncate_bounded [OF this] show ?thesis
    by (auto simp: truncate_sample_budget_def)
qed

text \<open>
  An escape followed by a non-ASCII char loses only the first byte of that char, so the UTF-8
  check fails and the escape stays in the text.
\<close>

lemma strip_ansi_fallback: "strip_ansi [27, 233] = [27, 233]"
  by (simp add: strip_ansi_def as_bytes_def utf8_char_def csi_final_def from_utf8.simps(2))



end
