(* ===== verification/Compress_Ccr.thy ===== *)
theory Compress_Ccr
  imports Compress_Router "HOL-Library.Multiset"
begin

text \<open>
  CCR (zmod/llm-compress/src/ccr.rs): the original text of a lossy product is written to a file
  and the product carries the file's path. The file system is explicit state: a listing of
  regular files in directory order, with modification times and contents. Which operations fail
  is part of the environment record, so every error branch of the source is a branch here.
\<close>

record fs_file =
  file_dir :: rstr
  file_name :: rstr
  file_mtime :: nat
  file_content :: rstr

definition file_path :: "fs_file \<Rightarrow> rstr" where
  "file_path f = path_join (file_dir f) (file_name f)"

text \<open>
  A write may fail before the file is created, or after some bytes (rounded down to whole chars)
  have reached it. The clock gives the time of the n-th write.
\<close>

datatype write_outcome = WriteOk | WriteNotCreated | WritePartial nat

record fs_env =
  home_dir :: "rstr option"
  mkdir_ok :: "rstr \<Rightarrow> bool"
  readdir_ok :: "rstr \<Rightarrow> bool"
  metadata_ok :: "rstr \<Rightarrow> bool"
  remove_ok :: "rstr \<Rightarrow> bool"
  write_result :: "rstr \<Rightarrow> write_outcome"
  now :: "nat \<Rightarrow> nat"

text \<open>\<open>written\<close> is the registry of \<open>CcrRegistry\<close>; \<open>stats_log\<close> is the statistics file.\<close>

record ccr_state =
  files :: "fs_file list"
  writes :: nat
  written :: "rstr \<times> rstr \<rightharpoonup> rstr"
  stats_log :: rstr

definition read_back :: "fs_file list \<Rightarrow> rstr \<Rightarrow> rstr option" where
  "read_back fs p = map_option file_content (List.find (\<lambda>f. file_path f = p) fs)"

fun put_file :: "rstr \<Rightarrow> rstr \<Rightarrow> nat \<Rightarrow> rstr \<Rightarrow> fs_file list \<Rightarrow> fs_file list" where
  "put_file d n t c [] = [\<lparr>file_dir = d, file_name = n, file_mtime = t, file_content = c\<rparr>]"
| "put_file d n t c (f # fs) =
     (if file_path f = path_join d n then f\<lparr>file_mtime := t, file_content := c\<rparr> # fs
      else f # put_file d n t c fs)"

definition ccr_root :: "fs_env \<Rightarrow> rstr option" where
  "ccr_root env =
     map_option (\<lambda>h. path_join (path_join (path_join h (lit ''.codex'')) (lit ''llm-compress''))
        (lit ''ccr'')) (home_dir env)"

section \<open>Names\<close>

definition hex_digit :: "nat \<Rightarrow> rchar" where
  "hex_digit n = (if n < 10 then 48 + n else 87 + n)"

definition hex_byte :: "byte \<Rightarrow> rstr" where
  "hex_byte b = [hex_digit (b div 16), hex_digit (b mod 16)]"

definition short_hash :: "external \<Rightarrow> rstr \<Rightarrow> rstr" where
  "short_hash e s = concat (map hex_byte (take 6 (sha256 e (as_bytes s))))"

definition is_component_char :: "rchar \<Rightarrow> bool" where
  "is_component_char c \<longleftrightarrow> is_ascii_alphanumeric c \<or> c = 95 \<or> c = 45"

definition sanitize_component :: "external \<Rightarrow> rstr \<Rightarrow> nat \<Rightarrow> rstr" where
  "sanitize_component e s max_len =
     (let cleaned = map (\<lambda>c. if is_component_char c then c else 95) s in
      if max_len < len cleaned \<or> cleaned = []
      then concat (map hex_byte (take 8 (sha256 e (as_bytes s))))
      else cleaned)"

section \<open>Limits\<close>

fun evict :: "fs_env \<Rightarrow> ccr_cfg \<Rightarrow> fs_file list \<Rightarrow> nat \<Rightarrow> nat \<Rightarrow> fs_file list" where
  "evict env c [] cnt tot = []"
| "evict env c (f # fs) cnt tot =
     (if \<not> max_files_per_thread c < cnt \<and> \<not> max_thread_bytes c < tot then []
      else if remove_ok env (file_path f)
      then f # evict env c fs (cnt - 1) (tot - len (file_content f))
      else evict env c fs cnt tot)"

definition dir_entries :: "fs_env \<Rightarrow> rstr \<Rightarrow> fs_file list \<Rightarrow> fs_file list" where
  "dir_entries env d fs = filter (\<lambda>f. file_dir f = d \<and> metadata_ok env (file_path f)) fs"

definition total_bytes :: "fs_file list \<Rightarrow> nat" where
  "total_bytes fs = sum_list (map (\<lambda>f. len (file_content f)) fs)"

definition enforce_limits :: "fs_env \<Rightarrow> rstr \<Rightarrow> ccr_cfg \<Rightarrow> fs_file list \<Rightarrow> fs_file list" where
  "enforce_limits env d c fs =
     (if \<not> readdir_ok env d then fs
      else
        let entries = sort_key file_mtime (dir_entries env d fs);
            gone = map file_path (evict env c entries (length entries) (total_bytes entries))
        in filter (\<lambda>f. file_path f \<notin> set gone) fs)"

section \<open>Persisting and attaching\<close>

definition ccr_file_name :: "external \<Rightarrow> rstr \<Rightarrow> rstr \<Rightarrow> rstr" where
  "ccr_file_name e call_id frag_hash =
     sanitize_component e call_id 32 @ lit ''-'' @ frag_hash @ lit ''.txt''"

definition try_persist ::
  "external \<Rightarrow> fs_env \<Rightarrow> rstr \<Rightarrow> ccr_state \<Rightarrow> rstr \<Rightarrow> rstr \<Rightarrow> ccr_cfg \<Rightarrow> rstr option \<times> ccr_state" where
  "try_persist e env queryid st original call_id c =
     (let frag_hash = short_hash e original; key = (call_id, frag_hash) in
      case written st key of
        Some p \<Rightarrow> (Some p, st)
      | None \<Rightarrow>
     (case ccr_root env of
        None \<Rightarrow> (None, st)
      | Some ccr_dir \<Rightarrow>
          let thread_dir = path_join ccr_dir (sanitize_component e queryid 64) in
          if \<not> mkdir_ok env thread_dir then (None, st)
          else
            let st = st\<lparr>files := enforce_limits env thread_dir c (files st)\<rparr>;
                fname = ccr_file_name e call_id frag_hash;
                path = path_join thread_dir fname;
                t = now env (writes st)
            in case write_result env path of
                 WriteOk \<Rightarrow>
                   (Some path,
                    st\<lparr>files := put_file thread_dir fname t original (files st),
                       writes := Suc (writes st),
                       written := (written st)(key \<mapsto> path)\<rparr>)
               | WriteNotCreated \<Rightarrow> (None, st)
               | WritePartial n \<Rightarrow>
                   (None,
                    st\<lparr>files := put_file thread_dir fname t (take_bytes n original) (files st),
                       writes := Suc (writes st)\<rparr>)))"

definition pointer :: "rstr \<Rightarrow> rstr" where
  "pointer path = lit '' [llm-compress: original '' @ path @ lit '']''"

definition attach ::
  "external \<Rightarrow> fs_env \<Rightarrow> rstr \<Rightarrow> ccr_state \<Rightarrow> rstr \<Rightarrow> rstr \<Rightarrow> rstr \<Rightarrow> ccr_cfg \<Rightarrow> rstr \<times> ccr_state" where
  "attach e env queryid st compressed original call_id c =
     (if \<not> ccr_enabled c then (compressed, st)
      else if max_file_bytes c < len original then (original, st)
      else
        case try_persist e env queryid st original call_id c of
          (Some path, st) \<Rightarrow>
            let attached = compressed @ pointer path
            in if len attached \<le> len original then (attached, st) else (original, st)
        | (None, st) \<Rightarrow> (original, st))"

section \<open>Names are safe path components\<close>

text \<open>What the crate relies on: SHA-256 gives 32 bytes.\<close>

definition digest_ok :: "external \<Rightarrow> bool" where
  "digest_ok e \<longleftrightarrow> (\<forall>bs. length (sha256 e bs) = 32 \<and> (\<forall>b \<in> set (sha256 e bs). b < 256))"

lemma digest_ok_plain: "digest_ok external_plain"
  by (simp add: digest_ok_def external_plain_def)

lemma hex_digit_component: "n < 16 \<Longrightarrow> is_component_char (hex_digit n)"
  by (simp add: hex_digit_def is_component_char_def is_ascii_alphanumeric_def is_ascii_digit_def)

lemma hex_byte_component:
  assumes "b < 256" "c \<in> set (hex_byte b)"
  shows "is_component_char c"
proof -
  have "b div 16 < 16" using assms(1) by (simp add: less_mult_imp_div_less)
  then show ?thesis
    using assms(2) hex_digit_component [of "b div 16"] hex_digit_component [of "b mod 16"]
    by (auto simp: hex_byte_def)
qed

lemma component_char_ascii: "is_component_char c \<Longrightarrow> c < 128 \<and> c \<noteq> 47 \<and> c \<noteq> 46 \<and> c \<noteq> 0"
  by (auto simp: is_component_char_def is_ascii_alphanumeric_def is_ascii_digit_def)

lemma hex_bytes_component:
  "digest_ok e \<Longrightarrow> list_all is_component_char (concat (map hex_byte (take n (sha256 e bs))))"
  by (auto simp: list_all_iff digest_ok_def intro: hex_byte_component dest!: in_set_takeD)

lemma length_hex_bytes:
  "digest_ok e \<Longrightarrow> n \<le> 32 \<Longrightarrow> length (concat (map hex_byte (take n (sha256 e bs)))) = 2 * n"
  by (simp add: digest_ok_def length_concat hex_byte_def o_def sum_list_triv)

lemma sanitize_component_safe:
  assumes "digest_ok e"
  shows "sanitize_component e s n \<noteq> []" "list_all is_component_char (sanitize_component e s n)"
    "len (sanitize_component e s n) \<le> max n 16"
proof -
  let ?h = "concat (map hex_byte (take 8 (sha256 e (as_bytes s))))"
  have h: "list_all is_component_char ?h" "length ?h = 16"
    using assms hex_bytes_component length_hex_bytes [of e 8] by auto
  moreover from this(1) have "len ?h = length ?h"
    by (intro len_ascii) (auto simp: list_all_iff dest: component_char_ascii)
  ultimately have h3: "?h \<noteq> [] \<and> list_all is_component_char ?h \<and> len ?h = 16"
    by (metis length_greater_0_conv zero_less_numeral)
  have under: "is_component_char 95" by (simp add: is_component_char_def)
  show "sanitize_component e s n \<noteq> []" "list_all is_component_char (sanitize_component e s n)"
    "len (sanitize_component e s n) \<le> max n 16"
    using h3 under by (auto simp: sanitize_component_def Let_def list_all_iff)
qed

text \<open>
  No call id and no query id can leave the directory: a component has no separator and no dot,
  and it is not empty.
\<close>

lemma path_join_component:
  "list_all is_component_char (takeWhile (\<lambda>c. c \<noteq> 46) n) \<Longrightarrow> hd n \<noteq> 47 \<Longrightarrow> d \<noteq> [] \<Longrightarrow>
     \<not> ends_with d (lit ''/'') \<Longrightarrow> path_join d n = d @ lit ''/'' @ n"
  by (cases n) (auto simp: path_join_def starts_with_def lit_def)

section \<open>Eviction respects the limits and takes the oldest files\<close>

lemma total_bytes_Cons [simp]: "total_bytes (f # fs) = len (file_content f) + total_bytes fs"
  and total_bytes_Nil [simp]: "total_bytes [] = 0"
  by (simp_all add: total_bytes_def)

lemma evict_prefix:
  "\<forall>f \<in> set fs. remove_ok env (file_path f) \<Longrightarrow> \<exists>rest. fs = evict env c fs n t @ rest"
  by (induction env c fs n t rule: evict.induct) auto

lemma evict_within:
  "\<forall>f \<in> set fs. remove_ok env (file_path f) \<Longrightarrow>
   evict env c fs (length fs) (total_bytes fs) @ rest = fs \<Longrightarrow>
     length rest \<le> max_files_per_thread c \<and> total_bytes rest \<le> max_thread_bytes c"
proof (induction fs)
  case (Cons f fs)
  show ?case
  proof (cases "\<not> max_files_per_thread c < length (f # fs) \<and> \<not> max_thread_bytes c < total_bytes (f # fs)")
    case True
    with Cons.prems(2) have "rest = f # fs" by simp
    with True show ?thesis by simp
  next
    case False
    with Cons.prems have "evict env c fs (length fs) (total_bytes fs) @ rest = fs"
      by (auto split: if_splits)
    with Cons show ?thesis by simp
  qed
qed simp

lemma evict_subset: "set (evict env c fs n t) \<subseteq> set fs"
  by (induction env c fs n t rule: evict.induct) auto

text \<open>
  When the directory can be read and the removals succeed, what is left of the directory obeys
  both limits, and no removed file is newer than a file that stays.
\<close>

lemma enforce_limits_dir:
  assumes "readdir_ok env d" and "\<forall>f \<in> set (dir_entries env d fs). remove_ok env (file_path f)"
    and "distinct (map file_path fs)"
  shows "\<exists>gone kept. sort_key file_mtime (dir_entries env d fs) = gone @ kept
    \<and> set (dir_entries env d (enforce_limits env d c fs)) = set kept
    \<and> length (dir_entries env d (enforce_limits env d c fs)) = length kept
    \<and> total_bytes (dir_entries env d (enforce_limits env d c fs)) = total_bytes kept
    \<and> length kept \<le> max_files_per_thread c \<and> total_bytes kept \<le> max_thread_bytes c"
proof -
  define es where "es = sort_key file_mtime (dir_entries env d fs)"
  define gone where "gone = evict env c es (length es) (total_bytes es)"
  have rm: "\<forall>f \<in> set es. remove_ok env (file_path f)" using assms(2) by (simp add: es_def)
  then obtain kept where kept: "es = gone @ kept"
    using evict_prefix unfolding gone_def by blast
  have lim: "length kept \<le> max_files_per_thread c \<and> total_bytes kept \<le> max_thread_bytes c"
    using evict_within [OF rm] kept [symmetric] unfolding gone_def by blast
  have "mset (map file_path es) = mset (map file_path (dir_entries env d fs))"
    by (simp add: es_def)
  moreover have "distinct (map file_path (dir_entries env d fs))"
    using assms(3) by (simp add: dir_entries_def distinct_map_filter)
  ultimately have dis: "distinct (map file_path es)" by (metis mset_eq_imp_distinct_iff)
  have "enforce_limits env d c fs = filter (\<lambda>f. file_path f \<notin> file_path ` set gone) fs"
    using assms(1) unfolding enforce_limits_def Let_def gone_def es_def by simp
  then have "dir_entries env d (enforce_limits env d c fs)
      = filter (\<lambda>f. file_path f \<notin> file_path ` set gone) (dir_entries env d fs)"
    by (simp add: dir_entries_def conj_ac)
  also have "mset \<dots> = mset (filter (\<lambda>f. file_path f \<notin> file_path ` set gone) es)"
    by (simp add: es_def mset_filter)
  also have "filter (\<lambda>f. file_path f \<notin> file_path ` set gone) es = kept"
  proof -
    have "file_path ` set gone \<inter> file_path ` set kept = {}" using dis by (simp add: kept)
    then have "filter (\<lambda>f. file_path f \<notin> file_path ` set gone) kept = kept"
      by (intro filter_True ballI) blast
    moreover have "filter (\<lambda>f. file_path f \<notin> file_path ` set gone) gone = []"
      by (intro filter_False ballI) simp
    ultimately show ?thesis by (simp only: kept filter_append append_Nil)
  qed
  finally have m: "mset (dir_entries env d (enforce_limits env d c fs)) = mset kept" .
  then have "set (dir_entries env d (enforce_limits env d c fs)) = set kept"
    "length (dir_entries env d (enforce_limits env d c fs)) = length kept"
    by (rule mset_eq_setD, rule mset_eq_length)
  moreover have "total_bytes (dir_entries env d (enforce_limits env d c fs)) = total_bytes kept"
    unfolding total_bytes_def sum_mset_sum_list [symmetric] mset_map m ..
  ultimately show ?thesis using lim kept unfolding es_def [symmetric] by blast
qed

lemma enforce_limits_oldest:
  assumes "sort_key file_mtime (dir_entries env d fs) = gone @ kept" "f \<in> set gone" "g \<in> set kept"
  shows "file_mtime f \<le> file_mtime g"
proof -
  have "sorted (map file_mtime (gone @ kept))" unfolding assms(1) [symmetric] by simp
  with assms(2,3) show ?thesis by (auto simp: sorted_append)
qed

section \<open>A pointer leads to the original\<close>

lemma read_back_put_file: "read_back (put_file d n t c fs) (path_join d n) = Some c"
  by (induction d n t c fs rule: put_file.induct) (auto simp: read_back_def file_path_def)

lemma try_persist_Some:
  assumes "try_persist e env q st original call_id c = (Some path, st')"
  shows "written st' (call_id, short_hash e original) = Some path
    \<and> (written st (call_id, short_hash e original) = None \<longrightarrow>
         read_back (files st') path = Some original
         \<and> (\<exists>ccr_dir. ccr_root env = Some ccr_dir \<and> path = path_join
              (path_join ccr_dir (sanitize_component e q 64))
              (ccr_file_name e call_id (short_hash e original))))"
  using assms
  by (auto simp: try_persist_def Let_def read_back_put_file
      split: option.splits if_splits write_outcome.splits)

lemma attach_enabled:
  assumes "attach e env q st compressed original call_id c = (r, st')" and "ccr_enabled c"
  shows "r = original \<or>
    (\<exists>path. r = compressed @ pointer path \<and> len r \<le> len original
       \<and> written st' (call_id, short_hash e original) = Some path
       \<and> (written st (call_id, short_hash e original) = None \<longrightarrow>
            read_back (files st') path = Some original))"
proof -
  obtain p st2 where p: "try_persist e env q st original call_id c = (p, st2)" by fastforce
  show ?thesis
  proof (cases p)
    case None
    with assms p show ?thesis by (auto simp: attach_def split: if_splits)
  next
    case (Some path)
    with try_persist_Some p have "written st2 (call_id, short_hash e original) = Some path
        \<and> (written st (call_id, short_hash e original) = None \<longrightarrow>
             read_back (files st2) path = Some original)" by blast
    with assms p Some show ?thesis by (auto simp: attach_def Let_def split: if_splits)
  qed
qed

lemma len_attach:
  "ccr_enabled c \<Longrightarrow> len (fst (attach e env q st compressed original call_id c)) \<le> len original"
  by (auto simp: attach_def Let_def split: prod.splits option.splits)

section \<open>Properties\<close>

definition env_ok :: fs_env where
  "env_ok = \<lparr>home_dir = Some (lit ''/h''), mkdir_ok = (\<lambda>_. True), readdir_ok = (\<lambda>_. True),
     metadata_ok = (\<lambda>_. True), remove_ok = (\<lambda>_. True), write_result = (\<lambda>_. WriteOk), now = id\<rparr>"

definition ccr_empty :: ccr_state where
  "ccr_empty = \<lparr>files = [], writes = 0, written = Map.empty, stats_log = []\<rparr>"



text \<open>
  Cleaning a directory that can be read, with files that can be removed, leaves at most the
  allowed number of files and bytes, and every removed file is at most as new as every file
  that stays.
\<close>

theorem enforce_limits_sound:
  assumes "readdir_ok env d" and "\<forall>f \<in> set (dir_entries env d fs). remove_ok env (file_path f)"
    and "distinct (map file_path fs)"
  shows "length (dir_entries env d (enforce_limits env d c fs)) \<le> max_files_per_thread c
    \<and> total_bytes (dir_entries env d (enforce_limits env d c fs)) \<le> max_thread_bytes c
    \<and> (\<forall>f \<in> set (dir_entries env d fs) - set (dir_entries env d (enforce_limits env d c fs)).
         \<forall>g \<in> set (dir_entries env d (enforce_limits env d c fs)). file_mtime f \<le> file_mtime g)"
proof -
  obtain gone kept where gk: "sort_key file_mtime (dir_entries env d fs) = gone @ kept"
    "set (dir_entries env d (enforce_limits env d c fs)) = set kept"
    "length (dir_entries env d (enforce_limits env d c fs)) = length kept"
    "total_bytes (dir_entries env d (enforce_limits env d c fs)) = total_bytes kept"
    "length kept \<le> max_files_per_thread c" "total_bytes kept \<le> max_thread_bytes c"
    using enforce_limits_dir [OF assms] by blast
  have "set (dir_entries env d fs) = set gone \<union> set kept"
    using gk(1) by (metis set_append set_sort)
  then have "\<forall>f \<in> set (dir_entries env d fs) - set kept. \<forall>g \<in> set kept. file_mtime f \<le> file_mtime g"
    using enforce_limits_oldest [OF gk(1)] by blast
  with gk show ?thesis by simp
qed

definition two_files :: "fs_file list" where
  "two_files =
     [\<lparr>file_dir = lit ''/d'', file_name = lit ''a'', file_mtime = 2, file_content = lit ''x''\<rparr>,
      \<lparr>file_dir = lit ''/d'', file_name = lit ''b'', file_mtime = 1, file_content = lit ''y''\<rparr>]"

theorem enforce_limits_sound_witness:
  "length (dir_entries env_ok (lit ''/d'')
     (enforce_limits env_ok (lit ''/d'') (ccr_cfg_default\<lparr>max_files_per_thread := 1\<rparr>) two_files)) \<le> 1"
  using enforce_limits_sound [of env_ok "lit ''/d''" two_files "ccr_cfg_default\<lparr>max_files_per_thread := 1\<rparr>"]
  by (simp add: env_ok_def two_files_def file_path_def path_join_def starts_with_def ends_with_def lit_def)

lemma path_join_relative: "\<not> starts_with f (lit ''/'') \<Longrightarrow> \<exists>p. path_join d f = p @ f"
  by (auto simp: path_join_def)



end
