(* ===== verification/Compress_Transform.thy ===== *)
theory Compress_Transform
  imports Compress_Preprocess Compress_Diff Compress_Log Compress_Search Compress_Table
    Compress_Truncate Compress_Ccr
begin

text \<open>
  The orchestration (zmod/llm-compress/src/lib.rs) and the statistics line (stats.rs): the
  router of the six compressors, the pipeline for one text segment and the walk over a request.
  The state threaded through the walk is the file system and the CCR registry; the command index
  is computed once from the request.
\<close>

definition build_router :: "external \<Rightarrow> compressor list" where
  "build_router e =
     [json_compressor e, search_compressor (uni e), diff_compressor, tabular_compressor e,
      log_compressor (uni e), truncate_compressor]"

interpretation router: compressor_list "build_router e" for e
  by (rule compressor_list.intro)
     (auto simp: build_router_def
       intro: jsonc.compressor_contract_axioms search.compressor_contract_axioms
         diff.compressor_contract_axioms tabular.compressor_contract_axioms
         logc.compressor_contract_axioms truncate.compressor_contract_axioms)

record request_ctx =
  queryid :: rstr
  cmd_index :: "rstr \<rightharpoonup> command_hint"

text \<open>The candidate text, and whether it claims to be JSON.\<close>

definition candidate_text ::
  "external \<Rightarrow> fs_env \<Rightarrow> request_ctx \<Rightarrow> compress_config \<Rightarrow> rstr \<Rightarrow> rstr \<Rightarrow> ccr_state
     \<Rightarrow> (rstr \<times> bool) \<times> ccr_state" where
  "candidate_text e env ctx cf call_id s st =
     (let (pre, pre_lossy) = run s (preprocess_sec cf);
          b = \<lparr>cfg = cf, cmd = cmd_index ctx call_id\<rparr>
      in case compress_text (build_router e) pre b of
           Some (new, comp_lossy, kind) \<Rightarrow>
             (case kind of
                KJson \<Rightarrow> ((new, True), st)
              | KToon \<Rightarrow> ((new, False), st)
              | KText \<Rightarrow>
                  if pre_lossy \<or> comp_lossy
                  then let (c, st) = attach e env (queryid ctx) st new s call_id (ccr_sec cf)
                       in ((c, False), st)
                  else ((new, False), st))
         | None \<Rightarrow>
             if pre_lossy
             then let (c, st) = attach e env (queryid ctx) st pre s call_id (ccr_sec cf)
                  in ((c, False), st)
             else ((pre, False), st))"

definition compress_in_place ::
  "external \<Rightarrow> fs_env \<Rightarrow> request_ctx \<Rightarrow> compress_config \<Rightarrow> rstr \<Rightarrow> rstr \<Rightarrow> ccr_state
     \<Rightarrow> rstr \<times> ccr_state" where
  "compress_in_place e env ctx cf call_id s st =
     (if len s < per_item_min_bytes cf then (s, st)
      else if should_protect (uni e) s (cmd_index ctx call_id) cf then (s, st)
      else
        let ((candidate, candidate_is_json), st) = candidate_text e env ctx cf call_id s st;
            json_valid = \<not> candidate_is_json \<or> parse_json e candidate \<noteq> None
        in if len candidate \<le> len s \<and> json_valid then (candidate, st) else (s, st))"

text \<open>A stateful map: the loop over the content items, and over the items of the request.\<close>

fun map_state :: "('a \<Rightarrow> 's \<Rightarrow> 'a \<times> 's) \<Rightarrow> 'a list \<Rightarrow> 's \<Rightarrow> 'a list \<times> 's" where
  "map_state f [] st = ([], st)"
| "map_state f (x # xs) st =
     (let (y, st) = f x st; (ys, st) = map_state f xs st in (y # ys, st))"

fun compress_content ::
  "external \<Rightarrow> fs_env \<Rightarrow> request_ctx \<Rightarrow> compress_config \<Rightarrow> rstr \<Rightarrow> function_call_output_content_item
     \<Rightarrow> ccr_state \<Rightarrow> function_call_output_content_item \<times> ccr_state" where
  "compress_content e env ctx cf call_id (FcoInputText t) st =
     (let (t, st) = compress_in_place e env ctx cf call_id t st in (FcoInputText t, st))"
| "compress_content e env ctx cf call_id ci st = (ci, st)"

fun compress_body ::
  "external \<Rightarrow> fs_env \<Rightarrow> request_ctx \<Rightarrow> compress_config \<Rightarrow> rstr \<Rightarrow> function_call_output_body
     \<Rightarrow> ccr_state \<Rightarrow> function_call_output_body \<times> ccr_state" where
  "compress_body e env ctx cf call_id (Text s) st =
     (let (s, st) = compress_in_place e env ctx cf call_id s st in (Text s, st))"
| "compress_body e env ctx cf call_id (ContentItems its) st =
     (let (its, st) = map_state (compress_content e env ctx cf call_id) its st
      in (ContentItems its, st))"

fun compress_item ::
  "external \<Rightarrow> fs_env \<Rightarrow> request_ctx \<Rightarrow> compress_config \<Rightarrow> response_item \<Rightarrow> ccr_state
     \<Rightarrow> response_item \<times> ccr_state" where
  "compress_item e env ctx cf (FunctionCallOutput i call_id p m) st =
     (let (b, st) = compress_body e env ctx cf call_id (out_body p) st
      in (FunctionCallOutput i call_id (p\<lparr>out_body := b\<rparr>) m, st))"
| "compress_item e env ctx cf (CustomToolCallOutput i call_id n p m) st =
     (let (b, st) = compress_body e env ctx cf call_id (out_body p) st
      in (CustomToolCallOutput i call_id n (p\<lparr>out_body := b\<rparr>) m, st))"
| "compress_item e env ctx cf item st = (item, st)"

fun content_bytes :: "function_call_output_content_item \<Rightarrow> nat" where
  "content_bytes (FcoInputText t) = len t"
| "content_bytes _ = 0"

fun body_bytes :: "function_call_output_body \<Rightarrow> nat" where
  "body_bytes (Text s) = len s"
| "body_bytes (ContentItems its) = sum_list (map content_bytes its)"

fun item_bytes :: "response_item \<Rightarrow> nat" where
  "item_bytes (FunctionCallOutput i c p m) = body_bytes (out_body p)"
| "item_bytes (CustomToolCallOutput i c n p m) = body_bytes (out_body p)"
| "item_bytes _ = 0"

definition total_text_bytes :: "response_item list \<Rightarrow> nat" where
  "total_text_bytes items = sum_list (map item_bytes items)"

text \<open>
  The statistics line is appended when the directory and the file can be opened; the time stamp
  comes from the clock of the machine.
\<close>

record stats_env =
  stats_time :: rstr
  stats_ok :: "rstr \<Rightarrow> bool"

definition default_log_path :: "rstr option \<Rightarrow> rstr option" where
  "default_log_path home =
     map_option (\<lambda>h. path_join (path_join (path_join h (lit ''.codex'')) (lit ''log''))
        (lit ''llm-compress.log'')) home"

definition stats_line :: "rstr \<Rightarrow> rstr \<Rightarrow> nat \<Rightarrow> nat \<Rightarrow> rstr" where
  "stats_line ts q before after =
     ts @ lit '','' @ q @ lit '','' @ show_nat before @ lit '','' @ show_nat after @ [nl]"

definition log_compression ::
  "stats_env \<Rightarrow> rstr option \<Rightarrow> rstr \<Rightarrow> nat \<Rightarrow> nat \<Rightarrow> ccr_state \<Rightarrow> ccr_state" where
  "log_compression se home q before after st =
     (case default_log_path home of
        None \<Rightarrow> st
      | Some p \<Rightarrow>
          if stats_ok se p
          then st\<lparr>stats_log := stats_log st @ stats_line (stats_time se) q before after\<rparr> else st)"

definition transform ::
  "external \<Rightarrow> fs_env \<Rightarrow> stats_env \<Rightarrow> toml_parser \<Rightarrow> (rstr \<Rightarrow> rstr option)
     \<Rightarrow> responses_api_request \<Rightarrow> rstr \<Rightarrow> ccr_state \<Rightarrow> responses_api_request \<times> ccr_state" where
  "transform e env se toml read_file request q st =
     (let cf = load toml read_file (home_dir env) in
      if \<not> enabled cf then (request, st)
      else
        let ctx = \<lparr>queryid = q, cmd_index = index e request\<rparr>;
            total_before = total_text_bytes (input request);
            (items, st) = map_state (compress_item e env ctx cf) (input request)
               (st\<lparr>written := Map.empty\<rparr>);
            total_after = total_text_bytes items;
            st = (if total_after < total_before
                  then log_compression se (home_dir env) q total_before total_after st else st)
        in (request\<lparr>input := items\<rparr>, st))"

section \<open>One segment\<close>

lemma len_compress_in_place: "len (fst (compress_in_place e env ctx cf cid s st)) \<le> len s"
  by (simp add: compress_in_place_def Let_def split: prod.splits)

text \<open>What a structured product decodes to.\<close>

definition decodes_to :: "external \<Rightarrow> rstr \<Rightarrow> rstr \<Rightarrow> bool" where
  "decodes_to e new src \<longleftrightarrow>
     (\<exists>v. toon_decode e new = Some v
        \<and> (parse_json e src = Some v
           \<or> (\<exists>table. parse_table src = Some table \<and> v = table_value table)))"

lemma router_toon_decodes:
  assumes "compress_text (build_router e) t b = Some (new, lossy, KToon)"
  shows "decodes_to e new t"
proof -
  obtain c saved where c: "c \<in> set (build_router e)"
    and k: "compress c t b = Some (Compressed new saved lossy KToon)"
    using assms by (rule router.compress_text_source)
  have "lossy \<longleftrightarrow> KToon = KText"
    by (rule compressor_contract.lossy_iff_text [OF router.all_contract [OF c] k])
  then have "\<not> lossy" by simp
  with c k have "json_compress e t b = Compressed new saved lossy KToon
      \<or> tabular_compress e t b = Compressed new saved lossy KToon"
    by (auto simp: build_router_def json_compressor_def tabular_compressor_def
        search_compressor_def diff_compressor_def log_compressor_def truncate_compressor_def
        search_compress_def diff_compress_def log_compress_def truncate_compress_def Let_def
        split: if_splits option.splits prod.splits)
  then show ?thesis
    unfolding decodes_to_def
    by (auto dest!: json_compress_decodes elim!: tabular_compress_decodes)
qed

text \<open>The outcomes of the pipeline for one segment when CCR is on.\<close>

definition retrievable ::
  "external \<Rightarrow> rstr \<Rightarrow> rstr \<Rightarrow> rstr \<Rightarrow> ccr_state \<Rightarrow> ccr_state \<Rightarrow> bool" where
  "retrievable e cid s s' st st' \<longleftrightarrow>
     (\<exists>new path. s' = new @ pointer path
        \<and> written st' (cid, short_hash e s) = Some path
        \<and> (written st (cid, short_hash e s) = None \<longrightarrow> read_back (files st') path = Some s))"

lemma attach_retrievable:
  assumes "attach e env q st new s cid c = (r, st')" and "ccr_enabled c"
  shows "r = s \<or> retrievable e cid s r st st'"
proof (cases "r = s")
  case False
  with attach_enabled [OF assms] obtain path where "r = new @ pointer path"
    "written st' (cid, short_hash e s) = Some path"
    "written st (cid, short_hash e s) = None \<longrightarrow> read_back (files st') path = Some s"
    by auto
  then show ?thesis unfolding retrievable_def by (intro disjI2 exI conjI)
qed simp

lemma candidate_text_cases:
  assumes "candidate_text e env ctx cf cid s st = ((r, j), st')" and "ccr_enabled (ccr_sec cf)"
    and "run s (preprocess_sec cf) = (pre, pre_lossy)"
  shows "r = s \<or> retrievable e cid s r st st' \<or> decodes_to e r pre \<or> (r = pre \<and> \<not> pre_lossy)"
proof (cases "compress_text (build_router e) pre \<lparr>cfg = cf, cmd = cmd_index ctx cid\<rparr>")
  case None
  with assms show ?thesis
    by (auto simp: candidate_text_def Let_def split: if_splits prod.splits dest: attach_retrievable)
next
  case (Some p)
  obtain new comp_lossy kind where p: "p = (new, comp_lossy, kind)" by (cases p)
  consider "comp_lossy" "kind = KText" | "kind = KToon"
    using router.compress_text_kinds Some p by blast
  then show ?thesis
  proof cases
    case 1
    with Some p assms show ?thesis
      by (auto simp: candidate_text_def Let_def split: prod.splits dest: attach_retrievable)
  next
    case 2
    with Some p assms router_toon_decodes show ?thesis
      by (auto simp: candidate_text_def Let_def)
  qed
qed

lemma compress_in_place_cases:
  assumes "compress_in_place e env ctx cf cid s st = (s', st')" and "ccr_enabled (ccr_sec cf)"
    and "run s (preprocess_sec cf) = (pre, pre_lossy)"
  shows "s' = s \<or> retrievable e cid s s' st st' \<or> decodes_to e s' pre \<or> (s' = pre \<and> \<not> pre_lossy)"
proof -
  obtain r j st2 where r: "candidate_text e env ctx cf cid s st = ((r, j), st2)"
    by (metis surj_pair)
  from assms(1) r have "s' = s \<or> s' = r \<and> st' = st2"
    by (auto simp: compress_in_place_def Let_def split: if_splits)
  with candidate_text_cases [OF r assms(2,3)] show ?thesis by blast
qed

section \<open>The walk over the request\<close>

lemma map_state_rel:
  "(\<And>x st. P x (fst (f x st))) \<Longrightarrow> list_all2 P xs (fst (map_state f xs st))"
  by (induction xs arbitrary: st) (simp_all add: Let_def case_prod_beta)

lemma sum_list_all2_le:
  "list_all2 (\<lambda>x y. g y \<le> g x) xs ys \<Longrightarrow> sum_list (map g ys) \<le> sum_list (map g xs)"
  for g :: "'a \<Rightarrow> nat"
  by (induction rule: list_all2_induct) auto

lemma compress_content_bytes: "content_bytes (fst (compress_content e env ctx cf cid ci st)) \<le> content_bytes ci"
  using len_compress_in_place by (cases ci) (auto simp: Let_def case_prod_beta)

lemma compress_body_bytes: "body_bytes (fst (compress_body e env ctx cf cid b st)) \<le> body_bytes b"
proof (cases b)
  case (Text s)
  then show ?thesis
    using len_compress_in_place [of e env ctx cf cid s st] by (simp add: Let_def case_prod_beta)
next
  case (ContentItems its)
  have "list_all2 (\<lambda>x y. content_bytes y \<le> content_bytes x) its
      (fst (map_state (compress_content e env ctx cf cid) its st))"
    by (rule map_state_rel) (rule compress_content_bytes)
  from sum_list_all2_le [OF this] ContentItems show ?thesis
    by (simp add: Let_def case_prod_beta)
qed

lemma compress_item_bytes: "item_bytes (fst (compress_item e env ctx cf item st)) \<le> item_bytes item"
proof (cases item)
  case (FunctionCallOutput i c p m)
  then show ?thesis
    using compress_body_bytes [of e env ctx cf c "out_body p" st]
    by (simp add: Let_def case_prod_beta)
next
  case (CustomToolCallOutput i c n p m)
  then show ?thesis
    using compress_body_bytes [of e env ctx cf c "out_body p" st]
    by (simp add: Let_def case_prod_beta)
qed simp_all

lemma map_state_items_bytes:
  "total_text_bytes (fst (map_state (compress_item e env ctx cf) items st)) \<le> total_text_bytes items"
  unfolding total_text_bytes_def
  by (rule sum_list_all2_le, rule map_state_rel, rule compress_item_bytes)

text \<open>What may not change: an item with its text segments blanked out.\<close>

fun blank_content :: "function_call_output_content_item \<Rightarrow> function_call_output_content_item" where
  "blank_content (FcoInputText t) = FcoInputText []"
| "blank_content ci = ci"

fun blank_body :: "function_call_output_body \<Rightarrow> function_call_output_body" where
  "blank_body (Text s) = Text []"
| "blank_body (ContentItems its) = ContentItems (map blank_content its)"

fun skeleton :: "response_item \<Rightarrow> response_item" where
  "skeleton (FunctionCallOutput i c p m) = FunctionCallOutput i c (p\<lparr>out_body := blank_body (out_body p)\<rparr>) m"
| "skeleton (CustomToolCallOutput i c n p m) =
     CustomToolCallOutput i c n (p\<lparr>out_body := blank_body (out_body p)\<rparr>) m"
| "skeleton item = item"

lemma compress_content_skeleton: "blank_content (fst (compress_content e env ctx cf cid ci st)) = blank_content ci"
  by (cases ci) (auto simp: Let_def case_prod_beta)

lemma map_state_skeleton:
  "(\<And>x st. g (fst (f x st)) = g x) \<Longrightarrow> map g (fst (map_state f xs st)) = map g xs"
  using map_state_rel [of "\<lambda>x y. g y = g x" f xs st]
  by (auto simp: list_all2_conv_all_nth intro!: nth_equalityI)

lemma compress_body_skeleton: "blank_body (fst (compress_body e env ctx cf cid b st)) = blank_body b"
proof (cases b)
  case (ContentItems its)
  then show ?thesis
    using map_state_skeleton [of blank_content "compress_content e env ctx cf cid" its st]
    by (simp add: compress_content_skeleton Let_def case_prod_beta)
qed (simp add: Let_def case_prod_beta)

lemma compress_item_skeleton: "skeleton (fst (compress_item e env ctx cf item st)) = skeleton item"
proof (cases item)
  case (FunctionCallOutput i c p m)
  then show ?thesis
    using compress_body_skeleton [of e env ctx cf c "out_body p" st]
    by (simp add: Let_def case_prod_beta)
next
  case (CustomToolCallOutput i c n p m)
  then show ?thesis
    using compress_body_skeleton [of e env ctx cf c "out_body p" st]
    by (simp add: Let_def case_prod_beta)
qed simp_all

lemma map_state_items_skeleton:
  "map skeleton (fst (map_state (compress_item e env ctx cf) items st)) = map skeleton items"
  by (rule map_state_skeleton) (rule compress_item_skeleton)

lemma transform_enabled:
  "enabled (load toml rf (home_dir env)) \<Longrightarrow>
     fst (transform e env se toml rf r q st) =
       r\<lparr>input := fst (map_state
          (compress_item e env \<lparr>queryid = q, cmd_index = index e r\<rparr> (load toml rf (home_dir env)))
          (input r) (st\<lparr>written := Map.empty\<rparr>))\<rparr>"
  by (simp add: transform_def Let_def case_prod_beta)

section \<open>Properties\<close>

text \<open>
  C2. Compression never makes a request larger: the total size of its tool-output texts does not grow.\<close>

theorem transform_never_grows:
  "total_text_bytes (input (fst (transform e env se toml rf r q st))) \<le> total_text_bytes (input r)"
proof (cases "enabled (load toml rf (home_dir env))")
  case True
  then show ?thesis by (simp add: transform_enabled map_state_items_bytes)
next
  case False
  then show ?thesis by (simp add: transform_def)
qed

text \<open>
  C7. Compression touches nothing but tool-output texts: the request keeps all other fields, the
  same items in the same order, the same call ids, success flags, images and encrypted parts.
\<close>

theorem transform_preserves_structure:
  "map skeleton (input (fst (transform e env se toml rf r q st))) = map skeleton (input r)
   \<and> (fst (transform e env se toml rf r q st))\<lparr>input := []\<rparr> = r\<lparr>input := []\<rparr>"
proof (cases "enabled (load toml rf (home_dir env))")
  case True
  then show ?thesis by (simp add: transform_enabled map_state_items_skeleton)
next
  case False
  then show ?thesis by (simp add: transform_def)
qed


definition segment_cfg :: compress_config where
  "segment_cfg = compress_config_default\<lparr>enabled := True, per_item_min_bytes := 0\<rparr>"

definition segment_ctx :: request_ctx where
  "segment_ctx = \<lparr>queryid = lit ''q'', cmd_index = Map.empty\<rparr>"


end
