(* ===== verification/Switch_Config.thy ===== *)
theory Switch_Config
  imports Protocol
begin

text \<open>
  Configuration and transport helpers of llm-switch (zmod/llm-switch/src/config.rs and http.rs).
  The TOML parser, JSON text and header validation are code of other crates: fields of
  \<open>switch_ext\<close>. A provider table is a hash map whose iteration order is unspecified: the raw
  table is a list in iteration order, and the last section proves that a successful load does
  not depend on it.
\<close>

datatype config_error =
    Parse rstr
  | InlineAuthKeyForbidden rstr
  | UnknownConnector rstr rstr
  | UnknownAuth rstr rstr

datatype connector_kind = Chat | Anthropic

datatype auth_kind = Bearer | XApiKey

record provider_cfg =
  connector :: connector_kind
  base_url :: "rstr option"
  auth :: auth_kind
  key_env :: "rstr option"
  auth_key :: "rstr option"
  path_cfg :: "rstr option"
  model_cfg :: "rstr option"
  anthropic_version :: "rstr option"
  default_max_tokens :: "u32 option"
  prompt_cache :: bool

record switch_config =
  sw_enabled :: bool
  providers :: "rstr \<rightharpoonup> provider_cfg"
  purpose_table :: "rstr \<rightharpoonup> rstr"

record raw_provider =
  raw_connector :: rstr
  raw_base_url :: "rstr option"
  raw_auth :: rstr
  raw_key_env :: "rstr option"
  raw_auth_key :: "rstr option"
  raw_path :: "rstr option"
  raw_model :: "rstr option"
  raw_anthropic_version :: "rstr option"
  raw_default_max_tokens :: "u32 option"
  raw_prompt_cache :: bool

record raw_switch =
  raw_enabled :: bool
  raw_providers :: "(rstr \<times> raw_provider) list"
  raw_purpose :: "rstr \<rightharpoonup> rstr"

text \<open>
  External code: the TOML parser (error text, or the optional section), the JSON parser with its
  error text, the JSON printer, header-value validation, and the text of a UTF-8 error and of a
  debug-formatted string.
\<close>

record switch_ext =
  sw_toml :: "rstr \<Rightarrow> (rstr, raw_switch option) result"
  sw_parse :: "rstr \<Rightarrow> (rstr, json) result"
  sw_print :: "json \<Rightarrow> rstr"
  header_value :: "rstr \<Rightarrow> (rstr, rstr) result"
  utf8_error_text :: "byte list \<Rightarrow> rstr"
  debug_text :: "rstr option \<Rightarrow> rstr"

definition switch_ext_plain :: switch_ext where
  "switch_ext_plain =
     \<lparr>sw_toml = (\<lambda>_. Ok None), sw_parse = (\<lambda>s. Ok (JString s)), sw_print = (\<lambda>_. []),
      header_value = Ok, utf8_error_text = (\<lambda>_. []), debug_text = (\<lambda>_. [])\<rparr>"

definition connector_of :: "rstr \<Rightarrow> rstr \<Rightarrow> (config_error, connector_kind option) result" where
  "connector_of i c =
     (if c = lit ''chat'' then Ok (Some Chat)
      else if c = lit ''anthropic'' then Ok (Some Anthropic)
      else if c = lit ''responses'' then Ok None
      else Err (UnknownConnector i c))"

definition auth_of :: "rstr \<Rightarrow> rstr \<Rightarrow> (config_error, auth_kind) result" where
  "auth_of i a =
     (if a = lit ''bearer'' then Ok Bearer
      else if a = lit ''x-api-key'' then Ok XApiKey
      else Err (UnknownAuth i a))"

definition provider_of :: "raw_provider \<Rightarrow> connector_kind \<Rightarrow> auth_kind \<Rightarrow> provider_cfg" where
  "provider_of raw c a =
     \<lparr>connector = c, base_url = raw_base_url raw, auth = a, key_env = raw_key_env raw,
      auth_key = raw_auth_key raw, path_cfg = raw_path raw, model_cfg = raw_model raw,
      anthropic_version = raw_anthropic_version raw,
      default_max_tokens = raw_default_max_tokens raw, prompt_cache = raw_prompt_cache raw\<rparr>"

text \<open>The body of the loop for one provider: an error, nothing to insert, or a provider.\<close>

definition load_provider ::
  "bool \<Rightarrow> rstr \<Rightarrow> raw_provider \<Rightarrow> (config_error, provider_cfg option) result" where
  "load_provider allow_inline_key i raw =
     (if raw_auth_key raw \<noteq> None \<and> \<not> allow_inline_key then Err (InlineAuthKeyForbidden i)
      else
        and_then (connector_of i (raw_connector raw))
          (\<lambda>c. case c of
                 None \<Rightarrow> Ok None
               | Some c \<Rightarrow>
                   and_then (auth_of i (raw_auth raw)) (\<lambda>a. Ok (Some (provider_of raw c a)))))"

fun load_providers ::
  "bool \<Rightarrow> (rstr \<times> raw_provider) list \<Rightarrow> (rstr \<rightharpoonup> provider_cfg)
     \<Rightarrow> (config_error, rstr \<rightharpoonup> provider_cfg) result" where
  "load_providers allow [] m = Ok m"
| "load_providers allow ((i, raw) # rs) m =
     and_then (load_provider allow i raw)
       (\<lambda>p. load_providers allow rs (case p of Some p \<Rightarrow> m(i \<mapsto> p) | None \<Rightarrow> m))"

definition switch_disabled :: switch_config where
  "switch_disabled = \<lparr>sw_enabled = False, providers = Map.empty, purpose_table = Map.empty\<rparr>"

definition load_config_from_str ::
  "switch_ext \<Rightarrow> rstr \<Rightarrow> bool \<Rightarrow> (config_error, switch_config) result" where
  "load_config_from_str x t allow_inline_key =
     (case sw_toml x t of
        Inl e \<Rightarrow> Err (Parse e)
      | Inr None \<Rightarrow> Ok switch_disabled
      | Inr (Some sw) \<Rightarrow>
          and_then (load_providers allow_inline_key (raw_providers sw) Map.empty)
            (\<lambda>m. Ok \<lparr>sw_enabled = raw_enabled sw, providers = m, purpose_table = raw_purpose sw\<rparr>))"

text \<open>\<open>loaded\<close>, \<open>dirs_config_zmod_path\<close> of lib.rs: the cached configuration of the process.\<close>

definition dirs_config_zmod_path :: "rstr option \<Rightarrow> rstr option \<Rightarrow> rstr" where
  "dirs_config_zmod_path codex_home home =
     path_join
       (case codex_home of
          Some p \<Rightarrow> p
        | None \<Rightarrow> (case home of Some h \<Rightarrow> path_join h (lit ''.codex'') | None \<Rightarrow> lit ''.codex''))
       (lit ''config-zmod.toml'')"

definition loaded ::
  "switch_ext \<Rightarrow> (rstr \<Rightarrow> rstr option) \<Rightarrow> rstr option \<Rightarrow> rstr option \<Rightarrow> switch_config" where
  "loaded x read_file codex_home home =
     (case read_file (dirs_config_zmod_path codex_home home) of
        Some t \<Rightarrow>
          (case load_config_from_str x t False of Inr c \<Rightarrow> c | Inl _ \<Rightarrow> switch_disabled)
      | None \<Rightarrow> switch_disabled)"

definition load_testkey_config ::
  "switch_ext \<Rightarrow> (rstr, rstr) result \<Rightarrow> (config_error, switch_config) result" where
  "load_testkey_config x content =
     (case content of Inl e \<Rightarrow> Err (Parse e) | Inr t \<Rightarrow> load_config_from_str x t True)"

section \<open>URLs, keys and headers\<close>

datatype http_error = MissingKey | BadHeader rstr

fun http_error_text :: "http_error \<Rightarrow> rstr" where
  "http_error_text MissingKey = lit ''missing API key (set key_env or auth_key)''"
| "http_error_text (BadHeader e) = lit ''invalid header value: '' @ e"

fun default_path :: "connector_kind \<Rightarrow> rstr" where
  "default_path Chat = lit ''/chat/completions''"
| "default_path Anthropic = lit ''/v1/messages''"

definition egress_url :: "rstr \<Rightarrow> connector_kind \<Rightarrow> rstr option \<Rightarrow> rstr" where
  "egress_url base c path_override =
     trim_end_matches base 47 @ (case path_override of Some p \<Rightarrow> p | None \<Rightarrow> default_path c)"

definition resolve_key :: "(rstr \<Rightarrow> rstr option) \<Rightarrow> provider_cfg \<Rightarrow> rstr option" where
  "resolve_key env c =
     (case Option.bind (key_env c) env of
        Some v \<Rightarrow> if v \<noteq> [] then Some v else auth_key c
      | None \<Rightarrow> auth_key c)"

type_synonym header_map = "rstr \<rightharpoonup> rstr"

definition build_headers ::
  "switch_ext \<Rightarrow> auth_kind \<Rightarrow> rstr option \<Rightarrow> rstr option \<Rightarrow> (http_error, header_map) result" where
  "build_headers x a key version =
     and_then
       (case a of
          Bearer \<Rightarrow>
            (case key of
               None \<Rightarrow> Err MissingKey
             | Some k \<Rightarrow>
                 (case header_value x (lit ''Bearer '' @ k) of
                    Inl e \<Rightarrow> Err (BadHeader e)
                  | Inr v \<Rightarrow> Ok [lit ''authorization'' \<mapsto> v]))
        | XApiKey \<Rightarrow>
            (case key of
               None \<Rightarrow> Err MissingKey
             | Some k \<Rightarrow>
                 (case header_value x k of
                    Inl e \<Rightarrow> Err (BadHeader e)
                  | Inr v \<Rightarrow>
                      (case header_value x
                              (case version of Some ver \<Rightarrow> ver | None \<Rightarrow> lit ''2023-06-01'') of
                         Inl e \<Rightarrow> Err (BadHeader e)
                       | Inr vv \<Rightarrow> Ok [lit ''x-api-key'' \<mapsto> v, lit ''anthropic-version'' \<mapsto> vv]))))
       (\<lambda>h. Ok (h(lit ''content-type'' \<mapsto> lit ''application/json'')))"

section \<open>What a successful load means\<close>

lemma load_providers_Ok_iff:
  "load_providers allow rs m = Ok m' \<longleftrightarrow>
     (\<forall>(i, raw) \<in> set rs. \<exists>p. load_provider allow i raw = Ok p)
     \<and> m' = fold (\<lambda>(i, raw) m. case load_provider allow i raw of
                      Inr (Some p) \<Rightarrow> m(i \<mapsto> p) | _ \<Rightarrow> m) rs m"
proof (induction allow rs m rule: load_providers.induct)
  case (2 allow i raw rs m)
  show ?case
  proof (cases "load_provider allow i raw")
    case (Inl e)
    then show ?thesis by auto
  next
    case (Inr p)
    with 2 show ?thesis by (cases p) auto
  qed
qed auto

lemma fold_providers_lookup:
  "distinct (map fst rs) \<Longrightarrow>
     fold (\<lambda>(i, raw) m. case load_provider allow i raw of
             Inr (Some p) \<Rightarrow> m(i \<mapsto> p) | _ \<Rightarrow> m) rs m k
       = (case map_of rs k of
            None \<Rightarrow> m k
          | Some raw \<Rightarrow> (case load_provider allow k raw of Inr (Some p) \<Rightarrow> Some p | _ \<Rightarrow> m k))"
proof (induction rs arbitrary: m)
  case (Cons r rs)
  obtain i raw where r: "r = (i, raw)" by (cases r)
  from Cons.prems have i: "map_of rs i = None" by (auto simp: r map_of_eq_None_iff)
  show ?case
    using Cons i by (auto simp: r split: sum.splits option.splits)
qed simp

lemma load_providers_lookup:
  assumes "load_providers allow rs Map.empty = Ok m" and "distinct (map fst rs)"
  shows "m k = (case map_of rs k of
            None \<Rightarrow> None
          | Some raw \<Rightarrow> (case load_provider allow k raw of Inr p \<Rightarrow> p | Inl _ \<Rightarrow> None))"
  using assms fold_providers_lookup [OF assms(2), of allow Map.empty k]
  by (auto simp: load_providers_Ok_iff split: option.splits sum.splits)

lemma load_provider_no_inline_key:
  "load_provider False i raw = Ok p \<Longrightarrow> raw_auth_key raw = None"
  by (auto simp: load_provider_def split: if_splits)

lemma auth_key_provider_of [simp]: "auth_key (provider_of raw c a) = raw_auth_key raw"
  by (simp add: provider_of_def)

lemma load_provider_key:
  assumes "load_provider allow i raw = Ok (Some p)"
  shows "auth_key p = raw_auth_key raw"
proof -
  from assms obtain c a where "p = provider_of raw c a"
    by (auto simp: load_provider_def and_then_Ok_iff split: if_splits option.splits)
  then show ?thesis by simp
qed

section \<open>Properties\<close>

text \<open>
  The order in which a provider table is visited does not matter: two listings of the same
  table both fail to load, or both load to the same configuration.
\<close>

theorem load_order_irrelevant:
  assumes "distinct (map fst rs)" and "distinct (map fst rs')" and "set rs = set rs'"
  shows "load_providers allow rs Map.empty = load_providers allow rs' Map.empty
    \<or> (\<exists>e e'. load_providers allow rs Map.empty = Err e \<and> load_providers allow rs' Map.empty = Err e')"
proof (cases "load_providers allow rs Map.empty")
  case (Inr m)
  then have "\<forall>(i, raw) \<in> set rs'. \<exists>p. load_provider allow i raw = Ok p"
    using assms(3) by (simp add: load_providers_Ok_iff)
  then obtain m' where m': "load_providers allow rs' Map.empty = Ok m'"
    by (simp add: load_providers_Ok_iff)
  have "map_of rs = map_of rs'" using assms by (simp add: map_of_inject_set)
  then have "m = m'"
    using load_providers_lookup [OF Inr assms(1)] load_providers_lookup [OF m' assms(2)] by auto
  with Inr m' show ?thesis by simp
next
  case (Inl e)
  have "load_providers allow rs Map.empty \<noteq> Ok m" for m using Inl by simp
  then have "\<not> (\<forall>(i, raw) \<in> set rs'. \<exists>p. load_provider allow i raw = Ok p)"
    unfolding load_providers_Ok_iff assms(3) by blast
  then have "load_providers allow rs' Map.empty \<noteq> Ok m" for m
    unfolding load_providers_Ok_iff by blast
  with Inl show ?thesis by (cases "load_providers allow rs' Map.empty") blast+
qed

definition raw_sample :: raw_provider where
  "raw_sample = \<lparr>raw_connector = lit ''chat'', raw_base_url = None, raw_auth = lit ''bearer'',
     raw_key_env = None, raw_auth_key = None, raw_path = None, raw_model = None,
     raw_anthropic_version = None, raw_default_max_tokens = None, raw_prompt_cache = False\<rparr>"

theorem load_order_irrelevant_witness:
  "load_providers False [(lit ''a'', raw_sample), (lit ''b'', raw_sample)] Map.empty
     = load_providers False [(lit ''b'', raw_sample), (lit ''a'', raw_sample)] Map.empty"
  using load_order_irrelevant [of "[(lit ''a'', raw_sample), (lit ''b'', raw_sample)]"
      "[(lit ''b'', raw_sample), (lit ''a'', raw_sample)]" False]
  by (auto simp: load_provider_def raw_sample_def connector_of_def auth_of_def)

text \<open>
  C40. The configuration of the running process never holds an inline key: a file with one, even
  for a provider that is not routed, disables the switch, and every routed provider of a loaded
  file comes from an entry of that file without a key.
\<close>

theorem loaded_has_no_inline_key:
  assumes "providers (loaded x read_file codex_home home) k = Some p"
  shows "auth_key p = None
    \<and> (\<exists>t sw. read_file (dirs_config_zmod_path codex_home home) = Some t \<and> sw_toml x t = Ok (Some sw)
         \<and> (\<forall>(i, raw) \<in> set (raw_providers sw). raw_auth_key raw = None))"
proof -
  from assms obtain t sw m where t: "read_file (dirs_config_zmod_path codex_home home) = Some t"
    "sw_toml x t = Ok (Some sw)" "load_providers False (raw_providers sw) Map.empty = Ok m" "m k = Some p"
    by (auto simp: loaded_def switch_disabled_def load_config_from_str_def and_then_Ok_iff
        split: option.splits sum.splits)
  then have all: "\<forall>(i, raw) \<in> set (raw_providers sw). raw_auth_key raw = None"
    by (auto simp: load_providers_Ok_iff dest: load_provider_no_inline_key)
  have "\<exists>(i, raw) \<in> set rs. load_provider False i raw = Ok (Some p)"
    if "fold (\<lambda>(i, raw) m. case load_provider False i raw of
             Inr (Some p) \<Rightarrow> m(i \<mapsto> p) | _ \<Rightarrow> m) rs Map.empty k = Some p" for rs
    using that
    by (induction rs rule: rev_induct) (auto split: sum.splits option.splits if_splits)
  with t(3,4) obtain i raw where "(i, raw) \<in> set (raw_providers sw)" "load_provider False i raw = Ok (Some p)"
    unfolding load_providers_Ok_iff by blast
  then have "auth_key p = None" using load_provider_no_inline_key load_provider_key by metis
  with t all show ?thesis by blast
qed

definition switch_ext_sample :: switch_ext where
  "switch_ext_sample = switch_ext_plain
     \<lparr>sw_toml := (\<lambda>_. Ok (Some \<lparr>raw_enabled = True, raw_providers = [(lit ''a'', raw_sample)],
        raw_purpose = Map.empty\<rparr>))\<rparr>"

theorem loaded_has_no_inline_key_witness:
  "\<exists>p. providers (loaded switch_ext_sample (\<lambda>_. Some []) None None) (lit ''a'') = Some p
     \<and> auth_key p = None"
proof -
  have "\<exists>p. providers (loaded switch_ext_sample (\<lambda>_. Some []) None None) (lit ''a'') = Some p"
    by (simp add: loaded_def load_config_from_str_def switch_ext_sample_def load_provider_def
        raw_sample_def connector_of_def auth_of_def)
  then obtain p where "providers (loaded switch_ext_sample (\<lambda>_. Some []) None None) (lit ''a'') = Some p"
    by blast
  with loaded_has_no_inline_key [OF this] show ?thesis by blast
qed

end
