(* ===== verification/Switch_Translator.thy ===== *)
theory Switch_Translator
  imports Switch_Config
begin

text \<open>
  The interface of the streaming translators (zmod/llm-switch/src/connector/mod.rs): connector
  errors, the \<open>SseTranslator\<close> trait as a pair of functions on an explicit state, and the run of a
  translator over a sequence of parsed events. The locale \<open>sse_translator\<close> states the contract
  that the Chat and the Anthropic state machine share; what a whole run gives is proved once
  inside it.
\<close>

datatype conn_error = HardFail rstr | Http api_error

fun api_error_of :: "conn_error \<Rightarrow> api_error" where
  "api_error_of (Http e) = e"
| "api_error_of (HardFail msg) = InvalidRequest msg"

type_synonym 's push_fn = "'s \<Rightarrow> json \<Rightarrow> (conn_error, response_event list \<times> 's) result"
type_synonym 's finish_fn = "'s \<Rightarrow> response_event list \<times> 's"

text \<open>Push a sequence of parsed events, stopping at the first error.\<close>

fun feed :: "'s push_fn \<Rightarrow> 's \<Rightarrow> json list \<Rightarrow> (conn_error, response_event list \<times> 's) result" where
  "feed push st [] = Ok ([], st)"
| "feed push st (v # vs) =
     and_then (push st v) (\<lambda>(evs, st).
       and_then (feed push st vs) (\<lambda>(evs', st). Ok (evs @ evs', st)))"

text \<open>\<open>translate_chat_sse\<close> and \<open>translate_anthropic_sse\<close> are this run with their state machines.\<close>

definition translate ::
  "'s push_fn \<Rightarrow> 's finish_fn \<Rightarrow> 's \<Rightarrow> json list \<Rightarrow> bool \<Rightarrow> (conn_error, response_event list) result" where
  "translate push finish init vs done_flag =
     and_then (feed push init vs) (\<lambda>(evs, st).
       Ok (evs @ (if done_flag then fst (finish st) else [])))"

lemma feed_append:
  "feed push st (vs @ ws) =
     and_then (feed push st vs) (\<lambda>(evs, st).
       and_then (feed push st ws) (\<lambda>(evs', st). Ok (evs @ evs', st)))"
proof (induction vs arbitrary: st)
  case Nil
  show ?case by (cases "feed push st ws") auto
next
  case (Cons v vs)
  show ?case
  proof (cases "push st v")
    case (Inr p)
    obtain evs st1 where p: "p = (evs, st1)" by (cases p)
    show ?thesis
    proof (cases "feed push st1 vs")
      case (Inr q)
      obtain evs' st2 where q: "q = (evs', st2)" by (cases q)
      with Inr \<open>push st v = Inr p\<close> p Cons show ?thesis
        by (cases "feed push st2 ws") auto
    qed (use Inr p Cons in auto)
  qed simp
qed

section \<open>Event vocabulary\<close>

fun is_completed :: "response_event \<Rightarrow> bool" where
  "is_completed (Completed r u e) = True"
| "is_completed _ = False"

fun is_function_call :: "response_item \<Rightarrow> bool" where
  "is_function_call (FunctionCall i n None a c None) = (i = None)"
| "is_function_call _ = False"

definition delta_text :: "response_event list \<Rightarrow> rstr" where
  "delta_text evs = concat [t. OutputTextDelta t \<leftarrow> evs]"

lemma delta_text_append [simp]: "delta_text (xs @ ys) = delta_text xs @ delta_text ys"
  by (simp add: delta_text_def)

lemma delta_text_simps [simp]:
  "delta_text [] = []"
  "delta_text [OutputTextDelta t] = t"
  by (simp_all add: delta_text_def)

text \<open>The synthesised assistant message that closes a stream with text.\<close>

definition assistant_message :: "rstr \<Rightarrow> response_item" where
  "assistant_message t = Message None (lit ''assistant'') [OutputText t] None None"

definition closing :: "response_item list \<Rightarrow> rstr \<Rightarrow> rstr \<Rightarrow> token_usage option \<Rightarrow> bool option
    \<Rightarrow> response_event list" where
  "closing calls t r u e =
     map OutputItemDone calls
     @ (if t \<noteq> [] then [OutputItemDone (assistant_message t)] else [])
     @ [Completed r u e]"

text \<open>The argument texts of the finished calls of a stream.\<close>

definition call_arguments :: "response_event list \<Rightarrow> rstr list" where
  "call_arguments evs = [a. OutputItemDone (FunctionCall i n ns a c m) \<leftarrow> evs]"

lemma call_arguments_append [simp]: "call_arguments (xs @ ys) = call_arguments xs @ call_arguments ys"
  by (simp add: call_arguments_def)

lemma call_arguments_deltas: "\<forall>ev \<in> set evs. \<exists>t. ev = OutputTextDelta t \<Longrightarrow> call_arguments evs = []"
  by (induction evs) (auto simp: call_arguments_def)

lemma call_arguments_closing:
  "call_arguments (closing calls t r u e) = call_arguments (map OutputItemDone calls)"
  by (simp add: closing_def) (simp add: call_arguments_def assistant_message_def)

section \<open>Helpers of the state machines\<close>

text \<open>\<open>Option::get_or_insert_with\<close>, \<open>unwrap_or\<close> and \<open>unwrap_or_default\<close>.\<close>

definition get_or_insert :: "'a \<Rightarrow> 'a option \<Rightarrow> 'a option" where
  "get_or_insert v m = (case m of Some w \<Rightarrow> Some w | None \<Rightarrow> Some v)"

definition unwrap_or :: "'a \<Rightarrow> 'a option \<Rightarrow> 'a" where
  "unwrap_or d m = (case m of Some v \<Rightarrow> v | None \<Rightarrow> d)"

text \<open>Identifiers for calls and responses that the upstream left unnamed.\<close>

definition synth_id :: "string \<Rightarrow> u64 \<Rightarrow> rstr \<times> u64" where
  "synth_id kind counter =
     (let counter = counter + 1
      in (lit ''llmswitch-'' @ lit kind @ lit ''-'' @ show_nat (unat counter), counter))"

section \<open>The contract\<close>

locale sse_translator =
  fixes push :: "'s push_fn"
    and finish :: "'s finish_fn"
    and init :: 's
    and text_of :: "'s \<Rightarrow> rstr"
    and inv :: "'s \<Rightarrow> bool"
  assumes inv_init: "inv init"
    and text_init: "text_of init = []"
    and push_inv: "inv st \<Longrightarrow> push st v = Ok (evs, st') \<Longrightarrow> inv st'"
    and push_deltas: "push st v = Ok (evs, st') \<Longrightarrow> ev \<in> set evs \<Longrightarrow> \<exists>t. ev = OutputTextDelta t"
    and push_text: "push st v = Ok (evs, st') \<Longrightarrow> text_of st' = text_of st @ delta_text evs"
    and finish_form: "inv st \<Longrightarrow> \<exists>calls r u e. fst (finish st) = closing calls (text_of st) r u e
                        \<and> (\<forall>c \<in> set calls. is_function_call c)"
begin

lemma feed_props:
  "feed push st vs = Ok (evs, st') \<Longrightarrow>
     (inv st \<longrightarrow> inv st') \<and> (\<forall>ev \<in> set evs. \<exists>t. ev = OutputTextDelta t)
     \<and> text_of st' = text_of st @ delta_text evs"
proof (induction vs arbitrary: st evs)
  case (Cons v vs)
  then obtain e1 st1 e2 where p: "push st v = Ok (e1, st1)" "feed push st1 vs = Ok (e2, st')"
    and evs: "evs = e1 @ e2"
    by (auto simp: and_then_Ok_iff)
  with Cons.IH [OF p(2)] push_inv [OF _ p(1)] push_deltas [OF p(1)] push_text [OF p(1)]
  show ?case by auto
qed simp

lemma translate_complete:
  assumes "translate push finish init vs True = Ok evs"
  shows "\<exists>deltas calls r u e. evs = deltas @ closing calls (delta_text deltas) r u e
     \<and> (\<forall>ev \<in> set deltas. \<exists>t. ev = OutputTextDelta t) \<and> (\<forall>c \<in> set calls. is_function_call c)"
proof -
  from assms obtain deltas st where f: "feed push init vs = Ok (deltas, st)"
    and evs: "evs = deltas @ fst (finish st)"
    by (auto simp: translate_def and_then_Ok_iff)
  from feed_props [OF f] have st: "inv st" "text_of st = delta_text deltas"
    and d: "\<forall>ev \<in> set deltas. \<exists>t. ev = OutputTextDelta t"
    by (auto simp: inv_init text_init)
  from finish_form [OF st(1)] st(2) evs d show ?thesis by metis
qed

lemma translate_one_completed:
  assumes "translate push finish init vs True = Ok evs"
  shows "length (filter is_completed evs) = 1 \<and> is_completed (last evs)"
proof -
  obtain deltas calls r u e where evs: "evs = deltas @ closing calls (delta_text deltas) r u e"
    and d: "\<forall>ev \<in> set deltas. \<exists>t. ev = OutputTextDelta t"
    using translate_complete [OF assms] by blast
  from d have "filter is_completed deltas = []" by (auto simp: filter_empty_conv)
  moreover have "filter is_completed (map OutputItemDone calls) = []" by (simp add: filter_empty_conv)
  ultimately show ?thesis by (simp add: evs closing_def)
qed

end

end
