(* ===== verification/Switch_Chat_Sse.thy ===== *)
theory Switch_Chat_Sse
  imports Switch_Translator
begin

text \<open>
  The Chat Completions stream translator (zmod/llm-switch/src/connector/chat_sse.rs): text deltas
  are passed on and accumulated, tool-call deltas are aggregated by index in an ordered map, and
  \<open>finish\<close> emits the tool calls in index order, the assistant message and the completion.
\<close>

record tool_acc =
  acc_call_id :: "rstr option"
  acc_name :: "rstr option"
  acc_arguments :: rstr

definition tool_acc_default :: tool_acc where
  "tool_acc_default = \<lparr>acc_call_id = None, acc_name = None, acc_arguments = []\<rparr>"

record chat_sse_state =
  ch_text :: rstr
  ch_response_id :: "rstr option"
  ch_finish_reason :: "rstr option"
  ch_usage :: "json option"
  ch_tool_calls :: "tool_acc btree"
  ch_synth_counter :: u64

definition chat_sse_default :: chat_sse_state where
  "chat_sse_default =
     \<lparr>ch_text = [], ch_response_id = None, ch_finish_reason = None, ch_usage = None,
      ch_tool_calls = [], ch_synth_counter = 0\<rparr>"

definition tc_index :: "json \<Rightarrow> int" where
  "tc_index tc = (case get_i64 tc (lit ''index'') of Some i \<Rightarrow> sint i | None \<Rightarrow> 0)"

definition tool_delta :: "json \<Rightarrow> tool_acc \<Rightarrow> tool_acc" where
  "tool_delta tc acc =
     (let acc = (case get_str tc (lit ''id'') of
                   Some i \<Rightarrow> if i \<noteq> [] then acc\<lparr>acc_call_id := Some i\<rparr> else acc
                 | None \<Rightarrow> acc)
      in case jget tc (lit ''function'') of
           None \<Rightarrow> acc
         | Some func \<Rightarrow>
             let acc = (case get_str func (lit ''name'') of
                          Some n \<Rightarrow> if n \<noteq> [] then acc\<lparr>acc_name := Some n\<rparr> else acc
                        | None \<Rightarrow> acc)
             in case get_str func (lit ''arguments'') of
                  Some args \<Rightarrow> acc\<lparr>acc_arguments := acc_arguments acc @ args\<rparr>
                | None \<Rightarrow> acc)"

definition chat_tool_deltas :: "json list \<Rightarrow> tool_acc btree \<Rightarrow> tool_acc btree" where
  "chat_tool_deltas tcs m =
     fold (\<lambda>tc m. bt_entry tool_acc_default (tc_index tc) (tool_delta tc) m) tcs m"

definition chat_header :: "json \<Rightarrow> chat_sse_state \<Rightarrow> chat_sse_state" where
  "chat_header chunk st =
     (let st = (case get_str chunk (lit ''id'') of
                  Some i \<Rightarrow> if i \<noteq> [] then st\<lparr>ch_response_id := get_or_insert i (ch_response_id st)\<rparr>
                           else st
                | None \<Rightarrow> st)
      in case jget chunk (lit ''usage'') of
           Some u \<Rightarrow> if u \<noteq> JNull then st\<lparr>ch_usage := Some u\<rparr> else st
         | None \<Rightarrow> st)"

definition first_choice :: "json \<Rightarrow> json option" where
  "first_choice chunk =
     Option.bind (get_array chunk (lit ''choices'')) (\<lambda>a. case a of c # _ \<Rightarrow> Some c | [] \<Rightarrow> None)"

definition delta_tool_calls :: "json option \<Rightarrow> json list" where
  "delta_tool_calls delta =
     (case Option.bind delta (\<lambda>d. get_array d (lit ''tool_calls'')) of Some tcs \<Rightarrow> tcs | None \<Rightarrow> [])"

definition push_chunk :: "switch_ext \<Rightarrow> chat_sse_state push_fn" where
  "push_chunk x st chunk =
     (case jget chunk (lit ''error'') of
        Some err \<Rightarrow> Err (HardFail (lit ''upstream error in SSE chunk: '' @ sw_print x err))
      | None \<Rightarrow>
          let st = chat_header chunk st in
          case first_choice chunk of
            None \<Rightarrow> Ok ([], st)
          | Some choice \<Rightarrow>
              let st = (case get_str choice (lit ''finish_reason'') of
                          Some fr \<Rightarrow> if fr \<noteq> [] then st\<lparr>ch_finish_reason := Some fr\<rparr> else st
                        | None \<Rightarrow> st);
                  delta = jget choice (lit ''delta'');
                  (evs, st) =
                    (case Option.bind delta (\<lambda>d. get_str d (lit ''content'')) of
                       Some content \<Rightarrow>
                         if content \<noteq> []
                         then ([OutputTextDelta content], st\<lparr>ch_text := ch_text st @ content\<rparr>)
                         else ([], st)
                     | None \<Rightarrow> ([], st));
                  st = st\<lparr>ch_tool_calls := chat_tool_deltas (delta_tool_calls delta) (ch_tool_calls st)\<rparr>
              in Ok (evs, st))"

fun chat_calls :: "tool_acc btree \<Rightarrow> u64 \<Rightarrow> response_item list \<times> u64" where
  "chat_calls [] n = ([], n)"
| "chat_calls ((i, acc) # m) n =
     (let (call_id, n) = (case acc_call_id acc of Some c \<Rightarrow> (c, n) | None \<Rightarrow> synth_id ''call'' n);
          (calls, n) = chat_calls m n
      in (FunctionCall None (unwrap_or [] (acc_name acc)) None (acc_arguments acc) call_id None # calls, n))"

definition chat_end_turn :: "rstr option \<Rightarrow> bool option" where
  "chat_end_turn fr =
     (if fr = Some (lit ''stop'') then Some True
      else if fr = Some (lit ''tool_calls'') then Some False
      else if fr = Some (lit ''length'') then Some False
      else None)"

definition map_usage :: "json \<Rightarrow> token_usage" where
  "map_usage u =
     \<lparr>input_tokens = unwrap_or 0 (get_i64 u (lit ''prompt_tokens'')),
      cached_input_tokens =
        unwrap_or 0 (Option.bind (jget u (lit ''prompt_tokens_details''))
          (\<lambda>d. get_i64 d (lit ''cached_tokens''))),
      output_tokens = unwrap_or 0 (get_i64 u (lit ''completion_tokens'')),
      reasoning_output_tokens = 0,
      total_tokens = unwrap_or 0 (get_i64 u (lit ''total_tokens''))\<rparr>"

definition chat_finish :: "chat_sse_state finish_fn" where
  "chat_finish st =
     (let (calls, n) = chat_calls (ch_tool_calls st) (ch_synth_counter st);
          msg = (if ch_text st \<noteq> [] then [OutputItemDone (assistant_message (ch_text st))] else []);
          (r, n) = (case ch_response_id st of Some r \<Rightarrow> (r, n) | None \<Rightarrow> synth_id ''resp'' n)
      in (map OutputItemDone calls @ msg
            @ [Completed r (map_option map_usage (ch_usage st)) (chat_end_turn (ch_finish_reason st))],
          st\<lparr>ch_tool_calls := [], ch_text := [], ch_response_id := None, ch_synth_counter := n\<rparr>))"

definition translate_chat_sse ::
  "switch_ext \<Rightarrow> json list \<Rightarrow> bool \<Rightarrow> (conn_error, response_event list) result" where
  "translate_chat_sse x chunks done_flag =
     translate (push_chunk x) chat_finish chat_sse_default chunks done_flag"

section \<open>The contract holds\<close>

lemma bt_inv_tool_deltas: "bt_inv m \<Longrightarrow> bt_inv (chat_tool_deltas tcs m)"
  unfolding chat_tool_deltas_def
  by (induction tcs arbitrary: m) (simp_all add: bt_entry_eq bt.inv_entry)

lemma chat_header_fields [simp]:
  "ch_text (chat_header chunk st) = ch_text st"
  "ch_tool_calls (chat_header chunk st) = ch_tool_calls st"
  "ch_finish_reason (chat_header chunk st) = ch_finish_reason st"
  by (simp_all add: chat_header_def Let_def split: option.splits)

lemma push_chunk_effect:
  assumes "push_chunk x st chunk = Ok (evs, st')"
  shows "ch_tool_calls st' = chat_tool_deltas
        (case first_choice chunk of
           Some choice \<Rightarrow> delta_tool_calls (jget choice (lit ''delta'')) | None \<Rightarrow> []) (ch_tool_calls st)
     \<and> (evs = [] \<and> ch_text st' = ch_text st
        \<or> (\<exists>t. evs = [OutputTextDelta t] \<and> ch_text st' = ch_text st @ t))"
  using assms
  by (auto simp: push_chunk_def Let_def chat_tool_deltas_def split: option.splits if_splits)

lemma chat_calls_form: "c \<in> set (fst (chat_calls m n)) \<Longrightarrow> is_function_call c"
  by (induction m n rule: chat_calls.induct) (auto simp: Let_def split: prod.splits option.splits)

lemma chat_finish_closing:
  "\<exists>r. fst (chat_finish st) =
     closing (fst (chat_calls (ch_tool_calls st) (ch_synth_counter st))) (ch_text st) r
       (map_option map_usage (ch_usage st)) (chat_end_turn (ch_finish_reason st))"
  by (auto simp: chat_finish_def closing_def Let_def split: prod.splits option.splits)

interpretation chat_sse: sse_translator "push_chunk x" chat_finish chat_sse_default ch_text
    "\<lambda>st. bt_inv (ch_tool_calls st)" for x
proof unfold_locales
  fix st
  show "\<exists>calls r u e. fst (chat_finish st) = closing calls (ch_text st) r u e
      \<and> (\<forall>c \<in> set calls. is_function_call c)"
    using chat_finish_closing chat_calls_form by blast
qed (auto dest!: push_chunk_effect simp: bt_inv_tool_deltas chat_sse_default_def bt.inv_empty)

section \<open>Aggregation by index\<close>

text \<open>
  The fragments of one chunk: the tool-call deltas of its first choice, with their index. What is
  accumulated for an index is the fold of its fragments, in order.
\<close>

definition chunk_fragments :: "json \<Rightarrow> json list" where
  "chunk_fragments chunk =
     (case first_choice chunk of
        Some choice \<Rightarrow> delta_tool_calls (jget choice (lit ''delta'')) | None \<Rightarrow> [])"

definition with_index :: "int \<Rightarrow> json list \<Rightarrow> json list" where
  "with_index i tcs = filter (\<lambda>tc. tc_index tc = i) tcs"

lemma chat_tool_deltas_lookup:
  "bt_inv m \<Longrightarrow> map_of (chat_tool_deltas tcs m) i =
     (if with_index i tcs = [] then map_of m i
      else Some (fold tool_delta (with_index i tcs) (unwrap_or tool_acc_default (map_of m i))))"
proof (induction tcs arbitrary: m)
  case (Cons tc tcs)
  let ?m = "bt_entry tool_acc_default (tc_index tc) (tool_delta tc) m"
  have inv: "bt_inv ?m" using Cons.prems by (simp add: bt_entry_eq bt.inv_entry)
  have get: "map_of ?m i = (if i = tc_index tc
      then Some (tool_delta tc (unwrap_or tool_acc_default (map_of m i))) else map_of m i)"
    using Cons.prems by (simp add: bt_entry_eq bt.get_entry unwrap_or_def)
  have "chat_tool_deltas (tc # tcs) m = chat_tool_deltas tcs ?m" by (simp add: chat_tool_deltas_def)
  with Cons.IH [OF inv] get show ?case
    by (auto simp: with_index_def unwrap_or_def)
qed (simp add: chat_tool_deltas_def with_index_def)

lemma chat_tool_deltas_append:
  "chat_tool_deltas (xs @ ys) m = chat_tool_deltas ys (chat_tool_deltas xs m)"
  by (simp add: chat_tool_deltas_def)

lemma feed_tool_calls:
  "feed (push_chunk x) st chunks = Ok (evs, st') \<Longrightarrow>
     ch_tool_calls st' = chat_tool_deltas (concat (map chunk_fragments chunks)) (ch_tool_calls st)"
proof (induction chunks arbitrary: st evs)
  case (Cons c cs)
  then obtain e1 st1 e2 where p: "push_chunk x st c = Ok (e1, st1)" "feed (push_chunk x) st1 cs = Ok (e2, st')"
    by (auto simp: and_then_Ok_iff)
  from push_chunk_effect [OF p(1)] Cons.IH [OF p(2)] show ?case
    by (simp add: chunk_fragments_def chat_tool_deltas_append)
qed (simp add: chat_tool_deltas_def)

text \<open>The arguments text that one fragment adds.\<close>

definition fragment_args :: "json \<Rightarrow> rstr" where
  "fragment_args tc =
     unwrap_or [] (Option.bind (jget tc (lit ''function'')) (\<lambda>f. get_str f (lit ''arguments'')))"

lemma tool_delta_args: "acc_arguments (tool_delta tc acc) = acc_arguments acc @ fragment_args tc"
  by (simp add: tool_delta_def fragment_args_def unwrap_or_def Let_def split: option.splits)

lemma fold_tool_delta_args:
  "acc_arguments (fold tool_delta tcs acc) = acc_arguments acc @ concat (map fragment_args tcs)"
  by (induction tcs arbitrary: acc) (simp_all add: tool_delta_args)

lemma chat_calls_arguments:
  "list_all2 (\<lambda>c p. \<exists>n cid. c = FunctionCall None n None (acc_arguments (snd p)) cid None
       \<and> n = unwrap_or [] (acc_name (snd p)) \<and> (\<forall>i. acc_call_id (snd p) = Some i \<longrightarrow> cid = i))
     (fst (chat_calls m n)) m"
  by (induction m n rule: chat_calls.induct)
     (auto simp: Let_def split: prod.splits option.splits)

section \<open>Properties\<close>

text \<open>
  A Chat stream that ends without an upstream error is: text deltas, then finished tool
  calls, then (when there was text) one assistant message holding exactly the concatenated
  deltas, then the completion, which occurs once and last.
\<close>

theorem chat_stream_shape:
  assumes "translate_chat_sse x chunks True = Ok evs"
  shows "(\<exists>deltas calls r u e. evs = deltas @ closing calls (delta_text deltas) r u e
            \<and> (\<forall>ev \<in> set deltas. \<exists>t. ev = OutputTextDelta t) \<and> (\<forall>c \<in> set calls. is_function_call c))
    \<and> length (filter is_completed evs) = 1 \<and> is_completed (last evs)"
  using assms chat_sse.translate_complete [of x chunks evs] chat_sse.translate_one_completed [of x chunks evs]
  by (simp add: translate_chat_sse_def)

definition chat_text_chunk :: json where
  "chat_text_chunk = jobj [(lit ''id'', jstr ''r1''),
     (lit ''choices'', JArray [jobj [(lit ''delta'', jobj [(lit ''content'', jstr ''hi'')])]])]"

lemma chat_text_chunk_run:
  "translate_chat_sse switch_ext_plain [chat_text_chunk] True
     = Ok [OutputTextDelta (lit ''hi''), OutputItemDone (assistant_message (lit ''hi'')),
           Completed (lit ''r1'') None None]"
  by (simp add: translate_chat_sse_def translate_def push_chunk_def chat_text_chunk_def json_simps
      chat_header_def first_choice_def delta_tool_calls_def chat_tool_deltas_def chat_sse_default_def
      get_or_insert_def chat_finish_def chat_end_turn_def assistant_message_def)

theorem chat_stream_shape_witness:
  "length (filter is_completed [OutputTextDelta (lit ''hi''),
     OutputItemDone (assistant_message (lit ''hi'')), Completed (lit ''r1'') None None]) = 1"
  using chat_stream_shape [OF chat_text_chunk_run] by blast

lemma call_arguments_chat_calls:
  "call_arguments (map OutputItemDone (fst (chat_calls m n))) = map (\<lambda>p. acc_arguments (snd p)) m"
proof -
  have "call_arguments (map OutputItemDone cs) = map (\<lambda>p. acc_arguments (snd p)) m"
    if "list_all2 (\<lambda>c p. \<exists>n cid. c = FunctionCall None n None (acc_arguments (snd p)) cid None) cs m"
    for cs and m :: "tool_acc btree"
    using that by (induction rule: list_all2_induct) (auto simp: call_arguments_def)
  moreover have "list_all2 (\<lambda>c p. \<exists>n cid. c = FunctionCall None n None (acc_arguments (snd p)) cid None)
      (fst (chat_calls m n)) m"
    using chat_calls_arguments [of m n] by (rule list_all2_mono) blast
  ultimately show ?thesis by blast
qed

lemma with_index_Nil_iff: "with_index i tcs = [] \<longleftrightarrow> i \<notin> tc_index ` set tcs"
  by (auto simp: with_index_def filter_empty_conv)

text \<open>What the ordered map holds after all fragments have been applied.\<close>

lemma aggregated_entries:
  fixes frags
  defines "m \<equiv> chat_tool_deltas frags []"
  shows "sorted_wrt (<) (map fst m)" "set (map fst m) = tc_index ` set frags"
    "map (\<lambda>p. acc_arguments (snd p)) m
       = map (\<lambda>i. concat (map fragment_args (with_index i frags))) (map fst m)"
proof -
  have inv: "bt_inv m" unfolding m_def by (rule bt_inv_tool_deltas [OF bt.inv_empty])
  show "sorted_wrt (<) (map fst m)" using inv by (simp add: bt_inv_def)
  have get: "map_of m i = (if with_index i frags = [] then None
      else Some (fold tool_delta (with_index i frags) tool_acc_default))" for i
    unfolding m_def using chat_tool_deltas_lookup [OF bt.inv_empty, of frags i]
    by (simp add: unwrap_or_def)
  show "set (map fst m) = tc_index ` set frags"
    using get by (auto simp: with_index_Nil_iff dom_map_of_conv_image_fst [symmetric] split: if_splits)
  have "acc_arguments (snd p) = concat (map fragment_args (with_index (fst p) frags))" if "p \<in> set m" for p
  proof -
    from that inv have "map_of m (fst p) = Some (snd p)"
      using bt.entries_get [OF inv, of "fst p" "snd p"] by simp
    with get have "snd p = fold tool_delta (with_index (fst p) frags) tool_acc_default"
      by (simp split: if_splits)
    then show ?thesis by (simp add: fold_tool_delta_args tool_acc_default_def)
  qed
  then show "map (\<lambda>p. acc_arguments (snd p)) m
       = map (\<lambda>i. concat (map fragment_args (with_index i frags))) (map fst m)" by simp
qed

text \<open>
  C32. Tool-call fragments are reassembled: the finished tool calls are one per index that occurs
  in the stream, in increasing index order, and the arguments of each are the argument fragments
  of its index, concatenated in arrival order.
\<close>

theorem chat_tool_calls_reassembled:
  assumes "translate_chat_sse x chunks True = Ok evs"
  shows "\<exists>idxs. sorted_wrt (<) idxs
     \<and> set idxs = tc_index ` set (concat (map chunk_fragments chunks))
     \<and> call_arguments evs =
         map (\<lambda>i. concat (map fragment_args (with_index i (concat (map chunk_fragments chunks))))) idxs"
proof -
  define frags where "frags = concat (map chunk_fragments chunks)"
  from assms obtain deltas st where f: "feed (push_chunk x) chat_sse_default chunks = Ok (deltas, st)"
    and evs: "evs = deltas @ fst (chat_finish st)"
    by (auto simp: translate_chat_sse_def translate_def and_then_Ok_iff)
  have tc: "ch_tool_calls st = chat_tool_deltas frags []"
    using feed_tool_calls [OF f] by (simp add: frags_def chat_sse_default_def)
  have "call_arguments deltas = []"
    using chat_sse.feed_props [OF f] by (intro call_arguments_deltas) blast
  moreover obtain r where "fst (chat_finish st) =
     closing (fst (chat_calls (ch_tool_calls st) (ch_synth_counter st))) (ch_text st) r
       (map_option map_usage (ch_usage st)) (chat_end_turn (ch_finish_reason st))"
    using chat_finish_closing by blast
  ultimately have "call_arguments evs = map (\<lambda>p. acc_arguments (snd p)) (chat_tool_deltas frags [])"
    by (simp add: evs call_arguments_closing call_arguments_chat_calls tc)
  then show ?thesis
    unfolding frags_def [symmetric] using aggregated_entries [of frags] by (metis (no_types))
qed

definition chat_call_chunk :: "nat \<Rightarrow> string \<Rightarrow> json" where
  "chat_call_chunk i args =
     jobj [(lit ''choices'', JArray [jobj [(lit ''delta'', jobj [(lit ''tool_calls'', JArray [
       jobj [(lit ''index'', jnat (of_nat i)),
             (lit ''function'', jobj [(lit ''arguments'', jstr args)])]])])]])]"

theorem chat_tool_calls_reassembled_witness:
  "\<exists>evs idxs. translate_chat_sse switch_ext_plain
        [chat_call_chunk 1 ''a'', chat_call_chunk 0 ''b'', chat_call_chunk 1 ''c''] True = Ok evs
     \<and> set idxs = {0, 1} \<and> call_arguments evs = map (\<lambda>i.
         concat (map fragment_args (with_index i (concat (map chunk_fragments
           [chat_call_chunk 1 ''a'', chat_call_chunk 0 ''b'', chat_call_chunk 1 ''c'']))))) idxs"
proof -
  let ?cs = "[chat_call_chunk 1 ''a'', chat_call_chunk 0 ''b'', chat_call_chunk 1 ''c'']"
  have frag: "chunk_fragments (chat_call_chunk i a) = [jobj [(lit ''index'', jnat (of_nat i)),
             (lit ''function'', jobj [(lit ''arguments'', jstr a)])]]" for i a
    by (simp add: chunk_fragments_def chat_call_chunk_def first_choice_def delta_tool_calls_def json_simps)
  have idx: "tc_index (jobj [(lit ''index'', jnat n),
      (lit ''function'', jobj [(lit ''arguments'', jstr a)])]) = sint n" if "unat n < 2 ^ 63" for n a
    using that by (simp add: tc_index_def json_simps)
  have "\<exists>evs. translate_chat_sse switch_ext_plain ?cs True = Ok evs"
    by (simp add: translate_chat_sse_def translate_def push_chunk_def chat_call_chunk_def json_simps
        chat_header_def first_choice_def Let_def)
  then obtain evs where evs: "translate_chat_sse switch_ext_plain ?cs True = Ok evs" by blast
  from chat_tool_calls_reassembled [OF evs] evs show ?thesis
    by (auto simp: frag idx insert_commute)
qed

end
