(* ===== verification/Switch_Anthropic_Sse.thy ===== *)
theory Switch_Anthropic_Sse
  imports Switch_Translator
begin

text \<open>
  The Anthropic Messages stream translator (zmod/llm-switch/src/connector/anthropic_sse.rs):
  content blocks are aggregated by index; tool-use blocks become function calls, text deltas are
  passed on and accumulated, token counts are added up in wrapping 64-bit arithmetic.
\<close>

record block_acc =
  is_tool_use :: bool
  bl_call_id :: "rstr option"
  bl_name :: "rstr option"
  bl_partial_json :: rstr

definition block_acc_default :: block_acc where
  "block_acc_default = \<lparr>is_tool_use = False, bl_call_id = None, bl_name = None, bl_partial_json = []\<rparr>"

record anthropic_sse_state =
  an_text :: rstr
  an_response_id :: "rstr option"
  an_stop_reason :: "rstr option"
  an_input_tokens :: i64
  an_cached_input_tokens :: i64
  an_cache_creation_input_tokens :: i64
  an_output_tokens :: i64
  an_blocks :: "block_acc btree"
  an_synth_counter :: u64

definition anthropic_sse_default :: anthropic_sse_state where
  "anthropic_sse_default =
     \<lparr>an_text = [], an_response_id = None, an_stop_reason = None, an_input_tokens = 0,
      an_cached_input_tokens = 0, an_cache_creation_input_tokens = 0, an_output_tokens = 0,
      an_blocks = [], an_synth_counter = 0\<rparr>"

definition message_start :: "json \<Rightarrow> anthropic_sse_state \<Rightarrow> anthropic_sse_state" where
  "message_start evt st =
     (case jget evt (lit ''message'') of
        None \<Rightarrow> st
      | Some message \<Rightarrow>
          let st = (case get_str message (lit ''id'') of
                      Some i \<Rightarrow> if i \<noteq> [] then st\<lparr>an_response_id := get_or_insert i (an_response_id st)\<rparr>
                               else st
                    | None \<Rightarrow> st)
          in case jget message (lit ''usage'') of
               None \<Rightarrow> st
             | Some usage \<Rightarrow>
                 let st = (case get_i64 usage (lit ''input_tokens'') of
                             Some n \<Rightarrow> st\<lparr>an_input_tokens := n\<rparr> | None \<Rightarrow> st);
                     st = (case get_i64 usage (lit ''cache_read_input_tokens'') of
                             Some n \<Rightarrow> st\<lparr>an_cached_input_tokens := n\<rparr> | None \<Rightarrow> st)
                 in case get_i64 usage (lit ''cache_creation_input_tokens'') of
                      Some n \<Rightarrow> st\<lparr>an_cache_creation_input_tokens := n\<rparr> | None \<Rightarrow> st)"

definition evt_index :: "json \<Rightarrow> int" where
  "evt_index evt = (case get_i64 evt (lit ''index'') of Some i \<Rightarrow> sint i | None \<Rightarrow> 0)"

definition start_block :: "json \<Rightarrow> block_acc \<Rightarrow> block_acc" where
  "start_block evt acc =
     (let cb = jget evt (lit ''content_block'') in
      if Option.bind cb (\<lambda>c. get_str c (lit ''type'')) = Some (lit ''tool_use'')
      then acc\<lparr>is_tool_use := True,
               bl_call_id := Option.bind cb (\<lambda>c. get_str c (lit ''id'')),
               bl_name := Option.bind cb (\<lambda>c. get_str c (lit ''name''))\<rparr>
      else acc)"

definition content_block_delta ::
  "json \<Rightarrow> anthropic_sse_state \<Rightarrow> response_event list \<times> anthropic_sse_state" where
  "content_block_delta evt st =
     (let delta = jget evt (lit ''delta''); kind = Option.bind delta (\<lambda>d. get_str d (lit ''type'')) in
      if kind = Some (lit ''text_delta'') then
        (case Option.bind delta (\<lambda>d. get_str d (lit ''text'')) of
           Some t \<Rightarrow> ([OutputTextDelta t], st\<lparr>an_text := an_text st @ t\<rparr>)
         | None \<Rightarrow> ([], st))
      else if kind = Some (lit ''input_json_delta'') then
        (case Option.bind delta (\<lambda>d. get_str d (lit ''partial_json'')) of
           Some p \<Rightarrow>
             ([], st\<lparr>an_blocks := bt_entry block_acc_default (evt_index evt)
                      (\<lambda>acc. acc\<lparr>bl_partial_json := bl_partial_json acc @ p\<rparr>) (an_blocks st)\<rparr>)
         | None \<Rightarrow> ([], st))
      else ([], st))"

definition message_delta :: "json \<Rightarrow> anthropic_sse_state \<Rightarrow> anthropic_sse_state" where
  "message_delta evt st =
     (let st = (case Option.bind (jget evt (lit ''delta'')) (\<lambda>d. get_str d (lit ''stop_reason'')) of
                  Some sr \<Rightarrow> st\<lparr>an_stop_reason := Some sr\<rparr> | None \<Rightarrow> st)
      in case Option.bind (jget evt (lit ''usage'')) (\<lambda>u. get_i64 u (lit ''output_tokens'')) of
           Some n \<Rightarrow> st\<lparr>an_output_tokens := n\<rparr> | None \<Rightarrow> st)"

definition push_event :: "switch_ext \<Rightarrow> anthropic_sse_state push_fn" where
  "push_event x st evt =
     (let kind = get_str evt (lit ''type'') in
      if kind = Some (lit ''error'') then
        Err (HardFail (lit ''anthropic upstream error: ''
          @ (case jget evt (lit ''error'') of Some err \<Rightarrow> sw_print x err | None \<Rightarrow> [])))
      else if kind = Some (lit ''message_start'') then Ok ([], message_start evt st)
      else if kind = Some (lit ''content_block_start'') then
        Ok ([], st\<lparr>an_blocks := bt_entry block_acc_default (evt_index evt) (start_block evt) (an_blocks st)\<rparr>)
      else if kind = Some (lit ''content_block_delta'') then Ok (content_block_delta evt st)
      else if kind = Some (lit ''message_delta'') then Ok ([], message_delta evt st)
      else Ok ([], st))"

text \<open>Blocks in index order: tool-use blocks become calls, other blocks are dropped.\<close>

fun anthropic_calls :: "block_acc btree \<Rightarrow> u64 \<Rightarrow> response_item list \<times> u64" where
  "anthropic_calls [] n = ([], n)"
| "anthropic_calls ((i, acc) # m) n =
     (if is_tool_use acc then
        let args = (if bl_partial_json acc = [] then lit ''{}'' else bl_partial_json acc);
            (call_id, n) = (case bl_call_id acc of Some c \<Rightarrow> (c, n) | None \<Rightarrow> synth_id ''call'' n);
            (calls, n) = anthropic_calls m n
        in (FunctionCall None (unwrap_or [] (bl_name acc)) None args call_id None # calls, n)
      else anthropic_calls m n)"

definition anthropic_end_turn :: "rstr option \<Rightarrow> bool option" where
  "anthropic_end_turn sr =
     (if sr = Some (lit ''end_turn'') then Some True
      else if sr = Some (lit ''tool_use'') then Some False
      else None)"

definition anthropic_usage :: "anthropic_sse_state \<Rightarrow> token_usage" where
  "anthropic_usage st =
     \<lparr>input_tokens = an_input_tokens st, cached_input_tokens = an_cached_input_tokens st,
      output_tokens = an_output_tokens st, reasoning_output_tokens = 0,
      total_tokens = an_cached_input_tokens st + an_cache_creation_input_tokens st
        + an_input_tokens st + an_output_tokens st\<rparr>"

definition anthropic_finish :: "anthropic_sse_state finish_fn" where
  "anthropic_finish st =
     (let (calls, n) = anthropic_calls (an_blocks st) (an_synth_counter st);
          msg = (if an_text st \<noteq> [] then [OutputItemDone (assistant_message (an_text st))] else []);
          (r, n) = (case an_response_id st of Some r \<Rightarrow> (r, n) | None \<Rightarrow> synth_id ''resp'' n)
      in (map OutputItemDone calls @ msg
            @ [Completed r (Some (anthropic_usage st)) (anthropic_end_turn (an_stop_reason st))],
          st\<lparr>an_blocks := [], an_text := [], an_response_id := None, an_synth_counter := n\<rparr>))"

definition translate_anthropic_sse ::
  "switch_ext \<Rightarrow> json list \<Rightarrow> bool \<Rightarrow> (conn_error, response_event list) result" where
  "translate_anthropic_sse x evts done_flag =
     translate (push_event x) anthropic_finish anthropic_sse_default evts done_flag"

section \<open>The contract holds\<close>

lemma message_start_fields [simp]:
  "an_text (message_start evt st) = an_text st" "an_blocks (message_start evt st) = an_blocks st"
  by (simp_all add: message_start_def Let_def split: option.splits)

lemma message_delta_fields [simp]:
  "an_text (message_delta evt st) = an_text st" "an_blocks (message_delta evt st) = an_blocks st"
  by (simp_all add: message_delta_def Let_def split: option.splits)

text \<open>The effect of one event on the blocks: an update of the entry of its index, or none.\<close>

definition block_update :: "json \<Rightarrow> (block_acc \<Rightarrow> block_acc) option" where
  "block_update evt =
     (let kind = get_str evt (lit ''type''); delta = jget evt (lit ''delta'') in
      if kind = Some (lit ''content_block_start'') then Some (start_block evt)
      else if kind = Some (lit ''content_block_delta'')
              \<and> Option.bind delta (\<lambda>d. get_str d (lit ''type'')) = Some (lit ''input_json_delta'')
      then map_option (\<lambda>p acc. acc\<lparr>bl_partial_json := bl_partial_json acc @ p\<rparr>)
             (Option.bind delta (\<lambda>d. get_str d (lit ''partial_json'')))
      else None)"

definition apply_block :: "json \<Rightarrow> block_acc btree \<Rightarrow> block_acc btree" where
  "apply_block evt m =
     (case block_update evt of
        Some f \<Rightarrow> bt_entry block_acc_default (evt_index evt) f m | None \<Rightarrow> m)"

lemma content_block_delta_effect:
  assumes "content_block_delta evt st = (evs, st')" and "get_str evt (lit ''type'') = Some (lit ''content_block_delta'')"
  shows "an_blocks st' = apply_block evt (an_blocks st)
    \<and> (evs = [] \<and> an_text st' = an_text st
       \<or> (\<exists>t. evs = [OutputTextDelta t] \<and> an_text st' = an_text st @ t))"
  using assms
  by (auto simp: content_block_delta_def apply_block_def block_update_def Let_def
      split: option.splits if_splits)

lemma push_event_effect:
  assumes "push_event x st evt = Ok (evs, st')"
  shows "an_blocks st' = apply_block evt (an_blocks st)
    \<and> (evs = [] \<and> an_text st' = an_text st
       \<or> (\<exists>t. evs = [OutputTextDelta t] \<and> an_text st' = an_text st @ t))"
proof (cases "get_str evt (lit ''type'') = Some (lit ''content_block_delta'')")
  case True
  with assms have "content_block_delta evt st = (evs, st')" by (simp add: push_event_def)
  then show ?thesis using True by (rule content_block_delta_effect)
next
  case False
  with assms show ?thesis
    by (auto simp: push_event_def apply_block_def block_update_def Let_def split: if_splits)
qed

lemma bt_inv_apply_block: "bt_inv m \<Longrightarrow> bt_inv (apply_block evt m)"
  by (simp add: apply_block_def bt_entry_eq bt.inv_entry split: option.splits)

lemma anthropic_calls_form: "c \<in> set (fst (anthropic_calls m n)) \<Longrightarrow> is_function_call c"
  by (induction m n rule: anthropic_calls.induct)
     (auto simp: Let_def split: prod.splits option.splits if_splits)

lemma anthropic_finish_closing:
  "\<exists>r. fst (anthropic_finish st) =
     closing (fst (anthropic_calls (an_blocks st) (an_synth_counter st))) (an_text st) r
       (Some (anthropic_usage st)) (anthropic_end_turn (an_stop_reason st))"
  by (auto simp: anthropic_finish_def closing_def Let_def split: prod.splits option.splits)

interpretation anthropic_sse: sse_translator "push_event x" anthropic_finish anthropic_sse_default an_text
    "\<lambda>st. bt_inv (an_blocks st)" for x
proof unfold_locales
  fix st
  show "\<exists>calls r u e. fst (anthropic_finish st) = closing calls (an_text st) r u e
      \<and> (\<forall>c \<in> set calls. is_function_call c)"
    using anthropic_finish_closing anthropic_calls_form by blast
qed (auto dest!: push_event_effect simp: bt_inv_apply_block anthropic_sse_default_def bt.inv_empty)

section \<open>Aggregation by index\<close>

definition block_events :: "int \<Rightarrow> json list \<Rightarrow> json list" where
  "block_events i evts = filter (\<lambda>e. block_update e \<noteq> None \<and> evt_index e = i) evts"

definition apply_update :: "json \<Rightarrow> block_acc \<Rightarrow> block_acc" where
  "apply_update evt acc = (case block_update evt of Some f \<Rightarrow> f acc | None \<Rightarrow> acc)"

lemma blocks_lookup:
  "bt_inv m \<Longrightarrow> map_of (fold apply_block evts m) i =
     (if block_events i evts = [] then map_of m i
      else Some (fold apply_update (block_events i evts) (unwrap_or block_acc_default (map_of m i))))"
proof (induction evts arbitrary: m)
  case (Cons e evts)
  have inv: "bt_inv (apply_block e m)" using Cons.prems by (rule bt_inv_apply_block)
  have get: "map_of (apply_block e m) i = (if block_update e \<noteq> None \<and> i = evt_index e
      then Some (apply_update e (unwrap_or block_acc_default (map_of m i))) else map_of m i)"
    using Cons.prems
    by (auto simp: apply_block_def apply_update_def bt_entry_eq bt.get_entry unwrap_or_def split: option.splits)
  from Cons.IH [OF inv] get show ?case
    by (auto simp: block_events_def unwrap_or_def)
qed (simp add: block_events_def)

lemma bt_inv_fold_apply_block: "bt_inv m \<Longrightarrow> bt_inv (fold apply_block evts m)"
  by (induction evts arbitrary: m) (simp_all add: bt_inv_apply_block)

lemma feed_blocks:
  "feed (push_event x) st evts = Ok (evs, st') \<Longrightarrow> an_blocks st' = fold apply_block evts (an_blocks st)"
proof (induction evts arbitrary: st evs)
  case (Cons e es)
  then obtain e1 st1 e2 where p: "push_event x st e = Ok (e1, st1)" "feed (push_event x) st1 es = Ok (e2, st')"
    by (auto simp: and_then_Ok_iff)
  from push_event_effect [OF p(1)] Cons.IH [OF p(2)] show ?case by simp
qed simp

text \<open>The JSON text that one event adds, and whether it starts a tool-use block.\<close>

definition json_fragment :: "json \<Rightarrow> rstr" where
  "json_fragment evt =
     (if get_str evt (lit ''type'') = Some (lit ''content_block_delta'')
         \<and> Option.bind (jget evt (lit ''delta'')) (\<lambda>d. get_str d (lit ''type'')) = Some (lit ''input_json_delta'')
      then unwrap_or [] (Option.bind (jget evt (lit ''delta'')) (\<lambda>d. get_str d (lit ''partial_json'')))
      else [])"

definition starts_tool :: "json \<Rightarrow> bool" where
  "starts_tool evt \<longleftrightarrow> get_str evt (lit ''type'') = Some (lit ''content_block_start'')
     \<and> Option.bind (jget evt (lit ''content_block'')) (\<lambda>c. get_str c (lit ''type'')) = Some (lit ''tool_use'')"

lemma apply_update_json:
  "bl_partial_json (apply_update evt acc) = bl_partial_json acc @ json_fragment evt"
  by (simp add: apply_update_def block_update_def json_fragment_def start_block_def unwrap_or_def Let_def
      split: option.splits)

lemma apply_update_tool: "is_tool_use (apply_update evt acc) \<longleftrightarrow> is_tool_use acc \<or> starts_tool evt"
  by (auto simp: apply_update_def block_update_def starts_tool_def start_block_def Let_def
      split: option.splits)

lemma fold_apply_update:
  "bl_partial_json (fold apply_update evts acc) = bl_partial_json acc @ concat (map json_fragment evts)"
  "is_tool_use (fold apply_update evts acc) \<longleftrightarrow> is_tool_use acc \<or> list_ex starts_tool evts"
  by (induction evts arbitrary: acc) (simp_all add: apply_update_json apply_update_tool)

lemma no_update: "block_update evt = None \<Longrightarrow> json_fragment evt = [] \<and> \<not> starts_tool evt"
  by (auto simp: block_update_def json_fragment_def starts_tool_def unwrap_or_def Let_def
      split: if_splits option.splits)

lemma block_events_fragments:
  "concat (map json_fragment (block_events i evts))
     = concat (map json_fragment (filter (\<lambda>e. evt_index e = i) evts))"
  by (induction evts) (auto simp: block_events_def dest: no_update)

lemma block_events_starts:
  "list_ex starts_tool (block_events i evts) \<longleftrightarrow> (\<exists>e \<in> set evts. starts_tool e \<and> evt_index e = i)"
proof -
  have "block_update e \<noteq> None" if "starts_tool e" for e using no_update that by blast
  then show ?thesis unfolding block_events_def list_ex_iff set_filter by blast
qed

definition call_text :: "rstr \<Rightarrow> rstr" where
  "call_text j = (if j = [] then lit ''{}'' else j)"

lemma call_arguments_anthropic_calls:
  "call_arguments (map OutputItemDone (fst (anthropic_calls m n)))
     = map (\<lambda>p. call_text (bl_partial_json (snd p))) (filter (\<lambda>p. is_tool_use (snd p)) m)"
  by (induction m n rule: anthropic_calls.induct)
     (auto simp: call_arguments_def call_text_def Let_def split: prod.splits option.splits)

lemma aggregated_blocks:
  fixes evts
  defines "m \<equiv> filter (\<lambda>p. is_tool_use (snd p)) (fold apply_block evts [])"
  shows "sorted_wrt (<) (map fst m)"
    "set (map fst m) = {i. \<exists>e \<in> set evts. starts_tool e \<and> evt_index e = i}"
    "map (\<lambda>p. call_text (bl_partial_json (snd p))) m
       = map (\<lambda>i. call_text (concat (map json_fragment (filter (\<lambda>e. evt_index e = i) evts)))) (map fst m)"
proof -
  let ?b = "fold apply_block evts []"
  have inv: "bt_inv ?b" by (rule bt_inv_fold_apply_block [OF bt.inv_empty])
  then show "sorted_wrt (<) (map fst m)"
    by (simp add: m_def bt_inv_def sorted_wrt_map sorted_wrt_filter)
  have get: "map_of ?b i = (if block_events i evts = [] then None
      else Some (fold apply_update (block_events i evts) block_acc_default))" for i
    using blocks_lookup [OF bt.inv_empty, of evts i] by (simp add: unwrap_or_def)
  have inb: "(k, v) \<in> set ?b \<longleftrightarrow> block_events k evts \<noteq> []
      \<and> v = fold apply_update (block_events k evts) block_acc_default" for k v
    unfolding bt.entries_get [OF inv] get by auto
  have tool: "is_tool_use (fold apply_update es block_acc_default) \<longleftrightarrow> list_ex starts_tool es" for es
    by (simp add: fold_apply_update block_acc_default_def)
  have entry: "(k, v) \<in> set m \<longleftrightarrow> list_ex starts_tool (block_events k evts)
      \<and> v = fold apply_update (block_events k evts) block_acc_default" for k v
  proof -
    have "(k, v) \<in> set m \<longleftrightarrow> (k, v) \<in> set ?b \<and> is_tool_use v" by (simp add: m_def)
    also have "\<dots> \<longleftrightarrow> list_ex starts_tool (block_events k evts)
      \<and> v = fold apply_update (block_events k evts) block_acc_default"
      unfolding inb using tool [of "block_events k evts"] by (cases "block_events k evts") auto
    finally show ?thesis .
  qed
  have "i \<in> set (map fst m) \<longleftrightarrow> list_ex starts_tool (block_events i evts)" for i
  proof -
    have "i \<in> set (map fst m) \<longleftrightarrow> (\<exists>v. (i, v) \<in> set m)" by force
    then show ?thesis unfolding entry by blast
  qed
  then show "set (map fst m) = {i. \<exists>e \<in> set evts. starts_tool e \<and> evt_index e = i}"
    unfolding block_events_starts by blast
  have "bl_partial_json v = concat (map json_fragment (filter (\<lambda>e. evt_index e = k) evts))"
    if "(k, v) \<in> set m" for k v
    using that unfolding entry
    by (simp add: fold_apply_update block_acc_default_def block_events_fragments)
  then have "call_text (bl_partial_json (snd p))
      = call_text (concat (map json_fragment (filter (\<lambda>e. evt_index e = fst p) evts)))" if "p \<in> set m" for p
    using that by (cases p) simp
  then show "map (\<lambda>p. call_text (bl_partial_json (snd p))) m
       = map (\<lambda>i. call_text (concat (map json_fragment (filter (\<lambda>e. evt_index e = i) evts)))) (map fst m)"
    unfolding map_map o_def by (rule map_cong [OF refl])
qed

section \<open>Properties\<close>

text \<open>
  An Anthropic stream that ends without an upstream error is: text deltas, then finished tool
  calls, then (when there was text) one assistant message holding exactly the concatenated
  deltas, then the completion, which occurs once and last and carries token counts.
\<close>

theorem anthropic_stream_shape:
  assumes "translate_anthropic_sse x evts True = Ok evs"
  shows "(\<exists>deltas calls r u e. evs = deltas @ closing calls (delta_text deltas) r u e
            \<and> (\<forall>ev \<in> set deltas. \<exists>t. ev = OutputTextDelta t) \<and> (\<forall>c \<in> set calls. is_function_call c))
    \<and> length (filter is_completed evs) = 1 \<and> is_completed (last evs)"
  using assms anthropic_sse.translate_complete [of x evts evs]
    anthropic_sse.translate_one_completed [of x evts evs]
  by (simp add: translate_anthropic_sse_def)

definition anthropic_text_event :: json where
  "anthropic_text_event =
     jobj [(lit ''type'', jstr ''content_block_delta''),
           (lit ''delta'', jobj [(lit ''type'', jstr ''text_delta''), (lit ''text'', jstr ''hi'')])]"

lemma anthropic_text_event_run:
  "\<exists>r u. translate_anthropic_sse switch_ext_plain [anthropic_text_event] True
     = Ok [OutputTextDelta (lit ''hi''), OutputItemDone (assistant_message (lit ''hi'')), Completed r u None]"
  by (simp add: translate_anthropic_sse_def translate_def push_event_def anthropic_text_event_def json_simps
      content_block_delta_def anthropic_sse_default_def anthropic_finish_def anthropic_end_turn_def
      assistant_message_def synth_id_def)

theorem anthropic_stream_shape_witness:
  "\<exists>r u. is_completed (last [OutputTextDelta (lit ''hi''),
     OutputItemDone (assistant_message (lit ''hi'')), Completed r u None])"
proof -
  obtain r u where *: "translate_anthropic_sse switch_ext_plain [anthropic_text_event] True
     = Ok [OutputTextDelta (lit ''hi''), OutputItemDone (assistant_message (lit ''hi'')), Completed r u None]"
    using anthropic_text_event_run by blast
  from anthropic_stream_shape [OF *] show ?thesis by blast
qed

text \<open>
  Tool-use blocks are reassembled: there is one finished call per index at which a tool-use
  block was started, in increasing index order, and its arguments are the JSON fragments of that
  index in arrival order, or the empty object when there were none.
\<close>

theorem anthropic_tool_calls_reassembled:
  assumes "translate_anthropic_sse x evts True = Ok evs"
  shows "\<exists>idxs. sorted_wrt (<) idxs
     \<and> set idxs = {i. \<exists>e \<in> set evts. starts_tool e \<and> evt_index e = i}
     \<and> call_arguments evs =
         map (\<lambda>i. call_text (concat (map json_fragment (filter (\<lambda>e. evt_index e = i) evts)))) idxs"
proof -
  from assms obtain deltas st where f: "feed (push_event x) anthropic_sse_default evts = Ok (deltas, st)"
    and evs: "evs = deltas @ fst (anthropic_finish st)"
    by (auto simp: translate_anthropic_sse_def translate_def and_then_Ok_iff)
  have b: "an_blocks st = fold apply_block evts []"
    using feed_blocks [OF f] by (simp add: anthropic_sse_default_def)
  have "call_arguments deltas = []"
    using anthropic_sse.feed_props [OF f] by (intro call_arguments_deltas) blast
  moreover obtain r where "fst (anthropic_finish st) =
     closing (fst (anthropic_calls (an_blocks st) (an_synth_counter st))) (an_text st) r
       (Some (anthropic_usage st)) (anthropic_end_turn (an_stop_reason st))"
    using anthropic_finish_closing by blast
  ultimately have "call_arguments evs = map (\<lambda>p. call_text (bl_partial_json (snd p)))
      (filter (\<lambda>p. is_tool_use (snd p)) (fold apply_block evts []))"
    by (simp add: evs call_arguments_closing call_arguments_anthropic_calls b)
  with aggregated_blocks [of evts] show ?thesis
    by (intro exI [of _ "map fst (filter (\<lambda>p. is_tool_use (snd p)) (fold apply_block evts []))"] conjI)
       (simp_all only:)
qed

definition tool_start_event :: json where
  "tool_start_event =
     jobj [(lit ''type'', jstr ''content_block_start''), (lit ''index'', jnat 1),
           (lit ''content_block'', jobj [(lit ''type'', jstr ''tool_use''), (lit ''id'', jstr ''c1'')])]"

theorem anthropic_tool_calls_reassembled_witness:
  "\<exists>evs idxs. translate_anthropic_sse switch_ext_plain [tool_start_event] True = Ok evs
     \<and> set idxs = {1} \<and> call_arguments evs = map (\<lambda>i.
         call_text (concat (map json_fragment (filter (\<lambda>e. evt_index e = i) [tool_start_event])))) idxs"
proof -
  have e: "starts_tool tool_start_event" "evt_index tool_start_event = 1"
    by (simp_all add: starts_tool_def tool_start_event_def evt_index_def json_simps)
  have "\<exists>evs. translate_anthropic_sse switch_ext_plain [tool_start_event] True = Ok evs"
    by (simp add: translate_anthropic_sse_def translate_def push_event_def tool_start_event_def json_simps)
  then obtain evs where evs: "translate_anthropic_sse switch_ext_plain [tool_start_event] True = Ok evs" by blast
  from anthropic_tool_calls_reassembled [OF evs] evs show ?thesis by (auto simp: e)
qed

end
