(* ===== verification/Switch_Egress.thy ===== *)
theory Switch_Egress
  imports Switch_Chat_Sse Switch_Anthropic_Sse
begin

text \<open>
  The shared egress engine (zmod/llm-switch/src/sse.rs): after a successful reply the byte chunks
  are collected in a buffer, complete frames (up to an empty line) are decoded and their data
  lines pushed into the translator. The events sent into the channel are a list; a consumer that
  drops its end of the channel sees a prefix of it.
\<close>

datatype reader_status = Running | Done | Failed api_error

text \<open>\<open>buf.windows(2).position(|w| w == b"\n\n")\<close> with the two parts of the buffer.\<close>

fun split_frame :: "byte list \<Rightarrow> (byte list \<times> byte list) option" where
  "split_frame (a # b # s) =
     (if a = 10 \<and> b = 10 then Some ([], s)
      else map_option (\<lambda>(f, r). (a # f, r)) (split_frame (b # s)))"
| "split_frame _ = None"

fun handle_lines ::
  "switch_ext \<Rightarrow> 's push_fn \<Rightarrow> rstr list \<Rightarrow> 's \<Rightarrow> response_event list \<times> 's \<times> reader_status" where
  "handle_lines x push [] st = ([], st, Running)"
| "handle_lines x push (l # ls) st =
     (case strip_prefix (trim_start l) (lit ''data:'') of
        None \<Rightarrow> handle_lines x push ls st
      | Some d \<Rightarrow>
          let data = trim d in
          if data = lit ''[DONE]'' then ([], st, Done)
          else if data = [] then handle_lines x push ls st
          else
            case sw_parse x data of
              Inl e \<Rightarrow> ([], st, Failed (StreamError (lit ''bad SSE json: '' @ e)))
            | Inr v \<Rightarrow>
                (case push st v of
                   Inl ce \<Rightarrow> ([], st, Failed (api_error_of ce))
                 | Inr (evs, st) \<Rightarrow>
                     let (evs', st, s) = handle_lines x push ls st in (evs @ evs', st, s)))"

lemma split_frame_length: "split_frame buf = Some (f, r) \<Longrightarrow> length r < length buf"
  by (induction buf arbitrary: f rule: split_frame.induct) (fastforce split: if_splits)+

function (sequential) drain ::
  "switch_ext \<Rightarrow> 's push_fn \<Rightarrow> byte list \<Rightarrow> 's \<Rightarrow> response_event list \<times> 's \<times> byte list \<times> reader_status" where
  "drain x push buf st =
     (case split_frame buf of
        None \<Rightarrow> ([], st, buf, Running)
      | Some (frame, rest) \<Rightarrow>
          (case from_utf8 frame of
             None \<Rightarrow> ([], st, rest,
               Failed (StreamError (lit ''SSE frame UTF-8 error: '' @ utf8_error_text x frame)))
           | Some event_block \<Rightarrow>
               let (evs, st, s) = handle_lines x push (lines event_block) st in
               if s = Running
               then let (evs', st, rest, s) = drain x push rest st in (evs @ evs', st, rest, s)
               else (evs, st, rest, s)))"
  by pat_completeness auto
termination
  by (relation "measure (\<lambda>(x, push, buf, st). length buf)") (auto dest: split_frame_length)

declare drain.simps [simp del]

fun read_chunks ::
  "switch_ext \<Rightarrow> 's push_fn \<Rightarrow> (rstr, byte list) result list \<Rightarrow> byte list \<Rightarrow> 's
     \<Rightarrow> response_event list \<times> 's \<times> reader_status" where
  "read_chunks x push [] buf st = ([], st, Running)"
| "read_chunks x push (Inl e # cs) buf st =
     ([], st, Failed (StreamError (lit ''stream error: '' @ e)))"
| "read_chunks x push (Inr c # cs) buf st =
     (let (evs, st, buf, s) = drain x push (buf @ c) st in
      if s = Running
      then let (evs', st, s) = read_chunks x push cs buf st in (evs @ evs', st, s)
      else (evs, st, s))"

definition stream_events ::
  "switch_ext \<Rightarrow> 's push_fn \<Rightarrow> 's finish_fn \<Rightarrow> 's \<Rightarrow> (rstr, byte list) result list
     \<Rightarrow> (api_error, response_event) result list" where
  "stream_events x push finish init chunks =
     (let (evs, st, s) = read_chunks x push chunks [] init in
      map Ok evs @ (case s of Failed e \<Rightarrow> [Err e] | _ \<Rightarrow> map Ok (fst (finish st))))"

text \<open>The reply of the upstream: sending failed, or a status, request id, error text and chunks.\<close>

datatype http_reply =
    SendFailed rstr
  | Reply nat "rstr option" rstr "(rstr, byte list) result list"

record response_stream =
  rx_event :: "(api_error, response_event) result list"
  upstream_request_id :: "rstr option"

fun run_egress ::
  "switch_ext \<Rightarrow> 's push_fn \<Rightarrow> 's finish_fn \<Rightarrow> 's \<Rightarrow> http_reply \<Rightarrow> (api_error, response_stream) result" where
  "run_egress x push finish init (SendFailed e) = Err (StreamError (lit ''request failed: '' @ e))"
| "run_egress x push finish init (Reply status rid body_text chunks) =
     (if \<not> (200 \<le> status \<and> status < 300) then Err (Api status body_text)
      else Ok \<lparr>rx_event = stream_events x push finish init chunks, upstream_request_id = rid\<rparr>)"

section \<open>Chunk boundaries do not matter\<close>

lemma split_frame_append:
  "split_frame a = Some (f, r) \<Longrightarrow> split_frame (a @ b) = Some (f, r @ b)"
  by (induction a arbitrary: f rule: split_frame.induct) (auto split: if_splits)

lemma drain_append:
  "drain x push (buf @ c) st =
     (let (e1, st1, b1, s1) = drain x push buf st in
      if s1 = Running
      then let (e2, st2, b2, s2) = drain x push (b1 @ c) st1 in (e1 @ e2, st2, b2, s2)
      else (e1, st1, b1 @ c, s1))"
proof (induction x push buf st rule: drain.induct)
  case (1 x push buf st)
  show ?case
  proof (cases "split_frame buf")
    case None
    then have "drain x push buf st = ([], st, buf, Running)" by (simp add: drain.simps)
    then show ?thesis by (simp split: prod.splits)
  next
    case (Some p)
    obtain frame rest where p: "p = (frame, rest)" by (cases p)
    have sf: "split_frame (buf @ c) = Some (frame, rest @ c)"
      using Some p split_frame_append by blast
    show ?thesis
    proof (cases "from_utf8 frame")
      case None
      then show ?thesis
        using Some p sf by (simp add: drain.simps [of x push buf] drain.simps [of x push "buf @ c"])
    next
      case (Some blk)
      obtain evs st1 s where h: "handle_lines x push (lines blk) st = (evs, st1, s)"
        by (metis surj_pair)
      show ?thesis
      proof (cases "s = Running")
        case False
        then show ?thesis
          using \<open>split_frame buf = Some p\<close> p sf Some h
          by (simp add: drain.simps [of x push buf] drain.simps [of x push "buf @ c"])
      next
        case True
        have ih: "drain x push (rest @ c) st1 =
           (let (e1, st1, b1, s1) = drain x push rest st1 in
            if s1 = Running
            then let (e2, st2, b2, s2) = drain x push (b1 @ c) st1 in (e1 @ e2, st2, b2, s2)
            else (e1, st1, b1 @ c, s1))"
          using "1.IH" [OF \<open>split_frame buf = Some p\<close> p [symmetric] Some h [symmetric] refl refl True] .
        show ?thesis
          using \<open>split_frame buf = Some p\<close> p sf Some h True
          by (simp add: drain.simps [of x push buf] drain.simps [of x push "buf @ c"] ih
              split: prod.splits)
      qed
    qed
  qed
qed

lemma drain_rest: "drain x push buf st = (evs, st', rest, Running) \<Longrightarrow> split_frame rest = None"
proof (induction x push buf st arbitrary: evs rule: drain.induct)
  case (1 x push buf st)
  show ?case
  proof (cases "split_frame buf")
    case None
    with "1.prems" show ?thesis by (simp add: drain.simps [of x push buf])
  next
    case (Some p)
    obtain frame rst where p: "p = (frame, rst)" by (cases p)
    from "1.prems" Some p obtain blk where b: "from_utf8 frame = Some blk"
      by (auto simp: drain.simps [of x push buf] split: option.splits)
    obtain e1 st1 s where h: "handle_lines x push (lines blk) st = (e1, st1, s)"
      by (metis surj_pair)
    from "1.prems" Some p b h have s: "s = Running"
      by (auto simp: drain.simps [of x push buf] split: if_splits)
    from "1.prems" Some p b h s obtain e2 where "drain x push rst st1 = (e2, st', rest, Running)"
      by (auto simp: drain.simps [of x push buf] split: prod.splits)
    then show ?thesis using "1.IH" [OF Some p [symmetric] b h [symmetric] refl refl s] by blast
  qed
qed

lemma read_chunks_drain:
  "split_frame buf = None \<Longrightarrow>
     read_chunks x push (map Inr cs) buf st =
       (let (evs, st, rest, s) = drain x push (buf @ concat cs) st in (evs, st, s))"
proof (induction cs arbitrary: buf st)
  case Nil
  then show ?case by (simp add: drain.simps)
next
  case (Cons c cs)
  obtain e1 st1 b1 s1 where d: "drain x push (buf @ c) st = (e1, st1, b1, s1)" by (metis surj_pair)
  have split: "drain x push (buf @ concat (c # cs)) st =
     (if s1 = Running
      then let (e2, st2, b2, s2) = drain x push (b1 @ concat cs) st1 in (e1 @ e2, st2, b2, s2)
      else (e1, st1, b1 @ concat cs, s1))"
    using drain_append [of x push "buf @ c" "concat cs" st] d by simp
  show ?case
  proof (cases "s1 = Running")
    case True
    then have "split_frame b1 = None" using drain_rest [of x push "buf @ c" st e1 st1 b1] d by simp
    from Cons.IH [OF this, of st1] True d split show ?thesis
      by (simp split: prod.splits)
  next
    case False
    with d split show ?thesis by simp
  qed
qed

lemma stream_events_drain:
  "stream_events x push finish init (map Inr cs) =
     (let (evs, st, rest, s) = drain x push (concat cs) init in
      map Ok evs @ (case s of Failed e \<Rightarrow> [Err e] | _ \<Rightarrow> map Ok (fst (finish st))))"
  by (simp add: stream_events_def read_chunks_drain split: prod.splits)

section \<open>The reader only pushes\<close>

lemma handle_lines_feed:
  "handle_lines x push ls st = (evs, st', s) \<Longrightarrow> \<exists>vs. feed push st vs = Ok (evs, st')"
proof (induction ls arbitrary: st evs st' s)
  case Nil
  then show ?case by (intro exI [of _ "[]"]) simp
next
  case (Cons l ls)
  show ?case
  proof (cases "strip_prefix (trim_start l) (lit ''data:'')")
    case None
    with Cons show ?thesis by simp
  next
    case (Some d)
    consider "trim d = lit ''[DONE]''" | "trim d = []" | "trim d \<noteq> lit ''[DONE]''" "trim d \<noteq> []" by blast
    then show ?thesis
    proof cases
      case 1
      with Some Cons.prems show ?thesis by (intro exI [of _ "[]"]) simp
    next
      case 2
      then have "handle_lines x push (l # ls) st = handle_lines x push ls st"
        using Some by (simp add: lit_def)
      with Cons.prems Cons.IH show ?thesis by metis
    next
      case 3
      show ?thesis
      proof (cases "sw_parse x (trim d)")
        case (Inl e)
        with 3 Some Cons.prems show ?thesis by (intro exI [of _ "[]"]) simp
      next
        case (Inr v)
        show ?thesis
        proof (cases "push st v")
          case (Inl e)
          with Inr 3 Some Cons.prems show ?thesis by (intro exI [of _ "[]"]) simp
        next
          case (Inr q)
          obtain e1 st1 where q: "q = (e1, st1)" by (cases q)
          obtain e2 st2 s2 where h: "handle_lines x push ls st1 = (e2, st2, s2)" by (metis surj_pair)
          from Inr q h \<open>sw_parse x (trim d) = Inr v\<close> 3 Some Cons.prems
          have evs: "evs = e1 @ e2" "st' = st2" by auto
          obtain vs where "feed push st1 vs = Ok (e2, st2)" using Cons.IH [OF h] by blast
          with Inr q evs show ?thesis by (intro exI [of _ "v # vs"]) simp
        qed
      qed
    qed
  qed
qed

lemma feed_trans:
  "feed push st vs = Ok (e1, st1) \<Longrightarrow> feed push st1 ws = Ok (e2, st2) \<Longrightarrow>
     feed push st (vs @ ws) = Ok (e1 @ e2, st2)"
  by (simp add: feed_append)

lemma drain_feed: "drain x push buf st = (evs, st', rest, s) \<Longrightarrow> \<exists>vs. feed push st vs = Ok (evs, st')"
proof (induction x push buf st arbitrary: evs rule: drain.induct)
  case (1 x push buf st)
  show ?case
  proof (cases "split_frame buf")
    case None
    with "1.prems" show ?thesis by (intro exI [of _ "[]"]) (simp add: drain.simps [of x push buf])
  next
    case (Some p)
    obtain frame rst where p: "p = (frame, rst)" by (cases p)
    show ?thesis
    proof (cases "from_utf8 frame")
      case None
      with "1.prems" Some p show ?thesis
        by (intro exI [of _ "[]"]) (simp add: drain.simps [of x push buf])
    next
      case b: (Some blk)
      obtain e1 st1 s1 where h: "handle_lines x push (lines blk) st = (e1, st1, s1)"
        by (metis surj_pair)
      obtain vs where vs: "feed push st vs = Ok (e1, st1)" using handle_lines_feed [OF h] by blast
      show ?thesis
      proof (cases "s1 = Running")
        case False
        with "1.prems" Some p b h vs show ?thesis
          by (intro exI [of _ vs]) (simp add: drain.simps [of x push buf])
      next
        case True
        with "1.prems" Some p b h obtain e2 where
          d: "drain x push rst st1 = (e2, st', rest, s)" and evs: "evs = e1 @ e2"
          by (auto simp: drain.simps [of x push buf] split: prod.splits)
        obtain ws where "feed push st1 ws = Ok (e2, st')"
          using "1.IH" [OF Some p [symmetric] b h [symmetric] refl refl True d] by blast
        with feed_trans [OF vs] evs show ?thesis by blast
      qed
    qed
  qed
qed

lemma read_chunks_feed:
  "read_chunks x push cs buf st = (evs, st', s) \<Longrightarrow> \<exists>vs. feed push st vs = Ok (evs, st')"
proof (induction x push cs buf st arbitrary: evs rule: read_chunks.induct)
  case (1 x push buf st)
  then have "feed push st [] = Ok (evs, st')" by simp
  then show ?case by blast
next
  case (2 x push e cs buf st)
  then have "feed push st [] = Ok (evs, st')" by simp
  then show ?case by blast
next
  case (3 x push c cs buf st)
  obtain e1 st1 b1 s1 where d: "drain x push (buf @ c) st = (e1, st1, b1, s1)" by (metis surj_pair)
  obtain vs where vs: "feed push st vs = Ok (e1, st1)" using drain_feed [OF d] by blast
  show ?case
  proof (cases "s1 = Running")
    case False
    with "3.prems" d vs show ?thesis by (intro exI [of _ vs]) simp
  next
    case True
    with "3.prems" d obtain e2 where r: "read_chunks x push cs b1 st1 = (e2, st', s)" "evs = e1 @ e2"
      by (auto split: prod.splits)
    obtain ws where "feed push st1 ws = Ok (e2, st')"
      using "3.IH" [OF d [symmetric] refl refl refl True r(1)] by blast
    with feed_trans [OF vs] r(2) show ?thesis by blast
  qed
qed

text \<open>A successful stream ends with its only \<open>Completed\<close>; a failed one has none and one error.\<close>

definition ends_once :: "(api_error, response_event) result list \<Rightarrow> bool" where
  "ends_once out \<longleftrightarrow>
     (\<exists>evs. out = map Ok evs \<and> length (filter is_completed evs) = 1 \<and> is_completed (last evs))
     \<or> (\<exists>evs e. out = map Ok evs @ [Err e] \<and> filter is_completed evs = [])"

context sse_translator
begin

lemma stream_once: "ends_once (stream_events x push finish init chunks)"
proof -
  obtain evs st s where r: "read_chunks x push chunks [] init = (evs, st, s)" by (metis surj_pair)
  obtain vs where f: "feed push init vs = Ok (evs, st)" using read_chunks_feed [OF r] by blast
  have none: "filter is_completed evs = []"
    using feed_props [OF f] by (auto simp: filter_empty_conv)
  show ?thesis
  proof (cases "\<exists>e. s = Failed e")
    case True
    then obtain e where "s = Failed e" by blast
    with r have "stream_events x push finish init chunks = map Ok evs @ [Err e]"
      by (simp add: stream_events_def)
    with none show ?thesis unfolding ends_once_def by blast
  next
    case False
    then have "stream_events x push finish init chunks = map Ok (evs @ fst (finish st))"
      using r by (cases s) (simp_all add: stream_events_def)
    moreover have "translate push finish init vs True = Ok (evs @ fst (finish st))"
      by (simp add: translate_def f)
    ultimately show ?thesis unfolding ends_once_def using translate_one_completed by blast
  qed
qed

end

text \<open>Both connectors: any bytes, any chunks, a broken connection, bad UTF-8 or JSON.\<close>

lemma egress_ends_once:
  "ends_once (stream_events x (push_chunk x) chat_finish chat_sse_default chunks)"
  "ends_once (stream_events x (push_event x) anthropic_finish anthropic_sse_default chunks)"
  by (rule chat_sse.stream_once, rule anthropic_sse.stream_once)

section \<open>Well-formed streams\<close>

text \<open>
  An upstream that speaks the protocol writes one data line per event and closes with the
  \<open>[DONE]\<close> marker. \<open>data_line\<close> says what a printed event has to satisfy: it is one line without
  surrounding white space that parses back (compact JSON text is of this form).
\<close>

definition sse_frame :: "rstr \<Rightarrow> byte list" where
  "sse_frame p = as_bytes (lit ''data: '' @ p) @ [10, 10]"

definition data_line :: "switch_ext \<Rightarrow> json \<Rightarrow> bool" where
  "data_line x v \<longleftrightarrow>
     (let p = sw_print x v in
      p \<noteq> [] \<and> p \<noteq> lit ''[DONE]'' \<and> nl \<notin> set p \<and> list_all scalar p
      \<and> \<not> is_whitespace (hd p) \<and> \<not> is_whitespace (last p) \<and> sw_parse x p = Ok v)"

definition encode_stream :: "switch_ext \<Rightarrow> json list \<Rightarrow> byte list" where
  "encode_stream x vs = concat (map (\<lambda>v. sse_frame (sw_print x v)) vs) @ sse_frame (lit ''[DONE]'')"

lemma split_frame_first: "10 \<notin> set a \<Longrightarrow> split_frame (a @ 10 # 10 # r) = Some (a, r)"
proof (induction a)
  case (Cons c a)
  then show ?case by (cases a) auto
qed simp

lemma nl_utf8_char: "10 \<in> set (utf8_char c) \<longleftrightarrow> c = 10"
  by (auto simp: utf8_char_def)

lemma nl_as_bytes: "10 \<in> set (as_bytes s) \<longleftrightarrow> 10 \<in> set s"
  by (auto simp: as_bytes_def nl_utf8_char)

lemma lines_single: "s \<noteq> [] \<Longrightarrow> nl \<notin> set s \<Longrightarrow> lines s = [s]"
  by (simp add: lines_def split_on_single)

lemma data_prefix: "lit ''data: '' @ p = lit ''data:'' @ 32 # p"
  by (simp add: lit_def)

lemma trim_start_data: "trim_start (lit ''data:'' @ p) = lit ''data:'' @ p"
  by (simp add: trim_start_def lit_def is_whitespace_def)

lemma trim_payload:
  assumes "p \<noteq> []" and "\<not> is_whitespace (hd p)" and "\<not> is_whitespace (last p)"
  shows "trim (32 # p) = p"
proof -
  have "is_whitespace 32" by (simp add: is_whitespace_def)
  then have "trim_start (32 # p) = p" using assms(1,2) by (cases p) (simp_all add: trim_start_def)
  then show ?thesis using assms(1,3) by (simp add: trim_def trim_end_no_trailing)
qed

text \<open>Draining a frame with one data line is one step of the line handler.\<close>

lemma drain_frame:
  assumes "nl \<notin> set p" and "list_all scalar p"
    and h: "handle_lines x push [lit ''data: '' @ p] st = (evs, st', s)"
  shows "drain x push (sse_frame p @ r) st =
     (if s = Running
      then let (evs', st'', rest, s') = drain x push r st' in (evs @ evs', st'', rest, s')
      else (evs, st', r, s))"
proof -
  let ?l = "lit ''data: '' @ p"
  have n: "nl \<notin> set ?l" using assms(1) by (simp add: lit_def)
  then have sf: "split_frame (sse_frame p @ r) = Some (as_bytes ?l, r)"
    using split_frame_first [of "as_bytes ?l" r] by (simp add: sse_frame_def nl_as_bytes)
  have "from_utf8 (as_bytes ?l) = Some ?l"
    using assms(2) by (intro from_utf8_as_bytes) (auto simp: lit_def scalar_def list_all_iff)
  moreover have "lines ?l = [?l]" using n by (intro lines_single) (auto simp: lit_def)
  ultimately show ?thesis by (simp add: drain.simps [of x push "sse_frame p @ r"] sf h del: handle_lines.simps)
qed

lemma handle_data_line:
  assumes "data_line x v" and "push st v = Ok (evs, st')"
  shows "handle_lines x push [lit ''data: '' @ sw_print x v] st = (evs, st', Running)"
  using assms
  by (simp add: data_prefix trim_start_data trim_payload data_line_def Let_def)

lemma handle_done_line: "handle_lines x push [lit ''data: '' @ lit ''[DONE]''] st = ([], st, Done)"
proof -
  have "trim (32 # lit ''[DONE]'') = lit ''[DONE]''"
    by (rule trim_payload) (simp_all add: lit_def is_whitespace_def)
  then show ?thesis by (simp add: data_prefix trim_start_data)
qed

lemma drain_encode:
  assumes "list_all (data_line x) vs" and "feed push st vs = Ok (evs, st')"
  shows "drain x push (encode_stream x vs) st = (evs, st', [], Done)"
  using assms
proof (induction vs arbitrary: st evs)
  case Nil
  have "drain x push (sse_frame (lit ''[DONE]'') @ []) st = ([], st, [], Done)"
    by (subst drain_frame [OF _ _ handle_done_line]) (auto simp: lit_def scalar_def)
  with Nil show ?case by (simp add: encode_stream_def)
next
  case (Cons v vs)
  from Cons.prems(2) obtain e1 st1 e2 where p: "push st v = Ok (e1, st1)"
    and f: "feed push st1 vs = Ok (e2, st')" and evs: "evs = e1 @ e2"
    by (auto simp: and_then_Ok_iff)
  from Cons.prems(1) have d: "data_line x v" by simp
  then have pr: "nl \<notin> set (sw_print x v)" "list_all scalar (sw_print x v)"
    by (auto simp: data_line_def Let_def)
  have "encode_stream x (v # vs) = sse_frame (sw_print x v) @ encode_stream x vs"
    by (simp add: encode_stream_def)
  with drain_frame [OF pr handle_data_line [of x v push, OF d p]] Cons.IH [OF _ f] Cons.prems(1) evs
  show ?case by simp
qed

section \<open>Properties of the egress\<close>

text \<open>
  C13. How the network cuts the response body into chunks does not matter: two sequences of
  chunks with the same bytes give the same events, in the same order, with the same error.
\<close>

theorem egress_chunking_irrelevant:
  assumes "concat cs = concat cs'"
  shows "stream_events x push finish init (map Inr cs) = stream_events x push finish init (map Inr cs')"
  using assms by (simp add: stream_events_drain)

theorem egress_chunking_irrelevant_witness:
  "concat [[100], [97, 10], [10]] = concat [[100, 97, 10, 10 :: byte]]
   \<and> stream_events switch_ext_plain (push_chunk switch_ext_plain) chat_finish chat_sse_default
       (map Inr [[100], [97, 10], [10]])
     = stream_events switch_ext_plain (push_chunk switch_ext_plain) chat_finish chat_sse_default
       (map Inr [[100, 97, 10, 10]])"
  using egress_chunking_irrelevant [of "[[100], [97, 10], [10]]" "[[100, 97, 10, 10]]"] by simp

text \<open>
  C10. The engine implements the translator: when an upstream writes the events of a stream as
  data lines followed by the \<open>[DONE]\<close> marker, then in whatever chunks these bytes arrive, the
  channel receives exactly the events the Chat translation gives for the stream.
\<close>

theorem egress_refines_translation:
  assumes "list_all (data_line x) vs" and "translate_chat_sse x vs True = Ok evs"
    and "concat cs = encode_stream x vs"
  shows "stream_events x (push_chunk x) chat_finish chat_sse_default (map Inr cs) = map Ok evs"
proof -
  from assms(2) obtain ds st where f: "feed (push_chunk x) chat_sse_default vs = Ok (ds, st)"
    and "evs = ds @ fst (chat_finish st)"
    by (auto simp: translate_chat_sse_def translate_def and_then_Ok_iff)
  with drain_encode [OF assms(1) f] show ?thesis by (simp add: stream_events_drain assms(3))
qed

definition switch_ext_chunk :: switch_ext where
  "switch_ext_chunk = switch_ext_plain
     \<lparr>sw_print := (\<lambda>_. lit ''{}''), sw_parse := (\<lambda>_. Ok chat_text_chunk)\<rparr>"

theorem egress_refines_translation_witness:
  "stream_events switch_ext_chunk (push_chunk switch_ext_chunk) chat_finish chat_sse_default
     (map Inr [encode_stream switch_ext_chunk [chat_text_chunk]])
   = map Ok [OutputTextDelta (lit ''hi''), OutputItemDone (assistant_message (lit ''hi'')),
       Completed (lit ''r1'') None None]"
proof (rule egress_refines_translation)
  show "list_all (data_line switch_ext_chunk) [chat_text_chunk]"
    by (simp add: data_line_def switch_ext_chunk_def lit_def scalar_def is_whitespace_def)
  show "translate_chat_sse switch_ext_chunk [chat_text_chunk] True
     = Ok [OutputTextDelta (lit ''hi''), OutputItemDone (assistant_message (lit ''hi'')),
           Completed (lit ''r1'') None None]"
    by (simp add: translate_chat_sse_def translate_def push_chunk_def chat_text_chunk_def json_simps
        chat_header_def first_choice_def delta_tool_calls_def chat_tool_deltas_def
        chat_sse_default_def get_or_insert_def chat_finish_def chat_end_turn_def
        assistant_message_def)
  show "concat [encode_stream switch_ext_chunk [chat_text_chunk]]
     = encode_stream switch_ext_chunk [chat_text_chunk]" by simp
qed

end
