(* ===== verification/Switch_Connector.thy ===== *)
theory Switch_Connector
  imports Switch_Translator
begin

text \<open>
  What the two connectors share (zmod/llm-switch/src/connector/mod.rs): the egress context, the
  headers of the outgoing request, the variant names of error messages, and the assignment
  \<open>body["key"] = value\<close> on a JSON object under construction.
\<close>

text \<open>The fallback authentication adds its headers to a header map; it is code of codex-api.\<close>

record egress_ctx =
  ctx_base_url :: rstr
  ctx_model :: rstr
  ctx_auth :: auth_kind
  ctx_key :: "rstr option"
  ctx_anthropic_version :: "rstr option"
  ctx_path_override :: "rstr option"
  ctx_default_max_tokens :: "u32 option"
  ctx_prompt_cache :: bool
  ctx_auth_fallback :: "(header_map \<Rightarrow> header_map) option"

definition egress_headers ::
  "switch_ext \<Rightarrow> egress_ctx \<Rightarrow> rstr option \<Rightarrow> (api_error, header_map) result" where
  "egress_headers x ctx version =
     (case ctx_key ctx of
        Some key \<Rightarrow>
          (case build_headers x (ctx_auth ctx) (Some key) version of
             Inl e \<Rightarrow> Err (InvalidRequest (http_error_text e))
           | Inr h \<Rightarrow> Ok h)
      | None \<Rightarrow>
          (case (ctx_auth ctx, ctx_auth_fallback ctx) of
             (Bearer, Some add_auth_headers) \<Rightarrow>
               Ok ((add_auth_headers Map.empty)(lit ''content-type'' \<mapsto> lit ''application/json''))
           | _ \<Rightarrow> Err (InvalidRequest (lit ''missing API key (set key_env or auth_key)''))))"

fun variant_name :: "response_item \<Rightarrow> rstr" where
  "variant_name (Message _ _ _ _ _) = lit ''Message''"
| "variant_name (AgentMessage _ _ _ _ _) = lit ''AgentMessage''"
| "variant_name (Reasoning _ _ _ _ _) = lit ''Reasoning''"
| "variant_name (LocalShellCall _ _ _ _ _) = lit ''LocalShellCall''"
| "variant_name (FunctionCall _ _ _ _ _ _) = lit ''FunctionCall''"
| "variant_name (ToolSearchCall _ _ _ _ _ _) = lit ''ToolSearchCall''"
| "variant_name (FunctionCallOutput _ _ _ _) = lit ''FunctionCallOutput''"
| "variant_name (CustomToolCall _ _ _ _ _ _) = lit ''CustomToolCall''"
| "variant_name (CustomToolCallOutput _ _ _ _ _) = lit ''CustomToolCallOutput''"
| "variant_name (ToolSearchOutput _ _ _ _ _ _) = lit ''ToolSearchOutput''"
| "variant_name (WebSearchCall _ _ _ _) = lit ''WebSearchCall''"
| "variant_name (ImageGenerationCall _ _ _ _ _) = lit ''ImageGenerationCall''"
| "variant_name (Compaction _ _ _) = lit ''Compaction''"
| "variant_name (CompactionTrigger _) = lit ''CompactionTrigger''"
| "variant_name (ContextCompaction _ _ _) = lit ''ContextCompaction''"
| "variant_name Other = lit ''Other''"

text \<open>
  \<open>v["k"] = w\<close>: the code assigns into objects only, where it inserts or replaces the key.
\<close>

fun jset :: "rstr \<Rightarrow> json \<Rightarrow> json \<Rightarrow> json" where
  "jset k w (JObject m) = JObject (fmupd k w m)"
| "jset k w v = v"

definition is_object :: "json \<Rightarrow> bool" where
  "is_object v \<longleftrightarrow> (case v of JObject m \<Rightarrow> True | _ \<Rightarrow> False)"

lemma is_object_jobj [simp]: "is_object (jobj kvs)"
  by (simp add: is_object_def jobj_def)

lemma is_object_jset [simp]: "is_object (jset k w v) = is_object v"
  by (cases v) (simp_all add: is_object_def)

lemma jget_jset [simp]:
  "is_object v \<Longrightarrow> jget (jset k w v) k' = (if k' = k then Some w else jget v k')"
  by (cases v) (simp_all add: is_object_def)

text \<open>A hash set or map hands out its keys in some order, each once.\<close>

definition enumerates :: "('a set \<Rightarrow> 'a list) \<Rightarrow> 'a set \<Rightarrow> bool" where
  "enumerates iter S \<longleftrightarrow> set (iter S) = S \<and> distinct (iter S)"

definition tool_type :: "json \<Rightarrow> rstr option" where
  "tool_type t = get_str t (lit ''type'')"

text \<open>The value of a successful step, as a list.\<close>

definition ok_list :: "('e, 'a) result \<Rightarrow> 'a list" where
  "ok_list r = (case r of Inl e \<Rightarrow> [] | Inr a \<Rightarrow> [a])"

lemma ok_list_simps [simp]: "ok_list (Inl e) = []" "ok_list (Inr a) = [a]"
  by (simp_all add: ok_list_def)

lemma and_then_succeeds:
  "(\<exists>b. and_then r f = Ok b) \<longleftrightarrow> (\<exists>a. r = Ok a \<and> (\<exists>b. f a = Ok b))"
  by (cases r) auto

section \<open>What the connectors can express\<close>

definition plain_content :: "content_item list \<Rightarrow> bool" where
  "plain_content cs \<longleftrightarrow> list_all (\<lambda>c. case c of InputImage _ _ \<Rightarrow> False | _ \<Rightarrow> True) cs"

definition plain_agent_content :: "agent_message_input_content list \<Rightarrow> bool" where
  "plain_agent_content cs \<longleftrightarrow> list_all (\<lambda>c. case c of AgentInputText _ \<Rightarrow> True | _ \<Rightarrow> False) cs"

definition plain_output :: "function_call_output_payload \<Rightarrow> bool" where
  "plain_output out \<longleftrightarrow>
     (case out_body out of
        Text _ \<Rightarrow> True
      | ContentItems cs \<Rightarrow> list_all (\<lambda>c. case c of FcoInputText _ \<Rightarrow> True | _ \<Rightarrow> False) cs)"

text \<open>A history the connectors can express; a result that answers no call is never looked at. \<open>args_ok\<close> says
  which arguments of a call can be sent.\<close>

fun expressible :: "(rstr \<Rightarrow> bool) \<Rightarrow> rstr set \<Rightarrow> response_item list \<Rightarrow> bool" where
  "expressible args_ok seen [] = True"
| "expressible args_ok seen (i # is) =
     (case i of
        Message _ _ content _ _ \<Rightarrow> plain_content content \<and> expressible args_ok seen is
      | AgentMessage _ _ _ content _ \<Rightarrow> plain_agent_content content \<and> expressible args_ok seen is
      | FunctionCall _ _ ns arguments c _ \<Rightarrow>
          ns = None \<and> args_ok arguments \<and> expressible args_ok (insert c seen) is
      | FunctionCallOutput _ c out _ \<Rightarrow> (c \<in> seen \<longrightarrow> plain_output out) \<and> expressible args_ok seen is
      | Reasoning _ _ _ _ _ \<Rightarrow> expressible args_ok seen is
      | CompactionTrigger _ \<Rightarrow> expressible args_ok seen is
      | _ \<Rightarrow> False)"

definition choice_expressible :: "switch_ext \<Rightarrow> rstr \<Rightarrow> bool" where
  "choice_expressible x tc \<longleftrightarrow>
     tc \<in> {lit ''auto'', lit ''none'', lit ''required'', []}
     \<or> (case sw_parse x tc of
          Inl e \<Rightarrow> False
        | Inr v \<Rightarrow> get_str v (lit ''type'') = Some (lit ''function'') \<and> jget v (lit ''name'') \<noteq> None)"

end
