(* ===== verification/Switch_Route.thy ===== *)
theory Switch_Route
  imports Switch_Config
begin

text \<open>
  Purpose routing of llm-switch (purpose.rs, namespace.rs and the routing functions of lib.rs):
  an internal sub-task may be routed to the provider configured for its purpose; everything else
  falls back to routing by provider id, and then to the native path (no route).
\<close>

datatype purpose = PurposeCompact | PurposeReview | PurposeMemory

fun as_key :: "purpose \<Rightarrow> rstr" where
  "as_key PurposeCompact = lit ''compact''"
| "as_key PurposeReview = lit ''review''"
| "as_key PurposeMemory = lit ''memory''"

fun purpose_from_source :: "session_source \<Rightarrow> purpose option" where
  "purpose_from_source (SubAgent Review) = Some PurposeReview"
| "purpose_from_source (SubAgent Compact) = Some PurposeCompact"
| "purpose_from_source (SubAgent MemoryConsolidation) = Some PurposeMemory"
| "purpose_from_source (Internal InternalMemoryConsolidation) = Some PurposeMemory"
| "purpose_from_source _ = None"

fun is_namespaced_call :: "response_item \<Rightarrow> bool" where
  "is_namespaced_call (FunctionCall i name (Some ns) arguments call_id m) = True"
| "is_namespaced_call _ = False"

definition request_has_namespace_tools :: "responses_api_request \<Rightarrow> bool" where
  "request_has_namespace_tools req =
     (if list_ex (\<lambda>t. get_str t (lit ''type'') \<noteq> Some (lit ''function'')) (tools req) then True
      else list_ex is_namespaced_call (input req))"

record route =
  provider_id :: rstr
  route_cfg :: provider_cfg

definition provider_route :: "switch_config \<Rightarrow> rstr \<Rightarrow> route option" where
  "provider_route c pid =
     map_option (\<lambda>p. \<lparr>provider_id = pid, route_cfg = p\<rparr>) (providers c pid)"

definition route_in :: "switch_config \<Rightarrow> rstr \<Rightarrow> purpose option \<Rightarrow> bool \<Rightarrow> route option" where
  "route_in c pid purpose has_ns_tools =
     (if \<not> sw_enabled c then None
      else
        case purpose of
          None \<Rightarrow> provider_route c pid
        | Some p \<Rightarrow>
            (case purpose_table c (as_key p) of
               None \<Rightarrow> provider_route c pid
             | Some target \<Rightarrow>
                 (case providers c target of
                    None \<Rightarrow> provider_route c pid
                  | Some pc \<Rightarrow>
                      if has_ns_tools then provider_route c pid
                      else Some \<lparr>provider_id = target, route_cfg = pc\<rparr>)))"

definition should_bypass_in :: "switch_config \<Rightarrow> rstr \<Rightarrow> purpose option \<Rightarrow> bool" where
  "should_bypass_in c pid purpose =
     (if \<not> sw_enabled c then False
      else
        case purpose of
          Some p \<Rightarrow>
            (case purpose_table c (as_key p) of
               Some target \<Rightarrow> providers c target \<noteq> None
             | None \<Rightarrow> False)
        | None \<Rightarrow> False)"

definition route_request ::
  "switch_config \<Rightarrow> rstr \<Rightarrow> session_source option \<Rightarrow> responses_api_request \<Rightarrow> route option" where
  "route_request c pid source request =
     (let purpose = Option.bind source purpose_from_source;
          has_ns_tools = purpose \<noteq> None \<and> request_has_namespace_tools request
      in route_in c pid purpose has_ns_tools)"

definition should_bypass_websocket :: "switch_config \<Rightarrow> rstr \<Rightarrow> session_source option \<Rightarrow> bool" where
  "should_bypass_websocket c pid source =
     should_bypass_in c pid (Option.bind source purpose_from_source)"

section \<open>Two-level fallback\<close>

text \<open>The provider a purpose is mapped to, when the mapping leads to a known provider.\<close>

definition purpose_route :: "switch_config \<Rightarrow> purpose option \<Rightarrow> route option" where
  "purpose_route c purpose =
     Option.bind purpose (\<lambda>p.
       Option.bind (purpose_table c (as_key p)) (\<lambda>target.
         map_option (\<lambda>pc. \<lparr>provider_id = target, route_cfg = pc\<rparr>) (providers c target)))"

lemma route_in_fallback:
  "route_in c pid purpose ns =
     (if \<not> sw_enabled c then None
      else case (if ns then None else purpose_route c purpose) of
             Some r \<Rightarrow> Some r
           | None \<Rightarrow> provider_route c pid)"
  by (auto simp: route_in_def purpose_route_def split: option.splits)

lemma should_bypass_in_iff:
  "should_bypass_in c pid purpose \<longleftrightarrow> sw_enabled c \<and> purpose_route c purpose \<noteq> None"
  by (auto simp: should_bypass_in_def purpose_route_def split: option.splits)

section \<open>Properties\<close>

text \<open>
  Routing and the WebSocket bypass agree. A request that bypasses the WebSocket and has only
  expressible tools goes to the provider of its purpose; every other request goes where routing
  by provider id alone would send it, so a bad or missing purpose mapping never loses a route.
\<close>

theorem bypass_agrees_with_route:
  "route_in c pid purpose ns =
     (if should_bypass_in c pid purpose \<and> \<not> ns then purpose_route c purpose
      else route_in c pid None False)"
  by (auto simp: route_in_fallback should_bypass_in_iff purpose_route_def split: option.splits)

text \<open>
  A disabled switch takes no request: neither a route nor a bypass, whatever the tables
  hold. An enabled one only routes to providers of its table, under the id it reports.
\<close>

theorem routes_are_configured:
  assumes "route_request c pid source request = Some r"
  shows "sw_enabled c \<and> providers c (provider_id r) = Some (route_cfg r)
    \<and> (provider_id r = pid \<or> should_bypass_websocket c pid source)"
proof -
  from assms have *: "route_in c pid (Option.bind source purpose_from_source)
      (Option.bind source purpose_from_source \<noteq> None \<and> request_has_namespace_tools request) = Some r"
    by (simp add: route_request_def Let_def)
  then have "sw_enabled c" by (simp add: route_in_fallback split: if_splits)
  moreover from * this have "provider_route c pid = Some r
      \<or> purpose_route c (Option.bind source purpose_from_source) = Some r"
    by (auto simp: route_in_fallback split: if_splits option.splits)
  ultimately show ?thesis
    by (auto simp: provider_route_def purpose_route_def should_bypass_websocket_def
        should_bypass_in_iff bind_eq_Some_conv)
qed

definition route_sample :: switch_config where
  "route_sample =
     \<lparr>sw_enabled = True, providers = [lit ''cheap'' \<mapsto> provider_of raw_sample Chat Bearer],
      purpose_table = [lit ''compact'' \<mapsto> lit ''cheap'']\<rparr>"

definition request_sample :: responses_api_request where
  "request_sample =
     \<lparr>model = lit ''test'', instructions = [], input = [], tools = [], tool_choice = lit ''auto'',
      parallel_tool_calls = True, reasoning = None, store = False, stream = True,
      include_fields = [], service_tier = None, prompt_cache_key = None, text_cfg = None,
      client_metadata = None\<rparr>"

theorem routes_are_configured_witness:
  "\<exists>r. route_request route_sample (lit ''main'') (Some (SubAgent Compact)) request_sample = Some r
     \<and> provider_id r = lit ''cheap'' \<and> providers route_sample (provider_id r) = Some (route_cfg r)"
proof -
  have r: "route_request route_sample (lit ''main'') (Some (SubAgent Compact)) request_sample
      = Some \<lparr>provider_id = lit ''cheap'', route_cfg = provider_of raw_sample Chat Bearer\<rparr>"
    by (simp add: route_request_def request_sample_def route_sample_def route_in_def
        request_has_namespace_tools_def)
  from routes_are_configured [OF r] r show ?thesis by simp
qed

end
