(* ===== verification/Switch_Chat_Req.thy ===== *)
theory Switch_Chat_Req
  imports Switch_Connector Switch_Route
begin

text \<open>
  The Chat Completions request (zmod/llm-switch/src/connector/chat_req.rs): history items become
  messages, tool results are placed directly after the call they answer, missing results get a
  placeholder and results without a call are dropped. The iteration order of the hash set of
  open calls and of the hash map of left-over results is the argument \<open>iter\<close>; the first property
  proves the request independent of it, by giving a reference definition of the messages.
\<close>

fun message_text :: "content_item list \<Rightarrow> rstr \<Rightarrow> (conn_error, rstr) result" where
  "message_text [] acc = Ok acc"
| "message_text (InputText t # cs) acc = message_text cs (acc @ t)"
| "message_text (OutputText t # cs) acc = message_text cs (acc @ t)"
| "message_text (InputImage u d # cs) acc =
     Err (HardFail (lit ''image input not supported in v1 chat connector (no capability flag)''))"

definition map_message :: "rstr \<Rightarrow> content_item list \<Rightarrow> (conn_error, json) result" where
  "map_message role content =
     and_then (message_text content []) (\<lambda>txt.
       Ok (jobj [(lit ''role'', JString role), (lit ''content'', JString txt)]))"

fun agent_message_text :: "agent_message_input_content list \<Rightarrow> rstr \<Rightarrow> (conn_error, rstr) result" where
  "agent_message_text [] acc = Ok acc"
| "agent_message_text (AgentInputText t # cs) acc = agent_message_text cs (acc @ t)"
| "agent_message_text (AgentEncryptedContent e # cs) acc =
     Err (HardFail (lit ''AgentMessage contains encrypted content (EncryptedContent), v1 chat connector cannot read it''))"

definition map_agent_message :: "agent_message_input_content list \<Rightarrow> (conn_error, json) result" where
  "map_agent_message content =
     and_then (agent_message_text content []) (\<lambda>txt.
       Ok (jobj [(lit ''role'', jstr ''assistant''), (lit ''content'', JString txt)]))"

fun content_items_to_text ::
  "function_call_output_content_item list \<Rightarrow> rstr \<Rightarrow> (conn_error, rstr) result" where
  "content_items_to_text [] acc = Ok acc"
| "content_items_to_text (FcoInputText t # cs) acc = content_items_to_text cs (acc @ t)"
| "content_items_to_text (FcoInputImage u d # cs) acc =
     Err (HardFail (lit ''tool result contains image content (InputImage), v1 chat connector does not support it''))"
| "content_items_to_text (FcoEncryptedContent e # cs) acc =
     Err (HardFail (lit ''tool result contains encrypted content (EncryptedContent), v1 chat connector does not support it''))"

definition map_function_call_output ::
  "rstr \<Rightarrow> function_call_output_payload \<Rightarrow> (conn_error, json) result" where
  "map_function_call_output call_id out =
     and_then (case out_body out of
                 Text t \<Rightarrow> Ok t
               | ContentItems cs \<Rightarrow> content_items_to_text cs []) (\<lambda>txt.
       let txt = (if out_success out = Some False then lit ''[tool error] '' @ txt else txt) in
       Ok (jobj [(lit ''role'', jstr ''tool''), (lit ''tool_call_id'', JString call_id),
                 (lit ''content'', JString txt)]))"

fun map_chat_tool :: "switch_ext \<Rightarrow> json \<Rightarrow> (conn_error, json) result" where
  "map_chat_tool x t =
     (if tool_type t = Some (lit ''function'') then
        let name = unwrap_or JNull (jget t (lit ''name''));
            description = unwrap_or JNull (jget t (lit ''description''));
            parameters = unwrap_or (jobj [(lit ''type'', jstr ''object'')])
              (jget t (lit ''parameters''))
        in Ok (jobj [(lit ''type'', jstr ''function''),
             (lit ''function'', jobj [(lit ''name'', name), (lit ''description'', description),
                                      (lit ''parameters'', parameters)])])
      else Err (HardFail (lit ''tool definition type '' @ debug_text x (tool_type t)
        @ lit '' not supported in v1 chat connector (only standard function supported)'')))"

definition map_chat_tools :: "switch_ext \<Rightarrow> json list \<Rightarrow> (conn_error, json list option) result" where
  "map_chat_tools x ts =
     (if ts = [] then Ok None else and_then (map_result (map_chat_tool x) ts) (\<lambda>out. Ok (Some out)))"

definition map_chat_tool_choice :: "switch_ext \<Rightarrow> rstr \<Rightarrow> (conn_error, json option) result" where
  "map_chat_tool_choice x tc =
     (if tc = lit ''auto'' then Ok (Some (jstr ''auto''))
      else if tc = lit ''none'' then Ok (Some (jstr ''none''))
      else if tc = lit ''required'' then Ok (Some (jstr ''required''))
      else if tc = [] then Ok None
      else
        let fail = Err (HardFail (lit ''tool_choice '' @ [39] @ tc
              @ [39] @ lit '' cannot be expressed in Chat Completions protocol'')) in
        case sw_parse x tc of
          Inl e \<Rightarrow> fail
        | Inr v \<Rightarrow>
            if get_str v (lit ''type'') = Some (lit ''function'') then
              case jget v (lit ''name'') of
                Some name \<Rightarrow> Ok (Some (jobj [(lit ''type'', jstr ''function''),
                  (lit ''function'', jobj [(lit ''name'', name)])]))
              | None \<Rightarrow> fail
            else fail)"

section \<open>Placing tool results\<close>

definition tool_message_id :: "json \<Rightarrow> rstr option" where
  "tool_message_id msg =
     (if get_str msg (lit ''role'') = Some (lit ''tool'') then get_str msg (lit ''tool_call_id'') else None)"

fun collect_tools :: "json list \<Rightarrow> (rstr \<rightharpoonup> json list) \<Rightarrow> json list \<Rightarrow> (rstr \<rightharpoonup> json list) \<times> json list" where
  "collect_tools [] tool_by_id non_tool = (tool_by_id, non_tool)"
| "collect_tools (msg # msgs) tool_by_id non_tool =
     (case tool_message_id msg of
        Some i \<Rightarrow> collect_tools msgs (tool_by_id(i \<mapsto> unwrap_or [] (tool_by_id i) @ [msg])) non_tool
      | None \<Rightarrow> collect_tools msgs tool_by_id (non_tool @ [msg]))"

fun take_results :: "json list \<Rightarrow> (rstr \<rightharpoonup> json list) \<Rightarrow> json list \<times> (rstr \<rightharpoonup> json list)" where
  "take_results [] tool_by_id = ([], tool_by_id)"
| "take_results (tc # tcs) tool_by_id =
     (case get_str tc (lit ''id'') of
        None \<Rightarrow> take_results tcs tool_by_id
      | Some i \<Rightarrow>
          (case tool_by_id i of
             None \<Rightarrow> take_results tcs tool_by_id
           | Some tool_msgs \<Rightarrow>
               let (rs, m) = take_results tcs (tool_by_id(i := None)) in (tool_msgs @ rs, m)))"

fun place_tools :: "json list \<Rightarrow> (rstr \<rightharpoonup> json list) \<Rightarrow> json list \<times> (rstr \<rightharpoonup> json list)" where
  "place_tools [] tool_by_id = ([], tool_by_id)"
| "place_tools (msg # msgs) tool_by_id =
     (let (ins, m) =
        (case get_array msg (lit ''tool_calls'') of
           Some tool_calls \<Rightarrow>
             if get_str msg (lit ''role'') = Some (lit ''assistant'')
             then take_results tool_calls tool_by_id else ([], tool_by_id)
         | None \<Rightarrow> ([], tool_by_id));
        (rs, m) = place_tools msgs m
      in (msg # ins @ rs, m))"

definition reorder_tool_messages :: "(rstr set \<Rightarrow> rstr list) \<Rightarrow> json list \<Rightarrow> json list" where
  "reorder_tool_messages iter messages =
     (let (tool_by_id, non_tool) = collect_tools messages Map.empty [];
          (rs, left) = place_tools non_tool tool_by_id
      in rs @ concat (map (\<lambda>i. unwrap_or [] (left i)) (iter (dom left))))"

section \<open>The request\<close>

record chat_build =
  messages :: "json list"
  seen_calls :: "rstr set"
  calls_needing_result :: "rstr set"

definition chat_call_message :: "rstr \<Rightarrow> rstr \<Rightarrow> rstr \<Rightarrow> json" where
  "chat_call_message name arguments call_id =
     jobj [(lit ''role'', jstr ''assistant''),
       (lit ''tool_calls'', JArray [jobj [(lit ''id'', JString call_id), (lit ''type'', jstr ''function''),
          (lit ''function'', jobj [(lit ''name'', JString name), (lit ''arguments'', JString arguments)])]])]"

definition chat_placeholder :: "rstr \<Rightarrow> json" where
  "chat_placeholder call_id =
     jobj [(lit ''role'', jstr ''tool''), (lit ''tool_call_id'', JString call_id),
           (lit ''content'', jstr ''[No output available yet]'')]"

definition push_message :: "json \<Rightarrow> chat_build \<Rightarrow> chat_build" where
  "push_message m b = b\<lparr>messages := messages b @ [m]\<rparr>"

definition chat_unsupported :: "string \<Rightarrow> (conn_error, 'a) result" where
  "chat_unsupported what = Err (HardFail (lit what @ lit '' not supported in v1 chat connector''))"

fun chat_item :: "response_item \<Rightarrow> chat_build \<Rightarrow> (conn_error, chat_build) result" where
  "chat_item (Message i role content ph m) b =
     and_then (map_message role content) (\<lambda>msg. Ok (push_message msg b))"
| "chat_item (FunctionCall i name namespace arguments call_id m) b =
     (if namespace \<noteq> None
      then Err (HardFail (lit ''namespaced function call '' @ [39] @ name @ [39]
             @ lit '' not supported in v1 chat connector''))
      else Ok (push_message (chat_call_message name arguments call_id)
             (b\<lparr>seen_calls := insert call_id (seen_calls b),
                calls_needing_result := insert call_id (calls_needing_result b)\<rparr>)))"
| "chat_item (FunctionCallOutput i call_id out m) b =
     (if call_id \<notin> seen_calls b then Ok b
      else and_then (map_function_call_output call_id out) (\<lambda>msg.
        Ok (push_message msg (b\<lparr>calls_needing_result := calls_needing_result b - {call_id}\<rparr>))))"
| "chat_item (AgentMessage i author recipient content m) b =
     and_then (map_agent_message content) (\<lambda>msg. Ok (push_message msg b))"
| "chat_item (Reasoning _ _ _ _ _) b = Ok b"
| "chat_item (CompactionTrigger _) b = Ok b"
| "chat_item (LocalShellCall _ _ _ _ _) b = chat_unsupported ''LocalShellCall''"
| "chat_item (ToolSearchCall _ _ _ _ _ _) b = chat_unsupported ''ToolSearchCall''"
| "chat_item (ToolSearchOutput _ _ _ _ _ _) b = chat_unsupported ''ToolSearchOutput''"
| "chat_item (WebSearchCall _ _ _ _) b = chat_unsupported ''WebSearchCall''"
| "chat_item (ImageGenerationCall _ _ _ _ _) b = chat_unsupported ''ImageGenerationCall''"
| "chat_item (CustomToolCall _ _ _ _ _ _) b = chat_unsupported ''CustomToolCall''"
| "chat_item (CustomToolCallOutput _ _ _ _ _) b = chat_unsupported ''CustomToolCallOutput''"
| "chat_item (Compaction _ _ _) b = chat_unsupported ''Compaction (encrypted content)''"
| "chat_item (ContextCompaction _ _ _) b = chat_unsupported ''ContextCompaction (encrypted content)''"
| "chat_item Other b = chat_unsupported ''unknown ResponseItem variant (Other)''"

fun chat_items :: "response_item list \<Rightarrow> chat_build \<Rightarrow> (conn_error, chat_build) result" where
  "chat_items [] b = Ok b"
| "chat_items (i # is) b = and_then (chat_item i b) (chat_items is)"

definition chat_field_downgrade :: "responses_api_request \<Rightarrow> json \<Rightarrow> json" where
  "chat_field_downgrade req body =
     (let body = (case Option.bind (reasoning req) effort of
                    Some e \<Rightarrow> jset (lit ''reasoning_effort'') (JString (reasoning_effort_as_str e)) body
                  | None \<Rightarrow> body)
      in case Option.bind (text_cfg req) format of
           None \<Rightarrow> body
         | Some f \<Rightarrow>
             let fmt_val = text_format_to_value f in
             if get_str fmt_val (lit ''type'') = Some (lit ''json_schema'') then
               let field = (\<lambda>k m. case jget fmt_val k of Some v \<Rightarrow> fmupd k v m | None \<Rightarrow> m);
                   json_schema = field (lit ''strict'') (field (lit ''schema'') (field (lit ''name'') fmempty))
               in jset (lit ''response_format'')
                    (jobj [(lit ''type'', jstr ''json_schema''), (lit ''json_schema'', JObject json_schema)])
                    body
             else body)"

definition system_messages :: "responses_api_request \<Rightarrow> json list" where
  "system_messages req =
     (if instructions req = [] then []
      else [jobj [(lit ''role'', jstr ''system''), (lit ''content'', JString (instructions req))]])"

definition chat_tool_fields ::
  "switch_ext \<Rightarrow> responses_api_request \<Rightarrow> json list option \<Rightarrow> json \<Rightarrow> (conn_error, json) result" where
  "chat_tool_fields x req ts body =
     (case ts of
        None \<Rightarrow> Ok body
      | Some tools_arr \<Rightarrow>
          and_then (map_chat_tool_choice x (tool_choice req)) (\<lambda>tc.
            let body = jset (lit ''tools'') (JArray tools_arr) body in
            Ok (case tc of Some v \<Rightarrow> jset (lit ''tool_choice'') v body | None \<Rightarrow> body)))"

definition build_chat_request ::
  "switch_ext \<Rightarrow> (rstr set \<Rightarrow> rstr list) \<Rightarrow> responses_api_request \<Rightarrow> egress_ctx \<Rightarrow> (conn_error, json) result" where
  "build_chat_request x iter req ctx =
     and_then (map_chat_tools x (tools req)) (\<lambda>ts.
     and_then (chat_items (input req)
         \<lparr>messages = system_messages req, seen_calls = {}, calls_needing_result = {}\<rparr>) (\<lambda>b.
       let msgs = reorder_tool_messages iter
             (messages b @ map chat_placeholder (iter (calls_needing_result b)));
           body = jobj [(lit ''model'', JString (ctx_model ctx)), (lit ''messages'', JArray msgs),
             (lit ''stream'', JBool True),
             (lit ''stream_options'', jobj [(lit ''include_usage'', JBool True)]),
             (lit ''parallel_tool_calls'', JBool (parallel_tool_calls req))]
       in and_then (chat_tool_fields x req ts body) (\<lambda>body.
            Ok (chat_field_downgrade req body))))"

section \<open>The reference: every call is followed by its results\<close>

fun calls_of :: "response_item list \<Rightarrow> rstr set" where
  "calls_of [] = {}"
| "calls_of (i # is) =
     (case i of FunctionCall _ _ _ _ c _ \<Rightarrow> insert c (calls_of is) | _ \<Rightarrow> calls_of is)"

text \<open>The results of call \<open>c\<close> that come after its first call, and whether its last call is open.\<close>

fun tool_results :: "rstr \<Rightarrow> bool \<Rightarrow> response_item list \<Rightarrow> json list" where
  "tool_results c seen [] = []"
| "tool_results c seen (i # is) =
     (case i of
        FunctionCall _ _ _ _ c' _ \<Rightarrow> tool_results c (c = c' \<or> seen) is
      | FunctionCallOutput _ c' out _ \<Rightarrow>
          (if c' = c \<and> seen then ok_list (map_function_call_output c out) else [])
            @ tool_results c seen is
      | _ \<Rightarrow> tool_results c seen is)"

fun still_open :: "rstr \<Rightarrow> bool \<Rightarrow> response_item list \<Rightarrow> bool" where
  "still_open c p [] = p"
| "still_open c p (i # is) =
     (case i of
        FunctionCall _ _ _ _ c' _ \<Rightarrow> still_open c (p \<or> c' = c) is
      | FunctionCallOutput _ c' _ _ \<Rightarrow> still_open c (p \<and> c' \<noteq> c) is
      | _ \<Rightarrow> still_open c p is)"

definition placed_results :: "response_item list \<Rightarrow> rstr \<Rightarrow> json list" where
  "placed_results its c =
     tool_results c False its @ (if still_open c False its then [chat_placeholder c] else [])"

fun chat_reference :: "(rstr \<Rightarrow> json list) \<Rightarrow> rstr set \<Rightarrow> response_item list \<Rightarrow> json list" where
  "chat_reference res placed [] = []"
| "chat_reference res placed (i # is) =
     (case i of
        Message _ role content _ _ \<Rightarrow> ok_list (map_message role content) @ chat_reference res placed is
      | AgentMessage _ _ _ content _ \<Rightarrow> ok_list (map_agent_message content) @ chat_reference res placed is
      | FunctionCall _ name _ arguments c _ \<Rightarrow>
          chat_call_message name arguments c # (if c \<in> placed then [] else res c)
            @ chat_reference res (insert c placed) is
      | _ \<Rightarrow> chat_reference res placed is)"

text \<open>The messages of a history that are not tool results.\<close>

fun plain_messages :: "response_item list \<Rightarrow> json list" where
  "plain_messages [] = []"
| "plain_messages (i # is) =
     (case i of
        Message _ role content _ _ \<Rightarrow> ok_list (map_message role content)
      | AgentMessage _ _ _ content _ \<Rightarrow> ok_list (map_agent_message content)
      | FunctionCall _ name _ arguments c _ \<Rightarrow> [chat_call_message name arguments c]
      | _ \<Rightarrow> []) @ plain_messages is"

lemma tool_message_ids:
  "map_message role content = Ok m \<Longrightarrow> tool_message_id m = None"
  "map_agent_message ac = Ok m \<Longrightarrow> tool_message_id m = None"
  "tool_message_id (chat_call_message n a c) = None"
  "tool_message_id (chat_placeholder c) = Some c"
  "map_function_call_output c out = Ok m \<Longrightarrow> tool_message_id m = Some c"
  by (auto simp: map_message_def map_agent_message_def map_function_call_output_def and_then_Ok_iff
      tool_message_id_def chat_call_message_def chat_placeholder_def json_simps Let_def)

lemma collect_tools_eq:
  "collect_tools ms m nt =
     ((\<lambda>i. let ts = filter (\<lambda>x. tool_message_id x = Some i) ms
           in if ts = [] then m i else Some (unwrap_or [] (m i) @ ts)),
      nt @ filter (\<lambda>x. tool_message_id x = None) ms)"
proof (induction ms arbitrary: m nt)
  case (Cons msg ms)
  show ?case
  proof (cases "tool_message_id msg")
    case None
    with Cons show ?thesis by simp
  next
    case (Some i)
    then show ?thesis
      by (simp add: Cons.IH) (auto simp: fun_eq_iff Let_def unwrap_or_def)
  qed
qed simp

text \<open>One pass of the item loop.\<close>

definition loop_rel :: "response_item list \<Rightarrow> chat_build \<Rightarrow> chat_build \<Rightarrow> bool" where
  "loop_rel its b b' \<longleftrightarrow>
     seen_calls b' = seen_calls b \<union> calls_of its
     \<and> calls_needing_result b' = {c. still_open c (c \<in> calls_needing_result b) its}
     \<and> (\<forall>c. filter (\<lambda>m. tool_message_id m = Some c) (messages b')
            = filter (\<lambda>m. tool_message_id m = Some c) (messages b) @ tool_results c (c \<in> seen_calls b) its)
     \<and> filter (\<lambda>m. tool_message_id m = None) (messages b')
        = filter (\<lambda>m. tool_message_id m = None) (messages b) @ plain_messages its"

lemma chat_item_rel:
  assumes "chat_item i b = Ok b1" and "calls_needing_result b \<subseteq> seen_calls b"
  shows "loop_rel [i] b b1 \<and> calls_needing_result b1 \<subseteq> seen_calls b1"
  using assms
  by (cases "(i, b)" rule: chat_item.cases)
     (auto simp: loop_rel_def push_message_def and_then_Ok_iff tool_message_ids chat_unsupported_def
       split: if_splits)

lemma chat_items_Cons_rel:
  assumes "loop_rel [i] b b1" and "loop_rel is b1 b2"
  shows "loop_rel (i # is) b b2"
  using assms by (cases i) (auto simp: loop_rel_def)

lemma chat_items_rel:
  "chat_items its b = Ok b' \<Longrightarrow> calls_needing_result b \<subseteq> seen_calls b \<Longrightarrow> loop_rel its b b'"
proof (induction its arbitrary: b)
  case Nil
  then show ?case by (simp add: loop_rel_def)
next
  case (Cons i its)
  then obtain b1 where "chat_item i b = Ok b1" "chat_items its b1 = Ok b'"
    by (auto simp: and_then_Ok_iff)
  with chat_item_rel Cons chat_items_Cons_rel show ?case by blast
qed

section \<open>The placement pass\<close>

lemma take_results_single:
  "get_str tc (lit ''id'') = Some c \<Longrightarrow> take_results [tc] m = (unwrap_or [] (m c), m(c := None))"
  by (auto simp: unwrap_or_def fun_upd_idem split: option.splits)

lemma place_call:
  "place_tools (chat_call_message n a c # ms) m =
     (let (rs, m') = place_tools ms (m(c := None))
      in (chat_call_message n a c # unwrap_or [] (m c) @ rs, m'))"
proof -
  have "get_array (chat_call_message n a c) (lit ''tool_calls'')
      = Some [jobj [(lit ''id'', JString c), (lit ''type'', jstr ''function''),
          (lit ''function'', jobj [(lit ''name'', JString n), (lit ''arguments'', JString a)])]]"
    and "get_str (chat_call_message n a c) (lit ''role'') = Some (lit ''assistant'')"
    by (simp_all add: chat_call_message_def json_simps)
  moreover have "take_results [jobj [(lit ''id'', JString c), (lit ''type'', jstr ''function''),
          (lit ''function'', jobj [(lit ''name'', JString n), (lit ''arguments'', JString a)])]] m
      = (unwrap_or [] (m c), m(c := None))"
    by (rule take_results_single) (simp add: json_simps)
  ultimately show ?thesis by (simp add: Let_def del: take_results.simps)
qed

lemma place_plain:
  "get_array msg (lit ''tool_calls'') = None \<Longrightarrow>
     place_tools (msg # ms) m = (let (rs, m') = place_tools ms m in (msg # rs, m'))"
  by simp

lemma no_tool_calls:
  "map_message role content = Ok msg \<Longrightarrow> get_array msg (lit ''tool_calls'') = None"
  "map_agent_message ac = Ok msg \<Longrightarrow> get_array msg (lit ''tool_calls'') = None"
  by (auto simp: map_message_def map_agent_message_def and_then_Ok_iff json_simps)

lemma place_ok_list:
  assumes "\<And>msg. r = Ok msg \<Longrightarrow> get_array msg (lit ''tool_calls'') = None"
  shows "place_tools (ok_list r @ ms) m = (let (rs, m') = place_tools ms m in (ok_list r @ rs, m'))"
  using assms by (cases r) (simp_all add: place_plain split: prod.splits)

lemma place_plain_messages:
  assumes "\<And>c. c \<in> placed \<Longrightarrow> m c = None"
    and "\<And>c. c \<notin> placed \<Longrightarrow> unwrap_or [] (m c) = res c"
  shows "place_tools (plain_messages its) m
     = (chat_reference res placed its, \<lambda>c. if c \<in> calls_of its then None else m c)"
  using assms
proof (induction its arbitrary: m placed)
  case (Cons i its)
  show ?case
  proof (cases i)
    case (FunctionCall a name ns arguments c md)
    let ?m = "m(c := None)"
    have "place_tools (plain_messages its) ?m
       = (chat_reference res (insert c placed) its, \<lambda>c'. if c' \<in> calls_of its then None else ?m c')"
      using Cons.prems by (intro Cons.IH) auto
    moreover have "unwrap_or [] (m c) = (if c \<in> placed then [] else res c)"
      using Cons.prems by (auto simp: unwrap_or_def)
    ultimately show ?thesis
      using FunctionCall by (auto simp: place_call fun_eq_iff simp del: place_tools.simps(2))
  next
    case (Message a role content ph md)
    then show ?thesis
      using Cons.IH [OF Cons.prems]
      by (simp add: place_ok_list no_tool_calls del: place_tools.simps(2))
  next
    case (AgentMessage a au re content md)
    then show ?thesis
      using Cons.IH [OF Cons.prems]
      by (simp add: place_ok_list no_tool_calls del: place_tools.simps(2))
  qed (use Cons.IH [OF Cons.prems] in simp_all)
qed simp

lemma tool_results_called: "tool_results c p its \<noteq> [] \<Longrightarrow> p \<or> c \<in> calls_of its"
  by (induction its arbitrary: p) (fastforce split: response_item.splits if_splits)+

lemma still_open_called: "still_open c p its \<Longrightarrow> p \<or> c \<in> calls_of its"
  by (induction its arbitrary: p) (fastforce split: response_item.splits if_splits)+

lemma filter_placeholders:
  "distinct cs \<Longrightarrow> filter (\<lambda>m. tool_message_id m = Some c) (map chat_placeholder cs)
     = (if c \<in> set cs then [chat_placeholder c] else [])"
  by (induction cs) (auto simp: tool_message_ids filter_empty_conv)

lemma filter_placeholders_None:
  "filter (\<lambda>m. tool_message_id m = None) (map chat_placeholder cs) = []"
  by (simp add: tool_message_ids filter_empty_conv)

lemma place_system:
  "place_tools (system_messages req @ ms) m
     = (let (rs, m') = place_tools ms m in (system_messages req @ rs, m'))"
  by (simp add: system_messages_def json_simps split: prod.splits)

lemma chat_messages_reference:
  assumes items: "chat_items its \<lparr>messages = system_messages req, seen_calls = {}, calls_needing_result = {}\<rparr> = Ok b"
    and iter: "enumerates iter (calls_needing_result b)" "enumerates iter {}"
  shows "reorder_tool_messages iter (messages b @ map chat_placeholder (iter (calls_needing_result b)))
     = system_messages req @ chat_reference (placed_results its) {} its"
proof -
  let ?ps = "map chat_placeholder (iter (calls_needing_result b))"
  have sys: "filter (\<lambda>m. tool_message_id m = None) (system_messages req) = system_messages req"
    "filter (\<lambda>m. tool_message_id m = Some c) (system_messages req) = []" for c
    by (simp_all add: system_messages_def tool_message_id_def json_simps)
  have rel: "loop_rel its \<lparr>messages = system_messages req, seen_calls = {}, calls_needing_result = {}\<rparr> b"
    using chat_items_rel [OF items] by simp
  then have needing: "calls_needing_result b = {c. still_open c False its}"
    by (simp add: loop_rel_def)
  have tool: "filter (\<lambda>m. tool_message_id m = Some c) (messages b @ ?ps) = placed_results its c" for c
    using rel iter(1)
    by (simp add: loop_rel_def sys filter_placeholders placed_results_def enumerates_def needing
        del: filter_map)
  have plain: "filter (\<lambda>m. tool_message_id m = None) (messages b @ ?ps)
      = system_messages req @ plain_messages its"
    using rel by (simp add: loop_rel_def sys filter_placeholders_None del: filter_map)
  define m where "m = (\<lambda>c. if placed_results its c = [] then None else Some (placed_results its c))"
  have collect: "collect_tools (messages b @ ?ps) Map.empty [] = (m, system_messages req @ plain_messages its)"
    by (simp only: collect_tools_eq tool plain) (simp add: m_def fun_eq_iff unwrap_or_def)
  have "place_tools (plain_messages its) m = (chat_reference (placed_results its) {} its,
      \<lambda>c. if c \<in> calls_of its then None else m c)"
    by (rule place_plain_messages) (simp_all add: m_def unwrap_or_def)
  moreover have "m c = None" if "c \<notin> calls_of its" for c
    using that tool_results_called [of c False its] still_open_called [of c False its]
    by (auto simp: m_def placed_results_def)
  ultimately have place: "place_tools (plain_messages its) m
      = (chat_reference (placed_results its) {} its, Map.empty)"
    by (auto simp: fun_eq_iff)
  have "iter {} = []" using iter(2) by (simp add: enumerates_def)
  then show ?thesis
    by (simp add: reorder_tool_messages_def collect place_system place)
qed

section \<open>Properties of the Chat request\<close>

lemma chat_tool_fields_keep:
  "chat_tool_fields x req ts body = Ok body' \<Longrightarrow> is_object body \<Longrightarrow>
     is_object body' \<and> jget body' (lit ''messages'') = jget body (lit ''messages'')"
  by (auto simp: chat_tool_fields_def and_then_Ok_iff Let_def split: option.splits)

lemma chat_field_downgrade_keep:
  "is_object body \<Longrightarrow>
     jget (chat_field_downgrade req body) (lit ''messages'') = jget body (lit ''messages'')"
  by (simp add: chat_field_downgrade_def Let_def split: option.splits)

definition open_calls :: "response_item list \<Rightarrow> rstr set" where
  "open_calls its = {c. still_open c False its}"

text \<open>
  C14. In a Chat request every tool call is directly followed by its results: the messages of a
  successful request are the system message and the reference sequence, in which the first call
  with an identifier is followed by all results that answer it, in order, with a placeholder when
  its last call is open. The order in which the hash tables are iterated has no influence.
\<close>

theorem chat_results_follow_calls:
  assumes "build_chat_request x iter req ctx = Ok body"
    and "enumerates iter (open_calls (input req))" and "enumerates iter {}"
  shows "jget body (lit ''messages'') = Some (JArray
     (system_messages req @ chat_reference (placed_results (input req)) {} (input req)))"
proof -
  let ?b0 = "\<lparr>messages = system_messages req, seen_calls = {}, calls_needing_result = {}\<rparr>"
  let ?body = "\<lambda>b. jobj [(lit ''model'', JString (ctx_model ctx)),
     (lit ''messages'', JArray (reorder_tool_messages iter
        (messages b @ map chat_placeholder (iter (calls_needing_result b))))),
     (lit ''stream'', JBool True), (lit ''stream_options'', jobj [(lit ''include_usage'', JBool True)]),
     (lit ''parallel_tool_calls'', JBool (parallel_tool_calls req))]"
  from assms(1) obtain ts b body1 where items: "chat_items (input req) ?b0 = Ok b"
    and fields: "chat_tool_fields x req ts (?body b) = Ok body1"
    and body: "body = chat_field_downgrade req body1"
    by (auto simp: build_chat_request_def and_then_Ok_iff Let_def)
  have "loop_rel (input req) ?b0 b" using chat_items_rel [OF items] by simp
  then have "calls_needing_result b = open_calls (input req)"
    by (simp add: loop_rel_def open_calls_def)
  then have msgs: "reorder_tool_messages iter
       (messages b @ map chat_placeholder (iter (calls_needing_result b)))
     = system_messages req @ chat_reference (placed_results (input req)) {} (input req)"
    using chat_messages_reference [OF items] assms(2,3) by simp
  from chat_tool_fields_keep [OF fields] chat_field_downgrade_keep [of body1 req] body msgs
  show ?thesis by (simp add: json_simps)
qed

definition chat_history_sample :: responses_api_request where
  "chat_history_sample = request_sample\<lparr>input :=
     [FunctionCall None (lit ''f'') None (lit ''{}'') (lit ''a'') None,
      FunctionCall None (lit ''g'') None (lit ''{}'') (lit ''b'') None,
      FunctionCallOutput None (lit ''a'') \<lparr>out_body = Text (lit ''r''), out_success = Some True\<rparr> None]\<rparr>"

definition ctx_sample :: egress_ctx where
  "ctx_sample = \<lparr>ctx_base_url = lit ''u'', ctx_model = lit ''m'', ctx_auth = Bearer,
     ctx_key = Some (lit ''k''), ctx_anthropic_version = None, ctx_path_override = None,
     ctx_default_max_tokens = None, ctx_prompt_cache = False, ctx_auth_fallback = None\<rparr>"

theorem chat_results_follow_calls_witness:
  "\<exists>body. build_chat_request switch_ext_plain (\<lambda>S. if S = {} then [] else [lit ''b''])
        chat_history_sample ctx_sample = Ok body
     \<and> jget body (lit ''messages'') = Some (JArray
        [chat_call_message (lit ''f'') (lit ''{}'') (lit ''a''),
         jobj [(lit ''role'', jstr ''tool''), (lit ''tool_call_id'', JString (lit ''a'')),
               (lit ''content'', JString (lit ''r''))],
         chat_call_message (lit ''g'') (lit ''{}'') (lit ''b''), chat_placeholder (lit ''b'')])"
proof -
  let ?iter = "\<lambda>S. if S = {} then [] else [lit ''b'']"
  have open_calls: "open_calls (input chat_history_sample) = {lit ''b''}"
    by (auto simp: open_calls_def chat_history_sample_def)
  have "\<exists>body. build_chat_request switch_ext_plain ?iter chat_history_sample ctx_sample = Ok body"
    by (simp add: build_chat_request_def chat_history_sample_def request_sample_def map_chat_tools_def
        map_function_call_output_def push_message_def chat_tool_fields_def Let_def)
  then obtain body where b: "build_chat_request switch_ext_plain ?iter chat_history_sample ctx_sample = Ok body"
    by blast
  have "jget body (lit ''messages'') = Some (JArray (system_messages chat_history_sample
      @ chat_reference (placed_results (input chat_history_sample)) {} (input chat_history_sample)))"
    using chat_results_follow_calls [OF b] by (simp add: open_calls enumerates_def)
  with b show ?thesis
    by (simp add: chat_history_sample_def request_sample_def system_messages_def placed_results_def
        map_function_call_output_def)
qed

section \<open>When a request is refused\<close>

lemma message_text_ok: "(\<exists>t. message_text cs acc = Ok t) \<longleftrightarrow> plain_content cs"
  by (induction cs acc rule: message_text.induct) (auto simp: plain_content_def)

lemma agent_message_text_ok: "(\<exists>t. agent_message_text cs acc = Ok t) \<longleftrightarrow> plain_agent_content cs"
  by (induction cs acc rule: agent_message_text.induct) (auto simp: plain_agent_content_def)

lemma content_items_to_text_ok:
  "(\<exists>t. content_items_to_text cs acc = Ok t)
     \<longleftrightarrow> list_all (\<lambda>c. case c of FcoInputText _ \<Rightarrow> True | _ \<Rightarrow> False) cs"
  by (induction cs acc rule: content_items_to_text.induct) auto

lemma chat_item_ok:
  "(\<exists>b'. chat_item i b = Ok b') \<longleftrightarrow> expressible (\<lambda>_. True) (seen_calls b) [i]"
proof (cases i)
  case (FunctionCallOutput a c out m)
  have "(\<exists>v. map_function_call_output c out = Ok v) \<longleftrightarrow> plain_output out"
    using content_items_to_text_ok [of _ "[]"]
    by (auto simp: map_function_call_output_def plain_output_def and_then_Ok_iff Let_def
        split: function_call_output_body.splits)
  then show ?thesis by (auto simp: FunctionCallOutput and_then_Ok_iff)
qed (use message_text_ok [of _ "[]"] agent_message_text_ok [of _ "[]"] in
  \<open>auto simp: map_message_def map_agent_message_def and_then_Ok_iff chat_unsupported_def\<close>)

lemma chat_item_seen:
  "chat_item i b = Ok b' \<Longrightarrow> expressible (\<lambda>_. True) (seen_calls b) (i # is)
     = expressible (\<lambda>_. True) (seen_calls b') is"
  using chat_item_ok [of i b]
  by (cases "(i, b)" rule: chat_item.cases)
     (auto simp: push_message_def and_then_Ok_iff chat_unsupported_def split: if_splits)

lemma chat_items_ok: "(\<exists>b'. chat_items is b = Ok b') \<longleftrightarrow> expressible (\<lambda>_. True) (seen_calls b) is"
proof (induction "is" arbitrary: b)
  case (Cons i "is")
  show ?case
  proof (cases "chat_item i b")
    case (Inl e)
    then have "\<not> expressible (\<lambda>_. True) (seen_calls b) [i]" using chat_item_ok [of i b] by auto
    then have "\<not> expressible (\<lambda>_. True) (seen_calls b) (i # is)" by (cases i) auto
    with Inl show ?thesis by simp
  next
    case (Inr b1)
    with Cons.IH [of b1] chat_item_seen [OF Inr] show ?thesis by simp
  qed
qed simp

lemma map_chat_tools_ok:
  "(\<exists>ts. map_chat_tools x l = Ok ts) \<longleftrightarrow> list_all (\<lambda>t. tool_type t = Some (lit ''function'')) l"
proof -
  have "(\<exists>ts. map_result (map_chat_tool x) l = Ok ts)
      \<longleftrightarrow> list_all (\<lambda>t. tool_type t = Some (lit ''function'')) l"
    by (induction l) (auto simp: and_then_Ok_iff Let_def)
  then show ?thesis by (auto simp: map_chat_tools_def and_then_Ok_iff)
qed

lemma map_chat_tool_choice_ok:
  "(\<exists>v. map_chat_tool_choice x tc = Ok v) \<longleftrightarrow> choice_expressible x tc"
  by (auto simp: map_chat_tool_choice_def choice_expressible_def Let_def
      split: sum.splits option.splits if_splits)

text \<open>
  C34. A Chat request is built exactly when every tool definition is a plain function, the
  history has only items the protocol can express (no image, no encrypted content, no namespaced
  call and no variant reserved for the native path; results without a call are not looked at), and
  the tool choice can be mapped when there are tools. All other requests end in an error.
\<close>

theorem chat_request_accepted_iff:
  "(\<exists>body. build_chat_request x iter req ctx = Ok body) \<longleftrightarrow>
     list_all (\<lambda>t. tool_type t = Some (lit ''function'')) (tools req)
     \<and> expressible (\<lambda>_. True) {} (input req)
     \<and> (tools req = [] \<or> choice_expressible x (tool_choice req))"
proof -
  let ?b0 = "\<lparr>messages = system_messages req, seen_calls = {}, calls_needing_result = {}\<rparr>"
  have fields: "(\<exists>v. chat_tool_fields x req ts body = Ok v)
      \<longleftrightarrow> ts = None \<or> choice_expressible x (tool_choice req)" for ts body
    using map_chat_tool_choice_ok [of x "tool_choice req"]
    by (cases ts) (auto simp: chat_tool_fields_def and_then_Ok_iff Let_def)
  have "(\<exists>body. build_chat_request x iter req ctx = Ok body) \<longleftrightarrow>
      (\<exists>ts b. map_chat_tools x (tools req) = Ok ts \<and> chat_items (input req) ?b0 = Ok b
         \<and> (ts = None \<or> choice_expressible x (tool_choice req)))"
    by (simp add: build_chat_request_def Let_def and_then_succeeds fields)
  moreover have "ts = None \<longleftrightarrow> tools req = []" if "map_chat_tools x (tools req) = Ok ts" for ts
    using that by (auto simp: map_chat_tools_def and_then_Ok_iff split: if_splits)
  ultimately show ?thesis
    using chat_items_ok [of "input req" ?b0] map_chat_tools_ok [of x "tools req"]
    by (simp, blast)
qed

end
