(* ===== verification/Switch_Anthropic_Req.thy ===== *)
theory Switch_Anthropic_Req
  imports Switch_Connector Switch_Route
begin

text \<open>
  The Anthropic Messages request (zmod/llm-switch/src/connector/anthropic_req.rs): history items
  become content blocks, consecutive blocks of one role are merged into a turn, tool calls
  without a result get a placeholder at the end.
\<close>

definition DEFAULT_MAX_TOKENS :: u32 where
  "DEFAULT_MAX_TOKENS = 4096"

type_synonym turn = "rstr \<times> json list"

definition push_block :: "rstr \<Rightarrow> json \<Rightarrow> turn list \<Rightarrow> turn list" where
  "push_block role block turns =
     (if turns \<noteq> [] \<and> fst (last turns) = role
      then butlast turns @ [(fst (last turns), snd (last turns) @ [block])]
      else turns @ [(role, [block])])"

definition text_block :: "rstr \<Rightarrow> json" where
  "text_block t = jobj [(lit ''type'', jstr ''text''), (lit ''text'', JString t)]"

fun content_item_to_block :: "content_item \<Rightarrow> (conn_error, json) result" where
  "content_item_to_block (InputText t) = Ok (text_block t)"
| "content_item_to_block (OutputText t) = Ok (text_block t)"
| "content_item_to_block (InputImage u d) =
     Err (HardFail (lit ''image input not supported in v1 anthropic connector (no capability flags)''))"

fun tool_result_items_to_text ::
  "function_call_output_content_item list \<Rightarrow> rstr \<Rightarrow> (conn_error, rstr) result" where
  "tool_result_items_to_text [] acc = Ok acc"
| "tool_result_items_to_text (FcoInputText t # cs) acc = tool_result_items_to_text cs (acc @ t)"
| "tool_result_items_to_text (FcoInputImage u d # cs) acc =
     Err (HardFail (lit ''tool result contains image content (InputImage), v1 anthropic connector not supported''))"
| "tool_result_items_to_text (FcoEncryptedContent e # cs) acc =
     Err (HardFail (lit ''tool result contains encrypted content (EncryptedContent), v1 anthropic connector not supported''))"

definition tool_result_block :: "rstr \<Rightarrow> function_call_output_payload \<Rightarrow> (conn_error, json) result" where
  "tool_result_block call_id out =
     and_then (case out_body out of
                 Text t \<Rightarrow> Ok t
               | ContentItems cs \<Rightarrow> tool_result_items_to_text cs []) (\<lambda>content_text.
       let block = jobj [(lit ''type'', jstr ''tool_result''), (lit ''tool_use_id'', JString call_id),
                         (lit ''content'', JString content_text)]
       in Ok (if out_success out = Some False then jset (lit ''is_error'') (JBool True) block else block))"

fun map_anthropic_tool :: "switch_ext \<Rightarrow> json \<Rightarrow> (conn_error, json) result" where
  "map_anthropic_tool x t =
     (if tool_type t = Some (lit ''function'') then
        let name = unwrap_or JNull (jget t (lit ''name''));
            description = unwrap_or JNull (jget t (lit ''description''));
            input_schema = unwrap_or (jobj [(lit ''type'', jstr ''object'')])
              (jget t (lit ''parameters''));
            tool = jobj [(lit ''name'', name), (lit ''input_schema'', input_schema)]
        in Ok (if description \<noteq> JNull then jset (lit ''description'') description tool else tool)
      else Err (HardFail (lit ''tool definition type '' @ debug_text x (tool_type t)
        @ lit '' not supported in v1 anthropic connector (only standard function)'')))"

definition map_anthropic_tools :: "switch_ext \<Rightarrow> json list \<Rightarrow> (conn_error, json list option) result" where
  "map_anthropic_tools x ts =
     (if ts = [] then Ok None else and_then (map_result (map_anthropic_tool x) ts) (\<lambda>out. Ok (Some out)))"

definition map_anthropic_tool_choice :: "switch_ext \<Rightarrow> rstr \<Rightarrow> (conn_error, json option) result" where
  "map_anthropic_tool_choice x tc =
     (if tc = lit ''auto'' then Ok (Some (jobj [(lit ''type'', jstr ''auto'')]))
      else if tc = lit ''none'' then Ok (Some (jobj [(lit ''type'', jstr ''none'')]))
      else if tc = lit ''required'' then Ok (Some (jobj [(lit ''type'', jstr ''any'')]))
      else if tc = [] then Ok None
      else
        let fail = Err (HardFail (lit ''tool_choice '' @ [39] @ tc
              @ [39] @ lit '' cannot be expressed in Anthropic Messages protocol'')) in
        case sw_parse x tc of
          Inl e \<Rightarrow> fail
        | Inr v \<Rightarrow>
            if get_str v (lit ''type'') = Some (lit ''function'') then
              case jget v (lit ''name'') of
                Some name \<Rightarrow> Ok (Some (jobj [(lit ''type'', jstr ''tool''), (lit ''name'', name)]))
              | None \<Rightarrow> fail
            else fail)"

section \<open>The history\<close>

record anthropic_build =
  turns :: "turn list"
  an_seen_calls :: "rstr set"
  an_calls_needing_result :: "rstr list"

definition push_turn :: "rstr \<Rightarrow> json \<Rightarrow> anthropic_build \<Rightarrow> anthropic_build" where
  "push_turn role block b = b\<lparr>turns := push_block role block (turns b)\<rparr>"

fun push_contents :: "rstr \<Rightarrow> content_item list \<Rightarrow> anthropic_build \<Rightarrow> (conn_error, anthropic_build) result" where
  "push_contents r [] b = Ok b"
| "push_contents r (c # cs) b =
     and_then (content_item_to_block c) (\<lambda>block. push_contents r cs (push_turn r block b))"

fun push_agent_contents ::
  "agent_message_input_content list \<Rightarrow> anthropic_build \<Rightarrow> (conn_error, anthropic_build) result" where
  "push_agent_contents [] b = Ok b"
| "push_agent_contents (AgentInputText t # cs) b =
     push_agent_contents cs (push_turn (lit ''assistant'') (text_block t) b)"
| "push_agent_contents (AgentEncryptedContent e # cs) b =
     Err (HardFail (lit ''AgentMessage contains encrypted content (EncryptedContent), v1 anthropic connector cannot read it''))"

definition tool_use_block :: "rstr \<Rightarrow> rstr \<Rightarrow> json \<Rightarrow> json" where
  "tool_use_block call_id name inp =
     jobj [(lit ''type'', jstr ''tool_use''), (lit ''id'', JString call_id), (lit ''name'', JString name),
           (lit ''input'', inp)]"

definition anthropic_placeholder :: "rstr \<Rightarrow> json" where
  "anthropic_placeholder call_id =
     jobj [(lit ''type'', jstr ''tool_result''), (lit ''tool_use_id'', JString call_id),
           (lit ''content'', jstr ''[No output available yet]'')]"

definition message_role :: "rstr \<Rightarrow> rstr" where
  "message_role role = (if role = lit ''assistant'' then lit ''assistant'' else lit ''user'')"

fun anthropic_item ::
  "switch_ext \<Rightarrow> response_item \<Rightarrow> anthropic_build \<Rightarrow> (conn_error, anthropic_build) result" where
  "anthropic_item x (Message i role content ph m) b = push_contents (message_role role) content b"
| "anthropic_item x (AgentMessage i author recipient content m) b = push_agent_contents content b"
| "anthropic_item x (FunctionCall i name namespace arguments call_id m) b =
     (if namespace \<noteq> None
      then Err (HardFail (lit ''namespaced function call '' @ [39] @ name @ [39]
             @ lit '' not supported in v1 anthropic connector''))
      else
        case sw_parse x arguments of
          Inl e \<Rightarrow> Err (HardFail (lit ''FunctionCall arguments invalid JSON: '' @ e))
        | Inr inp \<Rightarrow> Ok (push_turn (lit ''assistant'') (tool_use_block call_id name inp)
             (b\<lparr>an_seen_calls := insert call_id (an_seen_calls b),
                an_calls_needing_result := an_calls_needing_result b @ [call_id]\<rparr>)))"
| "anthropic_item x (FunctionCallOutput i call_id out m) b =
     (if call_id \<notin> an_seen_calls b then Ok b
      else and_then (tool_result_block call_id out) (\<lambda>block.
        Ok (push_turn (lit ''user'') block
          (b\<lparr>an_calls_needing_result := filter (\<lambda>i. i \<noteq> call_id) (an_calls_needing_result b)\<rparr>))))"
| "anthropic_item x (Reasoning _ _ _ _ _) b = Ok b"
| "anthropic_item x (CompactionTrigger _) b = Ok b"
| "anthropic_item x item b =
     Err (HardFail (variant_name item @ lit '' not supported in v1 anthropic connector''))"

fun anthropic_items ::
  "switch_ext \<Rightarrow> response_item list \<Rightarrow> anthropic_build \<Rightarrow> (conn_error, anthropic_build) result" where
  "anthropic_items x [] b = Ok b"
| "anthropic_items x (i # is) b = and_then (anthropic_item x i b) (anthropic_items x is)"

definition inject_placeholders :: "anthropic_build \<Rightarrow> turn list" where
  "inject_placeholders b =
     fold (\<lambda>call_id. push_block (lit ''user'') (anthropic_placeholder call_id))
       (an_calls_needing_result b) (turns b)"

definition turn_message :: "turn \<Rightarrow> json" where
  "turn_message t = jobj [(lit ''role'', JString (fst t)), (lit ''content'', JArray (snd t))]"

section \<open>The body\<close>

definition thinking_budget :: "json \<Rightarrow> u64" where
  "thinking_budget body =
     (case Option.bind (jget body (lit ''max_tokens'')) as_u64 of
        Some m \<Rightarrow> min (max (m div 2) 1024) 8000
      | None \<Rightarrow> 4000)"

definition anthropic_field_downgrade :: "switch_ext \<Rightarrow> responses_api_request \<Rightarrow> json \<Rightarrow> json" where
  "anthropic_field_downgrade x req body =
     (let body = (case Option.bind (reasoning req) effort of
                    Some e \<Rightarrow> jset (lit ''thinking'')
                      (jobj [(lit ''type'', jstr ''enabled''),
                             (lit ''budget_tokens'', jnat (thinking_budget body))]) body
                  | None \<Rightarrow> body)
      in case Option.bind (text_cfg req) format of
           None \<Rightarrow> body
         | Some f \<Rightarrow>
             let fmt_val = text_format_to_value f;
                 hint = (if get_str fmt_val (lit ''type'') = Some (lit ''json_schema'')
                   then [nl, nl] @ lit ''You must respond with valid JSON matching this schema: ''
                          @ sw_print x fmt_val
                   else [nl, nl] @ lit ''Respond with valid JSON.'');
                 existing_system = unwrap_or [] (get_str body (lit ''system''))
             in jset (lit ''system'') (JString (existing_system @ hint)) body)"

definition anthropic_tool_fields ::
  "switch_ext \<Rightarrow> responses_api_request \<Rightarrow> json list option \<Rightarrow> json \<Rightarrow> (conn_error, json) result" where
  "anthropic_tool_fields x req ts body =
     (case ts of
        None \<Rightarrow> Ok body
      | Some tools_arr \<Rightarrow>
          and_then (map_anthropic_tool_choice x (tool_choice req)) (\<lambda>tc.
            let body = jset (lit ''tools'') (JArray tools_arr) body;
                tc = (if parallel_tool_calls req then tc
                      else Some (jset (lit ''disable_parallel_tool_use'') (JBool True)
                        (unwrap_or (jobj [(lit ''type'', jstr ''auto'')]) tc)))
            in Ok (case tc of Some v \<Rightarrow> jset (lit ''tool_choice'') v body | None \<Rightarrow> body)))"

definition anthropic_body :: "responses_api_request \<Rightarrow> egress_ctx \<Rightarrow> turn list \<Rightarrow> json" where
  "anthropic_body req ctx ts =
     (let body = jobj [(lit ''model'', JString (ctx_model ctx)),
            (lit ''messages'', JArray (map turn_message ts)),
            (lit ''max_tokens'', jnat (ucast (unwrap_or DEFAULT_MAX_TOKENS (ctx_default_max_tokens ctx)))),
            (lit ''stream'', JBool True)]
      in if instructions req = [] then body
         else jset (lit ''system'') (JString (instructions req)) body)"

definition build_anthropic_request ::
  "switch_ext \<Rightarrow> responses_api_request \<Rightarrow> egress_ctx \<Rightarrow> (conn_error, json) result" where
  "build_anthropic_request x req ctx =
     and_then (map_anthropic_tools x (tools req)) (\<lambda>ts.
     and_then (anthropic_items x (input req)
         \<lparr>turns = [], an_seen_calls = {}, an_calls_needing_result = []\<rparr>) (\<lambda>b.
     and_then (anthropic_tool_fields x req ts (anthropic_body req ctx (inject_placeholders b))) (\<lambda>body.
       let body = anthropic_field_downgrade x req body in
       Ok (if ctx_prompt_cache ctx
           then jset (lit ''cache_control'') (jobj [(lit ''type'', jstr ''ephemeral'')]) body
           else body))))"

section \<open>Turns\<close>

definition flatten_turns :: "turn list \<Rightarrow> (rstr \<times> json) list" where
  "flatten_turns ts = concat (map (\<lambda>(r, bs). map (Pair r) bs) ts)"

text \<open>The shape the protocol asks for: no empty turn, and adjacent turns have different roles.\<close>

fun well_formed_turns :: "turn list \<Rightarrow> bool" where
  "well_formed_turns [] \<longleftrightarrow> True"
| "well_formed_turns [t] \<longleftrightarrow> snd t \<noteq> []"
| "well_formed_turns (t # u # ts) \<longleftrightarrow> snd t \<noteq> [] \<and> fst t \<noteq> fst u \<and> well_formed_turns (u # ts)"

lemma well_formed_turns_snoc:
  "well_formed_turns (ts @ [t]) \<longleftrightarrow>
     well_formed_turns ts \<and> snd t \<noteq> [] \<and> (ts = [] \<or> fst (last ts) \<noteq> fst t)"
  by (induction ts rule: well_formed_turns.induct) auto

lemma flatten_push_block: "flatten_turns (push_block r b ts) = flatten_turns ts @ [(r, b)]"
  by (cases ts rule: rev_cases) (auto simp: push_block_def flatten_turns_def)

lemma well_formed_push_block: "well_formed_turns ts \<Longrightarrow> well_formed_turns (push_block r b ts)"
  using well_formed_turns_snoc [of ts "(r, [b])"]
  by (cases ts rule: rev_cases) (auto simp: push_block_def well_formed_turns_snoc)

section \<open>The reference sequence of blocks\<close>

fun item_blocks :: "switch_ext \<Rightarrow> rstr set \<Rightarrow> response_item \<Rightarrow> (rstr \<times> json) list" where
  "item_blocks x seen i =
     (case i of
        Message _ role content _ _ \<Rightarrow>
          concat (map (\<lambda>c. map (Pair (message_role role)) (ok_list (content_item_to_block c))) content)
      | AgentMessage _ _ _ content _ \<Rightarrow>
          concat (map (\<lambda>c. case c of AgentInputText t \<Rightarrow> [(lit ''assistant'', text_block t)] | _ \<Rightarrow> []) content)
      | FunctionCall _ name _ arguments c _ \<Rightarrow>
          map (\<lambda>inp. (lit ''assistant'', tool_use_block c name inp)) (ok_list (sw_parse x arguments))
      | FunctionCallOutput _ c out _ \<Rightarrow>
          if c \<in> seen then map (Pair (lit ''user'')) (ok_list (tool_result_block c out)) else []
      | _ \<Rightarrow> [])"

fun called :: "response_item \<Rightarrow> rstr set" where
  "called i = (case i of FunctionCall _ _ _ _ c _ \<Rightarrow> {c} | _ \<Rightarrow> {})"

fun block_sequence :: "switch_ext \<Rightarrow> rstr set \<Rightarrow> response_item list \<Rightarrow> (rstr \<times> json) list" where
  "block_sequence x seen [] = []"
| "block_sequence x seen (i # is) = item_blocks x seen i @ block_sequence x (seen \<union> called i) is"

text \<open>The calls that no later result answers, in the order of the calls.\<close>

fun pending_calls :: "response_item list \<Rightarrow> rstr list \<Rightarrow> rstr list" where
  "pending_calls [] needing = needing"
| "pending_calls (i # is) needing =
     (case i of
        FunctionCall _ _ _ _ c _ \<Rightarrow> pending_calls is (needing @ [c])
      | FunctionCallOutput _ c _ _ \<Rightarrow> pending_calls is (filter (\<lambda>i. i \<noteq> c) needing)
      | _ \<Rightarrow> pending_calls is needing)"

definition blocks_rel ::
  "anthropic_build \<Rightarrow> (rstr \<times> json) list \<Rightarrow> anthropic_build \<Rightarrow> bool" where
  "blocks_rel b bs b' \<longleftrightarrow>
     flatten_turns (turns b') = flatten_turns (turns b) @ bs
     \<and> an_seen_calls b' = an_seen_calls b
     \<and> an_calls_needing_result b' = an_calls_needing_result b
     \<and> (well_formed_turns (turns b) \<longrightarrow> well_formed_turns (turns b'))"

lemma blocks_rel_push: "blocks_rel (push_turn r k b) bs b' \<Longrightarrow> blocks_rel b ((r, k) # bs) b'"
  by (auto simp: blocks_rel_def push_turn_def flatten_push_block well_formed_push_block)

lemma push_contents_rel:
  "push_contents r cs b = Ok b' \<Longrightarrow>
     blocks_rel b (concat (map (\<lambda>c. map (Pair r) (ok_list (content_item_to_block c))) cs)) b'"
proof (induction cs arbitrary: b)
  case (Cons c cs)
  then obtain k where "content_item_to_block c = Ok k" "push_contents r cs (push_turn r k b) = Ok b'"
    by (auto simp: and_then_Ok_iff)
  with Cons.IH blocks_rel_push show ?case by fastforce
qed (simp add: blocks_rel_def)

lemma push_agent_contents_rel:
  "push_agent_contents cs b = Ok b' \<Longrightarrow>
     blocks_rel b (concat (map (\<lambda>c. case c of AgentInputText t \<Rightarrow> [(lit ''assistant'', text_block t)]
       | _ \<Rightarrow> []) cs)) b'"
  by (induction cs b rule: push_agent_contents.induct) (auto simp: blocks_rel_def [of _ "[]"] blocks_rel_push)

lemma anthropic_item_rel:
  assumes "anthropic_item x i b = Ok b'" and "set (an_calls_needing_result b) \<subseteq> an_seen_calls b"
  shows "flatten_turns (turns b') = flatten_turns (turns b) @ item_blocks x (an_seen_calls b) i
     \<and> an_seen_calls b' = an_seen_calls b \<union> called i
     \<and> an_calls_needing_result b' = pending_calls [i] (an_calls_needing_result b)
     \<and> (well_formed_turns (turns b) \<longrightarrow> well_formed_turns (turns b'))"
proof (cases i)
  case (Message a role content ph m)
  with assms push_contents_rel show ?thesis by (fastforce simp: blocks_rel_def)
next
  case (AgentMessage a au re content m)
  with assms push_agent_contents_rel show ?thesis by (fastforce simp: blocks_rel_def)
next
  case (FunctionCall a name ns arguments c m)
  with assms show ?thesis
    by (auto simp: push_turn_def flatten_push_block well_formed_push_block split: if_splits sum.splits)
next
  case (FunctionCallOutput a c out m)
  with assms show ?thesis
    by (auto simp: push_turn_def flatten_push_block well_formed_push_block and_then_Ok_iff
        split: if_splits intro!: filter_True [symmetric])
qed (use assms in auto)

lemma pending_calls_seen:
  "set ns \<subseteq> S \<Longrightarrow> set (pending_calls [i] ns) \<subseteq> S \<union> called i"
  by (cases i) auto

lemma pending_calls_Cons: "pending_calls (i # is) ns = pending_calls is (pending_calls [i] ns)"
  by (cases i) auto

lemma anthropic_items_rel:
  "anthropic_items x its b = Ok b' \<Longrightarrow> set (an_calls_needing_result b) \<subseteq> an_seen_calls b \<Longrightarrow>
     flatten_turns (turns b') = flatten_turns (turns b) @ block_sequence x (an_seen_calls b) its
     \<and> an_calls_needing_result b' = pending_calls its (an_calls_needing_result b)
     \<and> (well_formed_turns (turns b) \<longrightarrow> well_formed_turns (turns b'))"
proof (induction its arbitrary: b)
  case (Cons i its)
  then obtain b1 where i: "anthropic_item x i b = Ok b1" and rest: "anthropic_items x its b1 = Ok b'"
    by (auto simp: and_then_Ok_iff)
  note r = anthropic_item_rel [OF i Cons.prems(2)]
  then have "set (an_calls_needing_result b1) \<subseteq> an_seen_calls b1"
    using pending_calls_seen [OF Cons.prems(2), of i] by simp
  from Cons.IH [OF rest this] r show ?case
    by (simp add: pending_calls_Cons [of i its] del: item_blocks.simps called.simps pending_calls.simps(2))
qed simp

lemma inject_fold:
  "flatten_turns (fold (\<lambda>c. push_block r (f c)) cs ts) = flatten_turns ts @ map (\<lambda>c. (r, f c)) cs
   \<and> (well_formed_turns ts \<longrightarrow> well_formed_turns (fold (\<lambda>c. push_block r (f c)) cs ts))"
  by (induction cs arbitrary: ts) (simp_all add: flatten_push_block well_formed_push_block)

section \<open>Calls and results\<close>

definition use_id :: "rstr \<times> json \<Rightarrow> rstr option" where
  "use_id q = (if get_str (snd q) (lit ''type'') = Some (lit ''tool_use'')
     then get_str (snd q) (lit ''id'') else None)"

definition result_id :: "rstr \<times> json \<Rightarrow> rstr option" where
  "result_id q = (if get_str (snd q) (lit ''type'') = Some (lit ''tool_result'')
     then get_str (snd q) (lit ''tool_use_id'') else None)"

text \<open>
  \<open>paired S N bs\<close>: every call in \<open>bs\<close> has a later result or is listed in \<open>N\<close>, and every result
  has an earlier call; \<open>S\<close> are the identifiers called.
\<close>

definition paired :: "rstr set \<Rightarrow> rstr list \<Rightarrow> (rstr \<times> json) list \<Rightarrow> bool" where
  "paired S N bs \<longleftrightarrow>
     S = {c. \<exists>q \<in> set bs. use_id q = Some c} \<and> set N \<subseteq> S
     \<and> (\<forall>p q s c. bs = p @ q # s \<longrightarrow> use_id q = Some c \<longrightarrow> c \<in> set N \<or> (\<exists>r \<in> set s. result_id r = Some c))
     \<and> (\<forall>p q s c. bs = p @ q # s \<longrightarrow> result_id q = Some c \<longrightarrow> (\<exists>u \<in> set p. use_id u = Some c))"

lemma snoc_split:
  "bs @ [q0] = p @ q # s \<longleftrightarrow> (s = [] \<and> p = bs \<and> q = q0) \<or> (\<exists>s'. s = s' @ [q0] \<and> bs = p @ q # s')"
  by (cases s rule: rev_cases) auto

lemma paired_plain:
  "paired S N bs \<Longrightarrow> use_id q = None \<Longrightarrow> result_id q = None \<Longrightarrow> paired S N (bs @ [q])"
  unfolding paired_def snoc_split by fastforce

lemma paired_use:
  "paired S N bs \<Longrightarrow> use_id q = Some c \<Longrightarrow> result_id q = None \<Longrightarrow>
     paired (insert c S) (N @ [c]) (bs @ [q])"
  unfolding paired_def snoc_split by fastforce

lemma paired_result:
  assumes "paired S N bs" and "use_id q = None" and "result_id q = Some c" and "c \<in> S"
  shows "paired S (filter (\<lambda>i. i \<noteq> c) N) (bs @ [q])"
proof -
  have S: "S = {c. \<exists>q \<in> set bs. use_id q = Some c}" "set N \<subseteq> S"
    and use: "\<And>p q s d. bs = p @ q # s \<Longrightarrow> use_id q = Some d \<Longrightarrow>
        d \<in> set N \<or> (\<exists>r \<in> set s. result_id r = Some d)"
    and res: "\<And>p q s d. bs = p @ q # s \<Longrightarrow> result_id q = Some d \<Longrightarrow> \<exists>u \<in> set p. use_id u = Some d"
    using assms(1) unfolding paired_def by blast+
  have "d \<in> set (filter (\<lambda>i. i \<noteq> c) N) \<or> (\<exists>r \<in> set s'. result_id r = Some d)"
    if "bs @ [q] = p @ u # s'" "use_id u = Some d" for p u s' d
    using that use [of p u _ d] assms(2,3) unfolding snoc_split by fastforce
  moreover have "\<exists>v \<in> set p. use_id v = Some d"
    if "bs @ [q] = p @ u # s'" "result_id u = Some d" for p u s' d
    using that res [of p u _ d] assms(3,4) S(1) unfolding snoc_split by fastforce
  moreover have "S = {c. \<exists>q' \<in> set (bs @ [q]). use_id q' = Some c}" "set (filter (\<lambda>i. i \<noteq> c) N) \<subseteq> S"
    using S assms(2) by auto
  ultimately show ?thesis unfolding paired_def by blast
qed

lemma paired_plains:
  assumes "paired S N bs" and "\<forall>q \<in> set qs. use_id q = None \<and> result_id q = None"
  shows "paired S N (bs @ qs)"
  using assms
proof (induction qs arbitrary: bs)
  case (Cons q qs)
  then have "paired S N (bs @ [q])" by (simp add: paired_plain)
  from Cons.IH [OF this] Cons.prems(2) show ?case by simp
qed simp

lemma block_ids [simp]:
  "use_id (r, text_block t) = None" "result_id (r, text_block t) = None"
  "use_id (r, tool_use_block c n inp) = Some c" "result_id (r, tool_use_block c n inp) = None"
  "use_id (r, anthropic_placeholder c) = None" "result_id (r, anthropic_placeholder c) = Some c"
  by (simp_all add: use_id_def result_id_def text_block_def tool_use_block_def
      anthropic_placeholder_def json_simps)

lemma tool_result_block_ids:
  "tool_result_block c out = Ok k \<Longrightarrow> use_id (r, k) = None \<and> result_id (r, k) = Some c"
  by (auto simp: tool_result_block_def and_then_Ok_iff Let_def use_id_def result_id_def json_simps)

lemma content_blocks_plain:
  "q \<in> set (map (Pair r) (ok_list (content_item_to_block c))) \<Longrightarrow> use_id q = None \<and> result_id q = None"
  by (cases c) auto

definition build_paired :: "anthropic_build \<Rightarrow> bool" where
  "build_paired b \<longleftrightarrow> paired (an_seen_calls b) (an_calls_needing_result b) (flatten_turns (turns b))"

lemma build_paired_plains:
  assumes "blocks_rel b qs b'" and "build_paired b"
    and "\<And>q. q \<in> set qs \<Longrightarrow> use_id q = None \<and> result_id q = None"
  shows "build_paired b'"
  using paired_plains [of "an_seen_calls b" "an_calls_needing_result b" "flatten_turns (turns b)" qs] assms
  by (simp add: build_paired_def blocks_rel_def)

lemma anthropic_item_paired:
  assumes "anthropic_item x i b = Ok b'" and "build_paired b"
  shows "build_paired b'"
proof (cases i)
  case (Message a role content ph m)
  with assms have "push_contents (message_role role) content b = Ok b'" by simp
  from build_paired_plains [OF push_contents_rel [OF this] assms(2)] content_blocks_plain
  show ?thesis by fastforce
next
  case (AgentMessage a au re content m)
  with assms have "blocks_rel b (concat (map (\<lambda>c. case c of AgentInputText t \<Rightarrow>
      [(lit ''assistant'', text_block t)] | _ \<Rightarrow> []) content)) b'"
    by (simp add: push_agent_contents_rel)
  then show ?thesis
    by (rule build_paired_plains [OF _ assms(2)]) (auto split: agent_message_input_content.splits)
next
  case (FunctionCall a name ns arguments c m)
  with assms show ?thesis
    by (auto simp: build_paired_def push_turn_def flatten_push_block split: if_splits sum.splits
        intro!: paired_use)
next
  case (FunctionCallOutput a c out m)
  with assms show ?thesis
    by (auto simp: build_paired_def push_turn_def flatten_push_block and_then_Ok_iff
        tool_result_block_ids split: if_splits intro!: paired_result)
qed (use assms in auto)

lemma anthropic_items_paired:
  "anthropic_items x its b = Ok b' \<Longrightarrow> build_paired b \<Longrightarrow> build_paired b'"
  by (induction its arbitrary: b) (auto simp: and_then_Ok_iff intro: anthropic_item_paired)

lemma paired_placeholders:
  "paired S N bs \<Longrightarrow> set cs \<subseteq> S \<Longrightarrow> paired S (filter (\<lambda>i. i \<notin> set cs) N)
     (bs @ map (\<lambda>c. (lit ''user'', anthropic_placeholder c)) cs)"
proof (induction cs arbitrary: bs N)
  case (Cons c cs)
  have "paired S (filter (\<lambda>i. i \<noteq> c) N) (bs @ [(lit ''user'', anthropic_placeholder c)])"
    using Cons.prems by (intro paired_result) simp_all
  from Cons.IH [OF this] Cons.prems(2) show ?case by (simp add: filter_filter)
qed simp

section \<open>Properties of the Anthropic request\<close>

lemma anthropic_body_messages:
  "is_object (anthropic_body req ctx ts)
   \<and> jget (anthropic_body req ctx ts) (lit ''messages'') = Some (JArray (map turn_message ts))"
  by (simp add: anthropic_body_def Let_def json_simps)

lemma anthropic_tool_fields_keep:
  "anthropic_tool_fields x req ts body = Ok body' \<Longrightarrow> is_object body \<Longrightarrow>
     is_object body' \<and> jget body' (lit ''messages'') = jget body (lit ''messages'')"
  by (auto simp: anthropic_tool_fields_def and_then_Ok_iff Let_def split: option.splits)

lemma anthropic_field_downgrade_keep:
  "is_object body \<Longrightarrow> is_object (anthropic_field_downgrade x req body)
     \<and> jget (anthropic_field_downgrade x req body) (lit ''messages'') = jget body (lit ''messages'')"
  by (simp add: anthropic_field_downgrade_def Let_def split: option.splits)

lemma build_anthropic_request_messages:
  assumes "build_anthropic_request x req ctx = Ok body"
  obtains b where
    "anthropic_items x (input req) \<lparr>turns = [], an_seen_calls = {}, an_calls_needing_result = []\<rparr> = Ok b"
    "jget body (lit ''messages'') = Some (JArray (map turn_message (inject_placeholders b)))"
proof -
  from assms obtain ts b body1 where
    b: "anthropic_items x (input req) \<lparr>turns = [], an_seen_calls = {}, an_calls_needing_result = []\<rparr> = Ok b"
    and f: "anthropic_tool_fields x req ts (anthropic_body req ctx (inject_placeholders b)) = Ok body1"
    and body: "body = (if ctx_prompt_cache ctx
           then jset (lit ''cache_control'') (jobj [(lit ''type'', jstr ''ephemeral'')])
             (anthropic_field_downgrade x req body1)
           else anthropic_field_downgrade x req body1)"
    unfolding build_anthropic_request_def and_then_Ok_iff Let_def by blast
  from anthropic_tool_fields_keep [OF f] anthropic_body_messages [of req ctx]
    anthropic_field_downgrade_keep [of body1 x req] body
  have "jget body (lit ''messages'') = Some (JArray (map turn_message (inject_placeholders b)))" by simp
  with b that show thesis by blast
qed

text \<open>
  C15. The messages of an Anthropic request are turns: no turn is empty, adjacent turns have
  different roles, and reading their blocks in order gives exactly the blocks of the history
  (results without a call left out) followed by a placeholder result for each open call.
\<close>

theorem anthropic_turns_group_history:
  assumes "build_anthropic_request x req ctx = Ok body"
  shows "\<exists>ts. jget body (lit ''messages'') = Some (JArray (map turn_message ts))
     \<and> well_formed_turns ts
     \<and> flatten_turns ts = block_sequence x {} (input req)
         @ map (\<lambda>c. (lit ''user'', anthropic_placeholder c)) (pending_calls (input req) [])"
proof -
  obtain b where items: "anthropic_items x (input req)
      \<lparr>turns = [], an_seen_calls = {}, an_calls_needing_result = []\<rparr> = Ok b"
    and msgs: "jget body (lit ''messages'') = Some (JArray (map turn_message (inject_placeholders b)))"
    using build_anthropic_request_messages [OF assms] .
  from anthropic_items_rel [OF items] have
    "flatten_turns (turns b) = block_sequence x {} (input req)"
    "an_calls_needing_result b = pending_calls (input req) []" "well_formed_turns (turns b)"
    by (simp_all add: flatten_turns_def)
  with inject_fold [of "lit ''user''" anthropic_placeholder "an_calls_needing_result b" "turns b"]
  have "well_formed_turns (inject_placeholders b)
     \<and> flatten_turns (inject_placeholders b) = block_sequence x {} (input req)
         @ map (\<lambda>c. (lit ''user'', anthropic_placeholder c)) (pending_calls (input req) [])"
    by (simp add: inject_placeholders_def)
  with msgs show ?thesis by blast
qed

definition anthropic_history_sample :: responses_api_request where
  "anthropic_history_sample = request_sample\<lparr>input :=
     [FunctionCall None (lit ''f'') None (lit ''1'') (lit ''a'') None,
      FunctionCall None (lit ''g'') None (lit ''2'') (lit ''b'') None,
      FunctionCallOutput None (lit ''a'') \<lparr>out_body = Text (lit ''r''), out_success = Some False\<rparr> None]\<rparr>"

definition anthropic_ctx_sample :: egress_ctx where
  "anthropic_ctx_sample = \<lparr>ctx_base_url = lit ''u'', ctx_model = lit ''m'', ctx_auth = XApiKey,
     ctx_key = Some (lit ''k''), ctx_anthropic_version = None, ctx_path_override = None,
     ctx_default_max_tokens = None, ctx_prompt_cache = True, ctx_auth_fallback = None\<rparr>"

lemma anthropic_sample_ok:
  "\<exists>body. build_anthropic_request switch_ext_plain anthropic_history_sample anthropic_ctx_sample = Ok body"
  by (simp add: build_anthropic_request_def anthropic_history_sample_def request_sample_def
      map_anthropic_tools_def tool_result_block_def push_turn_def anthropic_tool_fields_def Let_def
      switch_ext_plain_def)

theorem anthropic_turns_group_history_witness:
  "\<exists>body ts. build_anthropic_request switch_ext_plain anthropic_history_sample anthropic_ctx_sample = Ok body
     \<and> jget body (lit ''messages'') = Some (JArray (map turn_message ts)) \<and> well_formed_turns ts
     \<and> map fst (flatten_turns ts) = [lit ''assistant'', lit ''assistant'', lit ''user'', lit ''user'']"
proof -
  obtain body where b:
    "build_anthropic_request switch_ext_plain anthropic_history_sample anthropic_ctx_sample = Ok body"
    using anthropic_sample_ok by blast
  have seq: "map fst (block_sequence switch_ext_plain {} (input anthropic_history_sample)
      @ map (\<lambda>c. (lit ''user'', anthropic_placeholder c)) (pending_calls (input anthropic_history_sample) []))
    = [lit ''assistant'', lit ''assistant'', lit ''user'', lit ''user'']"
    by (simp add: anthropic_history_sample_def switch_ext_plain_def tool_result_block_def Let_def)
  from anthropic_turns_group_history [OF b] b seq show ?thesis by metis
qed

text \<open>
  C27. In an Anthropic request every \<open>tool_use\<close> block is followed, somewhere later, by a
  \<open>tool_result\<close> with its identifier, and every \<open>tool_result\<close> comes after a \<open>tool_use\<close> with its
  identifier.
\<close>

theorem anthropic_calls_answered:
  assumes "build_anthropic_request x req ctx = Ok body"
  shows "\<exists>ts. jget body (lit ''messages'') = Some (JArray (map turn_message ts))
     \<and> (\<forall>p q s c. flatten_turns ts = p @ q # s \<longrightarrow>
          (use_id q = Some c \<longrightarrow> (\<exists>r \<in> set s. result_id r = Some c))
          \<and> (result_id q = Some c \<longrightarrow> (\<exists>u \<in> set p. use_id u = Some c)))"
proof -
  obtain b where items: "anthropic_items x (input req)
      \<lparr>turns = [], an_seen_calls = {}, an_calls_needing_result = []\<rparr> = Ok b"
    and msgs: "jget body (lit ''messages'') = Some (JArray (map turn_message (inject_placeholders b)))"
    using build_anthropic_request_messages [OF assms] .
  have "build_paired \<lparr>turns = [], an_seen_calls = {}, an_calls_needing_result = []\<rparr>"
    by (simp add: build_paired_def paired_def flatten_turns_def)
  from anthropic_items_paired [OF items this]
  have p: "paired (an_seen_calls b) (an_calls_needing_result b) (flatten_turns (turns b))"
    by (simp add: build_paired_def)
  then have "set (an_calls_needing_result b) \<subseteq> an_seen_calls b"
    unfolding paired_def by blast
  from paired_placeholders [OF p this]
  have "paired (an_seen_calls b) [] (flatten_turns (inject_placeholders b))"
    by (simp add: inject_placeholders_def inject_fold)
  then have "\<forall>p q s c. flatten_turns (inject_placeholders b) = p @ q # s \<longrightarrow>
          (use_id q = Some c \<longrightarrow> (\<exists>r \<in> set s. result_id r = Some c))
          \<and> (result_id q = Some c \<longrightarrow> (\<exists>u \<in> set p. use_id u = Some c))"
    unfolding paired_def list.set(1) by blast
  with msgs show ?thesis by (intro exI [of _ "inject_placeholders b"] conjI)
qed

theorem anthropic_calls_answered_witness:
  "\<exists>body ts. build_anthropic_request switch_ext_plain anthropic_history_sample anthropic_ctx_sample = Ok body
     \<and> jget body (lit ''messages'') = Some (JArray (map turn_message ts))"
proof -
  obtain body where b:
    "build_anthropic_request switch_ext_plain anthropic_history_sample anthropic_ctx_sample = Ok body"
    using anthropic_sample_ok by blast
  from anthropic_calls_answered [OF b] b show ?thesis by blast
qed

text \<open>
  The thinking budget of an Anthropic request lies between 1024 and 8000 tokens. It is below
  the request's own token limit exactly when this limit is above 1024: a provider configured with
  a smaller \<open>default_max_tokens\<close> gets a budget that its limit does not cover.
\<close>

theorem thinking_budget_bounds:
  "let m = ucast (unwrap_or DEFAULT_MAX_TOKENS (ctx_default_max_tokens ctx)) :: u64;
       budget = thinking_budget (anthropic_body req ctx ts)
   in 1024 \<le> budget \<and> budget \<le> 8000 \<and> (budget < m \<longleftrightarrow> 1024 < m)"
proof -
  define m where "m = (ucast (unwrap_or DEFAULT_MAX_TOKENS (ctx_default_max_tokens ctx)) :: u64)"
  have "thinking_budget (anthropic_body req ctx ts) = min (max (m div 2) 1024) 8000"
    by (simp add: thinking_budget_def anthropic_body_def Let_def json_simps m_def)
  moreover have "1024 \<le> min (max (m div 2) 1024) 8000 \<and> min (max (m div 2) 1024) 8000 \<le> 8000
      \<and> (min (max (m div 2) 1024) 8000 < m \<longleftrightarrow> 1024 < m)"
    unfolding min_def max_def word_le_nat_alt word_less_nat_alt by (simp add: unat_div) linarith
  ultimately show ?thesis by (simp add: m_def Let_def)
qed

end
