(* ===== verification/Switch_Run.thy ===== *)
theory Switch_Run
  imports Switch_Egress Switch_Chat_Req Switch_Anthropic_Req
begin

text \<open>
  The entry point of llm-switch (zmod/llm-switch/src/lib.rs, pipeline.rs and the \<open>run\<close> methods of
  the connectors): transform plugins, the egress context, the connector of the provider, the
  request it builds and the stream it returns. Sending the request is the argument \<open>send\<close>, which
  maps URL, headers and body to the upstream's reply.
\<close>

type_synonym transform_plugin = "responses_api_request \<Rightarrow> (conn_error, responses_api_request) result"

fun run_transforms ::
  "transform_plugin list \<Rightarrow> responses_api_request \<Rightarrow> (conn_error, responses_api_request) result" where
  "run_transforms [] req = Ok req"
| "run_transforms (p # ps) req = and_then (p req) (run_transforms ps)"

definition default_plugins :: "transform_plugin list" where
  "default_plugins = []"

type_synonym sender = "rstr \<Rightarrow> header_map \<Rightarrow> json \<Rightarrow> http_reply"

definition conn_result :: "(conn_error, 'a) result \<Rightarrow> (api_error, 'a) result" where
  "conn_result r = (case r of Inl e \<Rightarrow> Err (api_error_of e) | Inr a \<Rightarrow> Ok a)"

definition chat_run ::
  "switch_ext \<Rightarrow> (rstr set \<Rightarrow> rstr list) \<Rightarrow> sender \<Rightarrow> responses_api_request \<Rightarrow> egress_ctx
     \<Rightarrow> (api_error, response_stream) result" where
  "chat_run x iter send req ctx =
     and_then (conn_result (build_chat_request x iter req ctx)) (\<lambda>body.
       let url = egress_url (ctx_base_url ctx) Chat (ctx_path_override ctx) in
       and_then (egress_headers x ctx None) (\<lambda>headers.
         run_egress x (push_chunk x) chat_finish chat_sse_default (send url headers body)))"

definition anthropic_run ::
  "switch_ext \<Rightarrow> sender \<Rightarrow> responses_api_request \<Rightarrow> egress_ctx \<Rightarrow> (api_error, response_stream) result" where
  "anthropic_run x send req ctx =
     and_then (conn_result (build_anthropic_request x req ctx)) (\<lambda>body.
       let url = egress_url (ctx_base_url ctx) Anthropic (ctx_path_override ctx) in
       and_then (egress_headers x ctx (ctx_anthropic_version ctx)) (\<lambda>headers.
         run_egress x (push_event x) anthropic_finish anthropic_sse_default (send url headers body)))"

fun make_connector ::
  "connector_kind \<Rightarrow> switch_ext \<Rightarrow> (rstr set \<Rightarrow> rstr list) \<Rightarrow> sender \<Rightarrow> responses_api_request
     \<Rightarrow> egress_ctx \<Rightarrow> (api_error, response_stream) result" where
  "make_connector Chat x iter = chat_run x iter"
| "make_connector Anthropic x iter = anthropic_run x"

definition run ::
  "switch_ext \<Rightarrow> (rstr set \<Rightarrow> rstr list) \<Rightarrow> (rstr \<Rightarrow> rstr option) \<Rightarrow> sender \<Rightarrow> route
     \<Rightarrow> responses_api_request \<Rightarrow> (header_map \<Rightarrow> header_map) \<Rightarrow> (api_error, response_stream) result" where
  "run x iter env send rt request api_auth =
     and_then (conn_result (run_transforms default_plugins request)) (\<lambda>request.
       let c = route_cfg rt in
       case base_url c of
         None \<Rightarrow> Err (InvalidRequest (lit ''provider '' @ provider_id rt @ lit '' missing base_url''))
       | Some url \<Rightarrow>
           let ctx = \<lparr>ctx_base_url = url,
                 ctx_model = unwrap_or (model request) (model_cfg c),
                 ctx_auth = auth c, ctx_key = resolve_key env c,
                 ctx_anthropic_version = anthropic_version c, ctx_path_override = path_cfg c,
                 ctx_default_max_tokens = default_max_tokens c, ctx_prompt_cache = prompt_cache c,
                 ctx_auth_fallback = Some api_auth\<rparr>
           in make_connector (connector c) x iter send request ctx)"

section \<open>Errors come before the network\<close>

lemma run_egress_Ok:
  assumes "run_egress x push finish init reply = Ok rs"
  obtains status rid t chunks where "reply = Reply status rid t chunks" "200 \<le> status" "status < 300"
    "rx_event rs = stream_events x push finish init chunks" "upstream_request_id rs = rid"
  using assms by (cases reply) (auto split: if_splits)

lemma run_Ok:
  assumes "run x iter env send rt request api_auth = Ok rs"
  obtains base ctx where "base_url (route_cfg rt) = Some base" "ctx_base_url ctx = base"
    "make_connector (connector (route_cfg rt)) x iter send request ctx = Ok rs"
proof -
  from assms obtain base where base: "base_url (route_cfg rt) = Some base"
    by (auto simp: run_def conn_result_def default_plugins_def Let_def split: option.splits)
  show thesis
    by (rule that [OF base _ assms [unfolded run_def conn_result_def default_plugins_def Let_def
        base run_transforms.simps sum.case and_then_simps option.case]]) simp
qed

lemma map_anthropic_tools_Ok:
  "map_anthropic_tools x l = Ok ts \<Longrightarrow> list_all (\<lambda>t. tool_type t = Some (lit ''function'')) l"
proof -
  have "map_result (map_anthropic_tool x) l = Ok os \<Longrightarrow>
      list_all (\<lambda>t. tool_type t = Some (lit ''function'')) l" for os
    by (induction l arbitrary: os) (auto simp: and_then_Ok_iff split: if_splits)
  then show "map_anthropic_tools x l = Ok ts \<Longrightarrow> ?thesis"
    by (auto simp: map_anthropic_tools_def and_then_Ok_iff split: if_splits)
qed

lemma anthropic_items_no_namespace:
  "anthropic_items x its b = Ok b' \<Longrightarrow> \<not> list_ex is_namespaced_call its"
proof (induction its arbitrary: b)
  case (Cons i its)
  then obtain b1 where "anthropic_item x i b = Ok b1" "anthropic_items x its b1 = Ok b'"
    by (auto simp: and_then_Ok_iff)
  moreover from this(1) have "\<not> is_namespaced_call i"
    by (cases i rule: is_namespaced_call.cases) auto
  ultimately show ?case using Cons.IH by simp
qed simp

lemma expressible_no_namespace: "expressible a seen its \<Longrightarrow> \<not> list_ex is_namespaced_call its"
proof (induction its arbitrary: seen)
  case (Cons i its)
  have "expressible a (seen \<union> calls_of [i]) its \<and> \<not> is_namespaced_call i"
    using Cons.prems by (cases i rule: is_namespaced_call.cases) auto
  with Cons.IH show ?case by auto
qed simp

lemma function_tools_iff:
  "list_all (\<lambda>t. tool_type t = Some (lit ''function'')) l
     \<longleftrightarrow> \<not> list_ex (\<lambda>t. get_str t (lit ''type'') \<noteq> Some (lit ''function'')) l"
  by (simp add: tool_type_def list_all_iff list_ex_iff)

lemma chat_request_no_namespace:
  assumes "build_chat_request x iter req ctx = Ok body"
  shows "\<not> request_has_namespace_tools req"
proof -
  from assms obtain ts b where "map_chat_tools x (tools req) = Ok ts"
    and "chat_items (input req) \<lparr>messages = system_messages req, seen_calls = {}, calls_needing_result = {}\<rparr> = Ok b"
    by (auto simp: build_chat_request_def and_then_Ok_iff Let_def)
  then have "list_all (\<lambda>t. tool_type t = Some (lit ''function'')) (tools req)"
    "expressible (\<lambda>_. True) {} (input req)"
    using map_chat_tools_ok chat_items_ok by force+
  then show ?thesis
    using expressible_no_namespace function_tools_iff by (simp add: request_has_namespace_tools_def)
qed

lemma anthropic_request_no_namespace:
  assumes "build_anthropic_request x req ctx = Ok body"
  shows "\<not> request_has_namespace_tools req"
proof -
  from assms obtain ts b where "map_anthropic_tools x (tools req) = Ok ts"
    and "anthropic_items x (input req) \<lparr>turns = [], an_seen_calls = {}, an_calls_needing_result = []\<rparr> = Ok b"
    by (auto simp: build_anthropic_request_def and_then_Ok_iff Let_def)
  from map_anthropic_tools_Ok [OF this(1)] anthropic_items_no_namespace [OF this(2)] show ?thesis
    by (simp add: request_has_namespace_tools_def function_tools_iff)
qed

section \<open>Properties of the entry point\<close>

text \<open>
  C30. The namespace pre-check guards exactly what it should: a request with a non-function tool
  or a namespaced call is refused by both connectors, and routing never redirects such a request
  to the provider of its purpose - it stays on the provider it was addressed to.
\<close>

theorem namespace_guard:
  assumes "request_has_namespace_tools req"
  shows "(\<nexists>body. build_chat_request x iter req ctx = Ok body)
    \<and> (\<nexists>body. build_anthropic_request x req ctx = Ok body)
    \<and> route_request c pid source req = (if sw_enabled c then provider_route c pid else None)"
proof -
  have "route_request c pid source req = (if sw_enabled c then provider_route c pid else None)"
    using assms by (cases "Option.bind source purpose_from_source")
      (simp_all add: route_request_def route_in_fallback purpose_route_def)
  with assms chat_request_no_namespace anthropic_request_no_namespace show ?thesis by blast
qed

theorem namespace_guard_witness:
  "let req = request_sample\<lparr>tools := [jobj [(lit ''type'', jstr ''web_search'')]]\<rparr> in
   request_has_namespace_tools req
   \<and> (\<nexists>body. build_chat_request switch_ext_plain (\<lambda>_. []) req ctx_sample = Ok body)
   \<and> route_request route_sample (lit ''main'') (Some (SubAgent Compact)) req = None"
proof -
  let ?req = "request_sample\<lparr>tools := [jobj [(lit ''type'', jstr ''web_search'')]]\<rparr>"
  have ns: "request_has_namespace_tools ?req"
    by (simp add: request_has_namespace_tools_def json_simps)
  have "provider_route route_sample (lit ''main'') = None"
    by (simp add: provider_route_def route_sample_def)
  with namespace_guard [OF ns, of switch_ext_plain "\<lambda>_. []" ctx_sample route_sample "lit ''main''"
      "Some (SubAgent Compact)"] ns
  show ?thesis by (simp add: Let_def)
qed

text \<open>
  C5. A run returns a stream only after a 2xx reply to a request that the provider's connector
  could express, sent to the provider's base URL; and every stream it returns ends once: with its
  only \<open>Completed\<close> event, or with one error and no \<open>Completed\<close>.
\<close>

theorem run_returns_terminated_stream:
  assumes "run x iter env send rt request api_auth = Ok rs"
  shows "\<exists>base url headers body status rid t chunks.
     base_url (route_cfg rt) = Some base \<and> starts_with url (trim_end_matches base 47)
     \<and> send url headers body = Reply status rid t chunks \<and> 200 \<le> status \<and> status < 300
     \<and> \<not> request_has_namespace_tools request
     \<and> upstream_request_id rs = rid \<and> ends_once (rx_event rs)"
proof -
  obtain base ctx where base: "base_url (route_cfg rt) = Some base"
    and ctx: "ctx_base_url ctx = base"
    and mk: "make_connector (connector (route_cfg rt)) x iter send request ctx = Ok rs"
    using run_Ok [OF assms] .
  have url: "starts_with (egress_url base k p) (trim_end_matches base 47)" for k p
    by (simp add: egress_url_def)
  show ?thesis
  proof (cases "connector (route_cfg rt)")
    case Chat
    with mk obtain body headers where "build_chat_request x iter request ctx = Ok body"
      and e: "run_egress x (push_chunk x) chat_finish chat_sse_default
        (send (egress_url base Chat (ctx_path_override ctx)) headers body) = Ok rs"
      by (auto simp: chat_run_def conn_result_def and_then_Ok_iff Let_def ctx split: sum.splits)
    with run_egress_Ok [OF e] chat_request_no_namespace base url egress_ends_once(1) show ?thesis
      by metis
  next
    case Anthropic
    with mk obtain body headers where "build_anthropic_request x request ctx = Ok body"
      and e: "run_egress x (push_event x) anthropic_finish anthropic_sse_default
        (send (egress_url base Anthropic (ctx_path_override ctx)) headers body) = Ok rs"
      by (auto simp: anthropic_run_def conn_result_def and_then_Ok_iff Let_def ctx split: sum.splits)
    with run_egress_Ok [OF e] anthropic_request_no_namespace base url egress_ends_once(2) show ?thesis
      by metis
  qed
qed

definition rt_sample :: route where
  "rt_sample = \<lparr>provider_id = lit ''p'', route_cfg = (provider_of raw_sample Chat Bearer)
     \<lparr>base_url := Some (lit ''http://h/''), auth_key := Some (lit ''k'')\<rparr>\<rparr>"

theorem run_returns_terminated_stream_witness:
  "\<exists>rs. run switch_ext_plain (\<lambda>_. []) (\<lambda>_. None) (\<lambda>_ _ _. Reply 200 None [] []) rt_sample
        request_sample id = Ok rs \<and> ends_once (rx_event rs)"
proof -
  have "\<exists>rs. run switch_ext_plain (\<lambda>_. []) (\<lambda>_. None) (\<lambda>_ _ _. Reply 200 None [] []) rt_sample
        request_sample id = Ok rs"
    by (simp add: run_def conn_result_def default_plugins_def Let_def rt_sample_def provider_of_def
        chat_run_def build_chat_request_def map_chat_tools_def request_sample_def
        chat_tool_fields_def egress_headers_def resolve_key_def build_headers_def switch_ext_plain_def
        raw_sample_def)
  then obtain rs where r: "run switch_ext_plain (\<lambda>_. []) (\<lambda>_. None) (\<lambda>_ _ _. Reply 200 None [] [])
      rt_sample request_sample id = Ok rs" by blast
  from run_returns_terminated_stream [OF r] r show ?thesis by blast
qed

end
