(* ===== verification/Patch_Seek.thy ===== *)
theory Patch_Seek
  imports Rust_Text
begin

text \<open>
  Locating the lines of a patch in a file (codex-rs/apply-patch/src/seek_sequence.rs): four
  passes of decreasing strictness over the same candidate positions. The locale \<open>coarser\<close> relates
  two consecutive passes; it is interpreted on the three steps of the code.
\<close>

definition normalise_char :: "rchar \<Rightarrow> rchar" where
  "normalise_char c =
     (if c \<in> {8208, 8209, 8210, 8211, 8212, 8213, 8722} then 45
      else if c \<in> {8216, 8217, 8218, 8219} then 39
      else if c \<in> {8220, 8221, 8222, 8223} then 34
      else if c \<in> {160, 8194, 8195, 8196, 8197, 8198, 8199, 8200, 8201, 8202, 8239, 8287, 12288} then 32
      else c)"

definition normalise :: "rstr \<Rightarrow> rstr" where
  "normalise s = map normalise_char (trim s)"

text \<open>Whether \<open>pattern\<close> occurs at line \<open>i\<close> when lines are compared after \<open>view\<close>.\<close>

definition matches_at :: "(rstr \<Rightarrow> 'a) \<Rightarrow> rstr list \<Rightarrow> rstr list \<Rightarrow> nat \<Rightarrow> bool" where
  "matches_at view ls pat i \<longleftrightarrow> list_all (\<lambda>(p_idx, p). view (ls ! (i + p_idx)) = view p) (enumerate 0 pat)"

definition seek_pass :: "(rstr \<Rightarrow> 'a) \<Rightarrow> rstr list \<Rightarrow> rstr list \<Rightarrow> nat \<Rightarrow> nat option" where
  "seek_pass view ls pat search_start =
     List.find (matches_at view ls pat) [search_start ..< Suc (length ls - length pat)]"

definition seek_sequence :: "rstr list \<Rightarrow> rstr list \<Rightarrow> nat \<Rightarrow> bool \<Rightarrow> nat option" where
  "seek_sequence ls pat start eof =
     (if pat = [] then Some start
      else if length ls < length pat then None
      else
        let search_start = (if eof \<and> length pat \<le> length ls then length ls - length pat else start) in
        case seek_pass id ls pat search_start of
          Some i \<Rightarrow> Some i
        | None \<Rightarrow>
            (case seek_pass trim_end ls pat search_start of
               Some i \<Rightarrow> Some i
             | None \<Rightarrow>
                 (case seek_pass trim ls pat search_start of
                    Some i \<Rightarrow> Some i
                  | None \<Rightarrow> seek_pass normalise ls pat search_start)))"

text \<open>The positions the search considers.\<close>

definition candidate_line :: "rstr list \<Rightarrow> rstr list \<Rightarrow> nat \<Rightarrow> bool \<Rightarrow> nat \<Rightarrow> bool" where
  "candidate_line ls pat start eof i \<longleftrightarrow>
     i + length pat \<le> length ls \<and> (if eof then i + length pat = length ls else start \<le> i)"

lemma matches_at_nth:
  "matches_at view ls pat i \<longleftrightarrow> (\<forall>k < length pat. view (ls ! (i + k)) = view (pat ! k))"
  by (auto simp: matches_at_def list_all_iff in_set_enumerate_eq)

lemma find_upt_Some:
  "List.find P [a ..< b] = Some i \<longleftrightarrow> a \<le> i \<and> i < b \<and> P i \<and> (\<forall>j. a \<le> j \<and> j < i \<longrightarrow> \<not> P j)"
proof -
  have "List.find P [a ..< b] = Some i \<longleftrightarrow>
      (\<exists>k < b - a. P (a + k) \<and> i = a + k \<and> (\<forall>j < k. \<not> P (a + j)))"
    by (auto simp: find_Some_iff)
  also have "\<dots> \<longleftrightarrow> a \<le> i \<and> i < b \<and> P i \<and> (\<forall>j. a \<le> j \<and> j < i \<longrightarrow> \<not> P j)"
  proof
    assume "a \<le> i \<and> i < b \<and> P i \<and> (\<forall>j. a \<le> j \<and> j < i \<longrightarrow> \<not> P j)"
    then show "\<exists>k < b - a. P (a + k) \<and> i = a + k \<and> (\<forall>j < k. \<not> P (a + j))"
      by (intro exI [of _ "i - a"]) auto
  next
    assume "\<exists>k < b - a. P (a + k) \<and> i = a + k \<and> (\<forall>j < k. \<not> P (a + j))"
    then obtain k where k: "k < b - a" "P (a + k)" "i = a + k" "\<forall>j < k. \<not> P (a + j)" by blast
    have "\<not> P j" if "a \<le> j" "j < i" for j
      using k(3) k(4) [rule_format, of "j - a"] that by simp
    with k show "a \<le> i \<and> i < b \<and> P i \<and> (\<forall>j. a \<le> j \<and> j < i \<longrightarrow> \<not> P j)" by auto
  qed
  finally show ?thesis .
qed

lemma find_upt_None: "List.find P [a ..< b] = None \<longleftrightarrow> (\<forall>j. a \<le> j \<and> j < b \<longrightarrow> \<not> P j)"
  by (auto simp: find_None_iff)

text \<open>A second pass that compares less finds everything the first one finds.\<close>

locale coarser =
  fixes f :: "rstr \<Rightarrow> 'a" and g :: "rstr \<Rightarrow> 'b"
  assumes coarser: "f a = f b \<Longrightarrow> g a = g b"
begin

lemma matches_coarser: "matches_at f ls pat i \<Longrightarrow> matches_at g ls pat i"
  unfolding matches_at_nth using coarser by blast

lemma seek_coarser: "seek_pass g ls pat s = None \<Longrightarrow> seek_pass f ls pat s = None"
  unfolding seek_pass_def find_upt_None using matches_coarser by blast

end

interpretation exact_rstrip: coarser id trim_end
  by unfold_locales simp

lemma trim_trim_end: "trim s = trim_start (trim_end s)"
proof (cases "\<forall>c \<in> set s. is_whitespace c")
  case True
  then show ?thesis
    using trim_empty [of s] by (simp add: trim_start_def trim_end_def dropWhile_eq_Nil_conv [THEN iffD2])
next
  case False
  obtain a m b where s: "s = a @ m @ b" and a: "\<forall>c \<in> set a. is_whitespace c"
    and b: "\<forall>c \<in> set b. is_whitespace c" and m: "m \<noteq> []" "\<not> is_whitespace (hd m)" "\<not> is_whitespace (last m)"
  proof -
    let ?d = "dropWhile is_whitespace s"
    have d: "?d \<noteq> []" using False by (simp add: dropWhile_eq_Nil_conv)
    let ?m = "rev (dropWhile is_whitespace (rev ?d))"
    have ne: "dropWhile is_whitespace (rev ?d) \<noteq> []"
      using d hd_dropWhile [of is_whitespace s] by (metis dropWhile_eq_Nil_conv hd_in_set set_rev)
    have dm: "?d = ?m @ rev (takeWhile is_whitespace (rev ?d))"
      by (metis rev_append rev_rev_ident takeWhile_dropWhile_id)
    then have "hd ?m = hd ?d" using ne by (metis hd_append2 rev_is_Nil_conv)
    then have "\<not> is_whitespace (hd ?m)" using hd_dropWhile [of is_whitespace s] d by simp
    moreover have "\<not> is_whitespace (last ?m)"
      using ne hd_dropWhile [of is_whitespace "rev ?d"] by (simp add: last_rev)
    moreover have "s = takeWhile is_whitespace s @ ?m @ rev (takeWhile is_whitespace (rev ?d))"
      using dm by (metis takeWhile_dropWhile_id)
    ultimately show thesis
      using that ne by (metis rev_is_Nil_conv set_rev set_takeWhileD)
  qed
  have skip: "dropWhile is_whitespace (u @ v @ t) = v @ t"
    if "\<forall>c \<in> set u. is_whitespace c" "v \<noteq> []" "\<not> is_whitespace (hd v)" for u v t
    using that by (induction u) (cases v, auto)
  have start: "dropWhile is_whitespace (a @ m @ t) = m @ t" for t
    using skip a m by blast
  have "dropWhile is_whitespace (rev b @ rev m @ t) = rev m @ t" for t
    by (rule skip) (use b m in \<open>simp_all add: hd_rev\<close>)
  note fin = this [of "[]"] this [of "rev a"]
  show ?thesis
    using start [of b] start [of "[]"] fin by (simp add: trim_def trim_start_def trim_end_def s)
qed

interpretation rstrip_trim: coarser trim_end trim
  by unfold_locales (simp add: trim_trim_end)

interpretation trim_normalise: coarser trim normalise
  by unfold_locales (simp add: normalise_def)

lemma seek_pass_Some:
  "seek_pass view ls pat s = Some i \<Longrightarrow> s \<le> i \<and> i \<le> length ls - length pat \<and> matches_at view ls pat i"
  by (simp add: seek_pass_def find_upt_Some del: upt_Suc)

lemmas pass_chain = exact_rstrip.matches_coarser rstrip_trim.matches_coarser trim_normalise.matches_coarser

lemma seek_sequence_cases:
  fixes start eof
  assumes "pat \<noteq> []" and "length pat \<le> length ls"
  defines "s \<equiv> (if eof then length ls - length pat else start)"
  shows "case seek_sequence ls pat start eof of
     None \<Rightarrow> seek_pass normalise ls pat s = None
   | Some i \<Rightarrow> s \<le> i \<and> i \<le> length ls - length pat \<and> matches_at normalise ls pat i
       \<and> (seek_pass id ls pat s = None \<or> seek_pass id ls pat s = Some i)"
proof -
  have seek: "seek_sequence ls pat start eof =
     (case seek_pass id ls pat s of
        Some i \<Rightarrow> Some i
      | None \<Rightarrow>
          (case seek_pass trim_end ls pat s of
             Some i \<Rightarrow> Some i
           | None \<Rightarrow>
               (case seek_pass trim ls pat s of
                  Some i \<Rightarrow> Some i
                | None \<Rightarrow> seek_pass normalise ls pat s)))"
    using assms(1,2) unfolding seek_sequence_def Let_def s_def
    by (cases eof) (simp_all cong: option.case_cong)
  show ?thesis
  proof (cases "seek_pass id ls pat s")
    case (Some i)
    with seek_pass_Some [OF Some] pass_chain show ?thesis by (simp add: seek)
  next
    case exact: None
    show ?thesis
    proof (cases "seek_pass trim_end ls pat s")
      case (Some i)
      with seek_pass_Some [OF Some] pass_chain exact show ?thesis by (simp add: seek)
    next
      case rstrip: None
      show ?thesis
      proof (cases "seek_pass trim ls pat s")
        case (Some i)
        with seek_pass_Some [OF Some] pass_chain exact rstrip show ?thesis by (simp add: seek)
      next
        case None
        with exact rstrip seek_pass_Some [of normalise ls pat s] show ?thesis
          by (cases "seek_pass normalise ls pat s") (simp_all add: seek)
      qed
    qed
  qed
qed

lemma seek_sequence_range:
  assumes "seek_sequence ls pat start eof = Some i" and "pat \<noteq> []"
  shows "candidate_line ls pat start eof i \<and> matches_at normalise ls pat i"
proof -
  have len: "length pat \<le> length ls"
    using assms by (cases "length ls < length pat") (simp_all add: seek_sequence_def)
  from seek_sequence_cases [OF assms(2) len, of eof start] assms(1) len
  show ?thesis by (auto simp: candidate_line_def split: if_splits)
qed



end
