(* ===== verification/Patch_Parse.thy ===== *)
theory Patch_Parse
  imports Rust_Text
begin

text \<open>
  The apply_patch language (codex-rs/apply-patch/src/parser.rs and streaming_parser.rs): the
  boundary checks with their lenient heredoc form, and the line-driven parser as a state machine
  on an explicit state. The last section proves that parsed hunks are well formed; that the
  parser inverts a printer of hunks is proved in \<open>Patch_Print\<close>.
\<close>

definition BEGIN_PATCH_MARKER :: rstr where "BEGIN_PATCH_MARKER = lit ''*** Begin Patch''"
definition END_PATCH_MARKER :: rstr where "END_PATCH_MARKER = lit ''*** End Patch''"
definition ADD_FILE_MARKER :: rstr where "ADD_FILE_MARKER = lit ''*** Add File: ''"
definition DELETE_FILE_MARKER :: rstr where "DELETE_FILE_MARKER = lit ''*** Delete File: ''"
definition UPDATE_FILE_MARKER :: rstr where "UPDATE_FILE_MARKER = lit ''*** Update File: ''"
definition MOVE_TO_MARKER :: rstr where "MOVE_TO_MARKER = lit ''*** Move to: ''"
definition EOF_MARKER :: rstr where "EOF_MARKER = lit ''*** End of File''"
definition CHANGE_CONTEXT_MARKER :: rstr where "CHANGE_CONTEXT_MARKER = lit ''@@ ''"
definition EMPTY_CHANGE_CONTEXT_MARKER :: rstr where "EMPTY_CHANGE_CONTEXT_MARKER = lit ''@@''"
definition ENVIRONMENT_ID_MARKER :: rstr where "ENVIRONMENT_ID_MARKER = lit ''*** Environment ID:''"

lemmas marker_defs = BEGIN_PATCH_MARKER_def END_PATCH_MARKER_def ADD_FILE_MARKER_def
  DELETE_FILE_MARKER_def UPDATE_FILE_MARKER_def MOVE_TO_MARKER_def EOF_MARKER_def
  CHANGE_CONTEXT_MARKER_def EMPTY_CHANGE_CONTEXT_MARKER_def ENVIRONMENT_ID_MARKER_def

datatype parse_error =
    InvalidPatchError rstr
  | InvalidHunkError rstr nat

record update_file_chunk =
  change_context :: "rstr option"
  old_lines :: "rstr list"
  new_lines :: "rstr list"
  is_end_of_file :: bool

datatype hunk =
    AddFile rstr rstr
  | DeleteFile rstr
  | UpdateFile rstr "rstr option" "update_file_chunk list"

text \<open>The path of a hunk that is read, and the path it affects (the destination of a rename).\<close>

fun hunk_source :: "hunk \<Rightarrow> rstr" where
  "hunk_source (AddFile p _) = p"
| "hunk_source (DeleteFile p) = p"
| "hunk_source (UpdateFile p _ _) = p"

fun hunk_path :: "hunk \<Rightarrow> rstr" where
  "hunk_path (AddFile p _) = p"
| "hunk_path (DeleteFile p) = p"
| "hunk_path (UpdateFile p (Some m) _) = m"
| "hunk_path (UpdateFile p None _) = p"

section \<open>The streaming parser\<close>

datatype parser_mode =
    NotStarted
  | StartedPatch
  | AddFileMode
  | DeleteFileMode
  | UpdateFileMode nat
  | EndedPatch

record patch_parser =
  p_line_buffer :: rstr
  p_mode :: parser_mode
  p_hunks :: "hunk list"
  p_environment_id :: "rstr option"
  p_line_number :: nat

definition parser_default :: patch_parser where
  "parser_default = \<lparr>p_line_buffer = [], p_mode = NotStarted, p_hunks = [], p_environment_id = None,
     p_line_number = 0\<rparr>"

definition quote_text :: "rstr \<Rightarrow> rstr" where
  "quote_text s = [39] @ s @ [39]"

definition chunk_lineless :: "update_file_chunk \<Rightarrow> bool" where
  "chunk_lineless c \<longleftrightarrow> old_lines c = [] \<and> new_lines c = []"

definition last_lineless :: "update_file_chunk list \<Rightarrow> bool" where
  "last_lineless cs \<longleftrightarrow> cs \<noteq> [] \<and> chunk_lineless (last cs)"

definition unexpected_line :: "rstr \<Rightarrow> nat \<Rightarrow> parse_error" where
  "unexpected_line l n =
     InvalidHunkError (lit ''Unexpected line found in update hunk: '' @ quote_text l
       @ lit ''. Every line should start with '' @ quote_text [32] @ lit '' (context line), ''
       @ quote_text (lit ''+'') @ lit '' (added line), or '' @ quote_text (lit ''-'')
       @ lit '' (removed line)'') n"

definition no_lines :: "nat \<Rightarrow> parse_error" where
  "no_lines n = InvalidHunkError (lit ''Update hunk does not contain any lines'') n"

definition expected_context :: "rstr \<Rightarrow> nat \<Rightarrow> parse_error" where
  "expected_context l n =
     InvalidHunkError (lit ''Expected update hunk to start with a @@ context marker, got: ''
       @ quote_text l) n"

definition bad_header :: "rstr \<Rightarrow> nat \<Rightarrow> parse_error" where
  "bad_header l n =
     InvalidHunkError (quote_text l @ lit '' is not a valid hunk header. Valid hunk headers: ''
       @ quote_text (lit ''*** Add File: {path}'') @ lit '', ''
       @ quote_text (lit ''*** Delete File: {path}'') @ lit '', ''
       @ quote_text (lit ''*** Update File: {path}'')) n"

definition ensure_update_hunk_is_not_empty :: "rstr \<Rightarrow> patch_parser \<Rightarrow> (parse_error, unit) result" where
  "ensure_update_hunk_is_not_empty l p =
     (if p_hunks p = [] then Ok ()
      else
        case last (p_hunks p) of
          UpdateFile path mv chunks \<Rightarrow>
            (case (chunks, p_mode p) of
               ([], UpdateFileMode hunk_line_number) \<Rightarrow>
                 Err (InvalidHunkError (lit ''Update file hunk for path '' @ quote_text path
                   @ lit '' is empty'') hunk_line_number)
             | _ \<Rightarrow>
                 if last_lineless chunks then
                   Err (if l = END_PATCH_MARKER then no_lines (p_line_number p)
                        else unexpected_line l (p_line_number p))
                 else Ok ())
        | _ \<Rightarrow> Ok ())"

definition open_hunk :: "hunk \<Rightarrow> parser_mode \<Rightarrow> rstr \<Rightarrow> patch_parser \<Rightarrow> (parse_error, bool \<times> patch_parser) result" where
  "open_hunk h m l p =
     and_then (ensure_update_hunk_is_not_empty l p) (\<lambda>_.
       Ok (True, p\<lparr>p_hunks := p_hunks p @ [h], p_mode := m\<rparr>))"

definition hunk_header ::
  "rstr \<Rightarrow> patch_parser \<Rightarrow> (parse_error, bool \<times> patch_parser) result" where
  "hunk_header trimmed p =
     (if trimmed = END_PATCH_MARKER then
        and_then (ensure_update_hunk_is_not_empty trimmed p) (\<lambda>_. Ok (True, p\<lparr>p_mode := EndedPatch\<rparr>))
      else
        case strip_prefix trimmed ADD_FILE_MARKER of
          Some path \<Rightarrow> open_hunk (AddFile path []) AddFileMode trimmed p
        | None \<Rightarrow>
            (case strip_prefix trimmed DELETE_FILE_MARKER of
               Some path \<Rightarrow> open_hunk (DeleteFile path) DeleteFileMode trimmed p
             | None \<Rightarrow>
                 (case strip_prefix trimmed UPDATE_FILE_MARKER of
                    Some path \<Rightarrow>
                      open_hunk (UpdateFile path None []) (UpdateFileMode (p_line_number p)) trimmed p
                  | None \<Rightarrow> Ok (False, p))))"

definition handle_hunk_headers_and_end_patch ::
  "rstr \<Rightarrow> patch_parser \<Rightarrow> (parse_error, bool \<times> patch_parser) result" where
  "handle_hunk_headers_and_end_patch trimmed p =
     (case (if p_mode p = StartedPatch then strip_prefix trimmed ENVIRONMENT_ID_MARKER else None) of
        Some eid \<Rightarrow>
          if p_environment_id p \<noteq> None
          then Err (InvalidPatchError (lit ''apply_patch environment_id cannot be specified more than once''))
          else if trim eid = []
          then Err (InvalidPatchError (lit ''apply_patch environment_id cannot be empty''))
          else Ok (True, p\<lparr>p_environment_id := Some (trim eid)\<rparr>)
      | None \<Rightarrow> hunk_header trimmed p)"

definition new_chunk :: "rstr option \<Rightarrow> update_file_chunk" where
  "new_chunk ctx = \<lparr>change_context = ctx, old_lines = [], new_lines = [], is_end_of_file = False\<rparr>"

text \<open>Create the first chunk when there is none, and change the last one.\<close>

definition on_last_chunk ::
  "(update_file_chunk \<Rightarrow> update_file_chunk) \<Rightarrow> update_file_chunk list \<Rightarrow> update_file_chunk list" where
  "on_last_chunk f chunks =
     (let cs = (if chunks = [] then [new_chunk None] else chunks) in butlast cs @ [f (last cs)])"

definition set_last_hunk :: "hunk \<Rightarrow> patch_parser \<Rightarrow> patch_parser" where
  "set_last_hunk h p = p\<lparr>p_hunks := butlast (p_hunks p) @ [h]\<rparr>"

definition is_context_marker :: "rstr \<Rightarrow> bool" where
  "is_context_marker l \<longleftrightarrow> l = EMPTY_CHANGE_CONTEXT_MARKER \<or> starts_with l CHANGE_CONTEXT_MARKER"

text \<open>The change lines of an update hunk: what a line adds to the last chunk.\<close>

fun change_line :: "rstr \<Rightarrow> (update_file_chunk \<Rightarrow> update_file_chunk) option" where
  "change_line [] = Some (\<lambda>c. c\<lparr>old_lines := old_lines c @ [[]], new_lines := new_lines c @ [[]]\<rparr>)"
| "change_line (a # l) =
     (if a = 32 then Some (\<lambda>c. c\<lparr>old_lines := old_lines c @ [l], new_lines := new_lines c @ [l]\<rparr>)
      else if a = 43 then Some (\<lambda>c. c\<lparr>new_lines := new_lines c @ [l]\<rparr>)
      else if a = 45 then Some (\<lambda>c. c\<lparr>old_lines := old_lines c @ [l]\<rparr>)
      else None)"

definition process_update_line ::
  "rstr \<Rightarrow> rstr \<Rightarrow> rstr option \<Rightarrow> update_file_chunk list \<Rightarrow> patch_parser \<Rightarrow> (parse_error, patch_parser) result" where
  "process_update_line l path mv chunks p =
     (let update_line = trim_end l;
          n = p_line_number p;
          last_eof = (chunks \<noteq> [] \<and> is_end_of_file (last chunks));
          put = (\<lambda>cs. Ok (set_last_hunk (UpdateFile path mv cs) p))
      in
      if last_eof \<and> update_line = [] then Ok p
      else if last_eof \<and> \<not> is_context_marker update_line then Err (expected_context l n)
      else
        case (if chunks = [] \<and> mv = None then strip_prefix update_line MOVE_TO_MARKER else None) of
          Some move_to_path \<Rightarrow> Ok (set_last_hunk (UpdateFile path (Some move_to_path) chunks) p)
        | None \<Rightarrow>
            if is_context_marker update_line \<and> last_lineless chunks then Err (unexpected_line l n)
            else if update_line = EMPTY_CHANGE_CONTEXT_MARKER then put (chunks @ [new_chunk None])
            else
              case strip_prefix update_line CHANGE_CONTEXT_MARKER of
                Some ctx \<Rightarrow> put (chunks @ [new_chunk (Some ctx)])
              | None \<Rightarrow>
                  if update_line = EOF_MARKER then
                    if last_lineless chunks then Err (no_lines n)
                    else if chunks = [] then Ok p
                    else put (butlast chunks @ [(last chunks)\<lparr>is_end_of_file := True\<rparr>])
                  else
                    case change_line l of
                      Some f \<Rightarrow> put (on_last_chunk f chunks)
                    | None \<Rightarrow>
                        if chunks \<noteq> [] \<and> \<not> chunk_lineless (last chunks) then Err (expected_context l n)
                        else Err (unexpected_line l n))"

definition process_line :: "rstr \<Rightarrow> patch_parser \<Rightarrow> (parse_error, patch_parser) result" where
  "process_line l p =
     (let trimmed = trim l; n = p_line_number p in
      case p_mode p of
        NotStarted \<Rightarrow>
          if trimmed = BEGIN_PATCH_MARKER then Ok (p\<lparr>p_mode := StartedPatch\<rparr>)
          else Err (InvalidPatchError (lit ''The first line of the patch must be ''
                 @ quote_text BEGIN_PATCH_MARKER))
      | StartedPatch \<Rightarrow>
          and_then (handle_hunk_headers_and_end_patch trimmed p) (\<lambda>(handled, p).
            if handled then Ok p else Err (bad_header trimmed n))
      | AddFileMode \<Rightarrow>
          and_then (handle_hunk_headers_and_end_patch trimmed p) (\<lambda>(handled, p).
            if handled then Ok p
            else
              case (strip_prefix l [43], p_hunks p \<noteq> [], last (p_hunks p)) of
                (Some line_to_add, True, AddFile path contents) \<Rightarrow>
                  Ok (set_last_hunk (AddFile path (contents @ line_to_add @ [nl])) p)
              | _ \<Rightarrow> Err (bad_header trimmed n))
      | DeleteFileMode \<Rightarrow>
          and_then (handle_hunk_headers_and_end_patch trimmed p) (\<lambda>(handled, p).
            if handled then Ok p else Err (bad_header trimmed n))
      | UpdateFileMode hunk_line_number \<Rightarrow>
          and_then (handle_hunk_headers_and_end_patch (trim_end l) p) (\<lambda>(handled, p).
            if handled then Ok p
            else
              case (p_hunks p \<noteq> [], last (p_hunks p)) of
                (True, UpdateFile path mv chunks) \<Rightarrow> process_update_line l path mv chunks p
              | _ \<Rightarrow> Err (unexpected_line l n))
      | EndedPatch \<Rightarrow>
          if trimmed = [] then Ok p
          else Err (InvalidPatchError (lit ''The last line of the patch must be ''
                 @ quote_text END_PATCH_MARKER)))"

fun push_delta :: "rstr \<Rightarrow> patch_parser \<Rightarrow> (parse_error, patch_parser) result" where
  "push_delta [] p = Ok p"
| "push_delta (ch # delta) p =
     (if ch = nl then
        and_then (process_line (strip_cr (p_line_buffer p))
                   (p\<lparr>p_line_buffer := [], p_line_number := Suc (p_line_number p)\<rparr>))
          (push_delta delta)
      else push_delta delta (p\<lparr>p_line_buffer := p_line_buffer p @ [ch]\<rparr>))"

definition finish :: "patch_parser \<Rightarrow> (parse_error, patch_parser) result" where
  "finish p =
     and_then
       (if p_line_buffer p = [] then Ok p
        else
          let l = p_line_buffer p;
              p = p\<lparr>p_line_buffer := [], p_line_number := Suc (p_line_number p)\<rparr>
          in if trim l = END_PATCH_MARKER
             then and_then (ensure_update_hunk_is_not_empty (trim l) p) (\<lambda>_. Ok (p\<lparr>p_mode := EndedPatch\<rparr>))
             else process_line l p)
       (\<lambda>p. if p_mode p = EndedPatch then Ok p
            else Err (InvalidPatchError (lit ''The last line of the patch must be ''
                   @ quote_text END_PATCH_MARKER)))"

section \<open>Whole patches\<close>

record apply_patch_args =
  patch_text :: rstr
  args_hunks :: "hunk list"
  args_workdir :: "rstr option"
  args_environment_id :: "rstr option"

datatype parse_mode = Strict | Lenient

definition check_start_and_end_lines_strict ::
  "rstr option \<Rightarrow> rstr option \<Rightarrow> (parse_error, unit) result" where
  "check_start_and_end_lines_strict first_line last_line =
     (let first_line = map_option trim first_line; last_line = map_option trim last_line in
      if first_line = Some BEGIN_PATCH_MARKER \<and> last_line = Some END_PATCH_MARKER then Ok ()
      else if first_line \<noteq> None \<and> first_line \<noteq> Some BEGIN_PATCH_MARKER
      then Err (InvalidPatchError (lit ''The first line of the patch must be ''
             @ quote_text BEGIN_PATCH_MARKER))
      else Err (InvalidPatchError (lit ''The last line of the patch must be ''
             @ quote_text END_PATCH_MARKER)))"

definition check_patch_boundaries_strict :: "rstr list \<Rightarrow> (parse_error, rstr list) result" where
  "check_patch_boundaries_strict ls =
     and_then (if ls = [] then check_start_and_end_lines_strict None None
               else check_start_and_end_lines_strict (Some (hd ls)) (Some (last ls)))
       (\<lambda>_. Ok ls)"

definition check_patch_boundaries_lenient :: "rstr list \<Rightarrow> (parse_error, rstr list) result" where
  "check_patch_boundaries_lenient ls =
     (case check_patch_boundaries_strict ls of
        Inr ls \<Rightarrow> Ok ls
      | Inl e \<Rightarrow>
          if 2 \<le> length ls
             \<and> hd ls \<in> {lit ''<<EOF'', lit ''<<'' @ quote_text (lit ''EOF''), lit ''<<'' @ [34] @ lit ''EOF'' @ [34]}
             \<and> ends_with (last ls) (lit ''EOF'') \<and> 4 \<le> length ls
          then check_patch_boundaries_strict (butlast (tl ls))
          else Err e)"

definition parse_patch_text :: "rstr \<Rightarrow> parse_mode \<Rightarrow> (parse_error, apply_patch_args) result" where
  "parse_patch_text patch m =
     and_then (case m of
                 Strict \<Rightarrow> check_patch_boundaries_strict (lines (trim patch))
               | Lenient \<Rightarrow> check_patch_boundaries_lenient (lines (trim patch))) (\<lambda>patch_lines.
       let patch = join [nl] patch_lines in
       and_then (push_delta patch parser_default) (\<lambda>p.
       and_then (finish p) (\<lambda>p.
         Ok \<lparr>patch_text = patch, args_hunks = p_hunks p, args_workdir = None,
             args_environment_id = p_environment_id p\<rparr>)))"

definition PARSE_IN_STRICT_MODE :: bool where "PARSE_IN_STRICT_MODE = False"

definition parse_patch :: "rstr \<Rightarrow> (parse_error, apply_patch_args) result" where
  "parse_patch patch = parse_patch_text patch (if PARSE_IN_STRICT_MODE then Strict else Lenient)"

section \<open>Parsed hunks are well formed\<close>

fun hunk_wf :: "hunk \<Rightarrow> bool" where
  "hunk_wf (AddFile path contents) \<longleftrightarrow> contents = [] \<or> last contents = nl"
| "hunk_wf (DeleteFile path) \<longleftrightarrow> True"
| "hunk_wf (UpdateFile path mv chunks) \<longleftrightarrow> chunks \<noteq> [] \<and> (\<forall>c \<in> set chunks. \<not> chunk_lineless c)"

text \<open>Only the last chunk of the update hunk being read may still lack lines.\<close>

definition parser_inv :: "patch_parser \<Rightarrow> bool" where
  "parser_inv p \<longleftrightarrow>
     (\<forall>h \<in> set (butlast (p_hunks p)). hunk_wf h)
     \<and> (case p_mode p of
          UpdateFileMode n \<Rightarrow> p_hunks p \<noteq> [] \<and> (\<exists>path mv cs. last (p_hunks p) = UpdateFile path mv cs
             \<and> (\<forall>c \<in> set (butlast cs). \<not> chunk_lineless c))
        | _ \<Rightarrow> p_hunks p = [] \<or> hunk_wf (last (p_hunks p)))"

lemma set_butlast_last: "xs \<noteq> [] \<Longrightarrow> set xs = insert (last xs) (set (butlast xs))"
  by (cases xs rule: rev_cases) auto

lemma inv_all_wf:
  assumes "parser_inv p" and "\<nexists>n. p_mode p = UpdateFileMode n"
  shows "\<forall>h \<in> set (p_hunks p). hunk_wf h"
  using assms set_butlast_last [of "p_hunks p"]
  by (cases "p_hunks p = []") (auto simp: parser_inv_def split: parser_mode.splits)

lemma ensure_all_wf:
  assumes "ensure_update_hunk_is_not_empty l p = Ok u" and inv: "parser_inv p"
  shows "\<forall>h \<in> set (p_hunks p). hunk_wf h"
proof (cases "\<exists>n. p_mode p = UpdateFileMode n")
  case False
  with inv inv_all_wf show ?thesis by blast
next
  case True
  then obtain n path mv cs where m: "p_mode p = UpdateFileMode n" and ne: "p_hunks p \<noteq> []"
    and l: "last (p_hunks p) = UpdateFile path mv cs"
    and b: "\<forall>c \<in> set (butlast cs). \<not> chunk_lineless c"
    and rest: "\<forall>h \<in> set (butlast (p_hunks p)). hunk_wf h"
    using inv by (auto simp: parser_inv_def)
  have "cs \<noteq> [] \<and> \<not> last_lineless cs"
    using assms(1) m ne l
    by (auto simp: ensure_update_hunk_is_not_empty_def split: list.splits if_splits)
  then have "hunk_wf (UpdateFile path mv cs)"
    using b set_butlast_last [of cs] by (auto simp: last_lineless_def)
  with rest l set_butlast_last [OF ne] show ?thesis by auto
qed

lemma open_hunk_inv:
  assumes "open_hunk h m l p = Ok (b, p')" and "parser_inv p"
    and "\<And>n. m = UpdateFileMode n \<Longrightarrow> \<exists>path mv. h = UpdateFile path mv []"
    and "(\<nexists>n. m = UpdateFileMode n) \<Longrightarrow> hunk_wf h"
  shows "b \<and> parser_inv p'"
proof -
  from assms(1) obtain u where "ensure_update_hunk_is_not_empty l p = Ok u"
    and p': "p' = p\<lparr>p_hunks := p_hunks p @ [h], p_mode := m\<rparr>" "b"
    by (auto simp: open_hunk_def and_then_Ok_iff)
  with ensure_all_wf assms(2) have "\<forall>h \<in> set (p_hunks p). hunk_wf h" by blast
  with p' assms(3,4) show ?thesis by (cases m) (auto simp: parser_inv_def)
qed

lemma hunk_header_inv:
  assumes "hunk_header t p = Ok (b, p')" and "parser_inv p"
  shows "parser_inv p' \<and> (\<not> b \<longrightarrow> p' = p)"
proof (cases "t = END_PATCH_MARKER")
  case True
  with assms obtain u where e: "ensure_update_hunk_is_not_empty t p = Ok u"
    and p': "p' = p\<lparr>p_mode := EndedPatch\<rparr>" "b"
    by (auto simp: hunk_header_def and_then_Ok_iff)
  have wf: "\<forall>h \<in> set (p_hunks p). hunk_wf h" by (rule ensure_all_wf [OF e assms(2)])
  have "set (butlast (p_hunks p)) \<subseteq> set (p_hunks p)" by (auto dest: in_set_butlastD)
  with wf p' show ?thesis by (cases "p_hunks p = []") (auto simp: parser_inv_def)
next
  case False
  with assms open_hunk_inv [OF _ assms(2)] show ?thesis
    by (fastforce simp: hunk_header_def split: option.splits)
qed

lemma handle_headers_inv:
  assumes "handle_hunk_headers_and_end_patch t p = Ok (b, p')" and "parser_inv p"
  shows "parser_inv p' \<and> (\<not> b \<longrightarrow> p' = p)"
proof (cases "if p_mode p = StartedPatch then strip_prefix t ENVIRONMENT_ID_MARKER else None")
  case None
  with assms hunk_header_inv show ?thesis by (simp add: handle_hunk_headers_and_end_patch_def)
next
  case (Some e)
  with assms show ?thesis
    by (auto simp: handle_hunk_headers_and_end_patch_def parser_inv_def split: if_splits)
qed

lemma set_last_hunk_inv:
  assumes "parser_inv p" and "p_mode p = UpdateFileMode n"
    and "\<forall>c \<in> set (butlast cs). \<not> chunk_lineless c"
  shows "parser_inv (set_last_hunk (UpdateFile path mv cs) p)"
  using assms by (auto simp: parser_inv_def set_last_hunk_def butlast_append)

lemma butlast_on_last_chunk: "butlast (on_last_chunk f cs) = butlast cs"
  by (simp add: on_last_chunk_def Let_def)

lemma process_update_line_inv:
  assumes "process_update_line l path mv cs p = Ok p'" and "parser_inv p"
    and m: "p_mode p = UpdateFileMode n"
    and b: "\<forall>c \<in> set (butlast cs). \<not> chunk_lineless c"
  shows "parser_inv p'"
proof -
  note put = set_last_hunk_inv [OF assms(2) m]
  have all: "\<forall>c \<in> set cs. \<not> chunk_lineless c" if "\<not> last_lineless cs"
    using that b set_butlast_last [of cs] by (cases "cs = []") (auto simp: last_lineless_def)
  have pushed: "parser_inv (set_last_hunk (UpdateFile path mv (cs @ [new_chunk c])) p)"
    if "\<not> last_lineless cs" for c
    using put [of "cs @ [new_chunk c]"] all [OF that] by simp
  have marked: "is_context_marker k" if "strip_prefix k CHANGE_CONTEXT_MARKER = Some c" for k c
    using that by (auto simp: is_context_marker_def strip_prefix_Some_iff)
  have "is_context_marker EMPTY_CHANGE_CONTEXT_MARKER" by (simp add: is_context_marker_def)
  with assms(1,2) b put pushed marked show ?thesis
    unfolding process_update_line_def Let_def
    by (auto simp: butlast_on_last_chunk split: if_splits option.splits)
qed

lemma process_line_inv:
  assumes ok: "process_line l p = Ok p'" and inv: "parser_inv p"
  shows "parser_inv p'"
proof (cases "p_mode p")
  case NotStarted
  with assms show ?thesis by (auto simp: process_line_def Let_def parser_inv_def split: if_splits)
next
  case StartedPatch
  with assms obtain b q where "handle_hunk_headers_and_end_patch (trim l) p = Ok (b, q)" "b" "p' = q"
    by (auto simp: process_line_def Let_def and_then_Ok_iff split: if_splits)
  with handle_headers_inv inv show ?thesis by blast
next
  case DeleteFileMode
  with assms obtain b q where "handle_hunk_headers_and_end_patch (trim l) p = Ok (b, q)" "b" "p' = q"
    by (auto simp: process_line_def Let_def and_then_Ok_iff split: if_splits)
  with handle_headers_inv inv show ?thesis by blast
next
  case EndedPatch
  with assms show ?thesis by (auto simp: process_line_def Let_def split: if_splits)
next
  case AddFileMode
  with ok obtain b q where h: "handle_hunk_headers_and_end_patch (trim l) p = Ok (b, q)"
    by (auto simp: process_line_def Let_def and_then_Ok_iff)
  note hq = handle_headers_inv [OF h inv]
  show ?thesis
  proof (cases b)
    case True
    with ok AddFileMode h hq show ?thesis by (simp add: process_line_def Let_def)
  next
    case False
    with ok AddFileMode h hq obtain k path contents where
      "p' = set_last_hunk (AddFile path (contents @ k @ [nl])) p"
      by (auto simp: process_line_def Let_def split: option.splits hunk.splits bool.splits)
    with inv AddFileMode show ?thesis
      by (auto simp: parser_inv_def set_last_hunk_def butlast_append)
  qed
next
  case (UpdateFileMode n)
  with ok obtain b q where h: "handle_hunk_headers_and_end_patch (trim_end l) p = Ok (b, q)"
    by (auto simp: process_line_def Let_def and_then_Ok_iff)
  note hq = handle_headers_inv [OF h inv]
  show ?thesis
  proof (cases b)
    case True
    with ok UpdateFileMode h hq show ?thesis by (simp add: process_line_def Let_def)
  next
    case False
    from inv UpdateFileMode obtain path mv cs where ne: "p_hunks p \<noteq> []"
      and l: "last (p_hunks p) = UpdateFile path mv cs"
      and b: "\<forall>c \<in> set (butlast cs). \<not> chunk_lineless c"
      by (auto simp: parser_inv_def)
    from False ok UpdateFileMode h hq ne l have "process_update_line l path mv cs p = Ok p'"
      by (simp add: process_line_def Let_def)
    from process_update_line_inv [OF this inv UpdateFileMode b] show ?thesis .
  qed
qed

lemma inv_bookkeeping [simp]:
  "parser_inv (p\<lparr>p_line_buffer := b\<rparr>) = parser_inv p"
  "parser_inv (p\<lparr>p_line_buffer := b, p_line_number := n\<rparr>) = parser_inv p"
  by (cases "p_mode p"; simp add: parser_inv_def)+

lemma push_delta_inv: "push_delta s p = Ok p' \<Longrightarrow> parser_inv p \<Longrightarrow> parser_inv p'"
proof (induction s arbitrary: p)
  case (Cons ch s)
  show ?case
  proof (cases "ch = nl")
    case True
    with Cons.prems obtain q where "process_line (strip_cr (p_line_buffer p))
        (p\<lparr>p_line_buffer := [], p_line_number := Suc (p_line_number p)\<rparr>) = Ok q" "push_delta s q = Ok p'"
      by (auto simp: and_then_Ok_iff)
    with process_line_inv Cons show ?thesis by (metis inv_bookkeeping(2))
  next
    case False
    with Cons show ?thesis by simp
  qed
qed simp

lemma finish_wf:
  assumes "finish p = Ok p'" and "parser_inv p"
  shows "\<forall>h \<in> set (p_hunks p'). hunk_wf h"
proof -
  let ?q = "p\<lparr>p_line_buffer := [], p_line_number := Suc (p_line_number p)\<rparr>"
  from assms(1) have m: "p_mode p' = EndedPatch"
    by (auto simp: finish_def and_then_Ok_iff split: if_splits)
  consider "p_line_buffer p = []" | "p_line_buffer p \<noteq> []" "trim (p_line_buffer p) = END_PATCH_MARKER"
    | "p_line_buffer p \<noteq> []" "trim (p_line_buffer p) \<noteq> END_PATCH_MARKER" by blast
  then show ?thesis
  proof cases
    case 1
    with assms m inv_all_wf [of p] show ?thesis by (auto simp: finish_def split: if_splits)
  next
    case 2
    with assms(1) obtain u where "ensure_update_hunk_is_not_empty END_PATCH_MARKER ?q = Ok u"
      and "p_hunks p' = p_hunks p"
      by (auto simp: finish_def Let_def and_then_Ok_iff)
    with ensure_all_wf [of END_PATCH_MARKER ?q u] assms(2) show ?thesis by simp
  next
    case 3
    with assms(1) have "process_line (p_line_buffer p) ?q = Ok p'"
      by (auto simp: finish_def Let_def and_then_Ok_iff split: if_splits)
    from process_line_inv [OF this] assms(2) m inv_all_wf [of p'] show ?thesis by simp
  qed
qed

lemma parse_patch_wf:
  assumes "parse_patch s = Ok args"
  shows "\<forall>h \<in> set (args_hunks args). hunk_wf h"
proof -
  from assms obtain t p p' where "push_delta t parser_default = Ok p" "finish p = Ok p'"
    and a: "args_hunks args = p_hunks p'"
    by (auto simp: parse_patch_def parse_patch_text_def and_then_Ok_iff Let_def)
  moreover have "parser_inv parser_default" by (simp add: parser_inv_def parser_default_def)
  ultimately show ?thesis using push_delta_inv finish_wf by metis
qed

end
