(* ===== verification/Patch_Replace.thy ===== *)
theory Patch_Replace
  imports Patch_Seek Patch_Parse "HOL-Library.Multiset"
begin

text \<open>
  From chunks to new file contents (codex-rs/apply-patch/src/lib.rs): locating every chunk,
  sorting the replacements and applying them from the end of the file backwards. The reference
  is a forward splice of non-overlapping replacements.
\<close>

datatype apply_patch_error =
    ParseFailure parse_error
  | IoFailure rstr rstr
  | ComputeReplacements rstr
  | PathUriFailure rstr
  | ImplicitInvocation

type_synonym replacement = "nat \<times> nat \<times> rstr list"

definition last_is_empty :: "rstr list \<Rightarrow> bool" where
  "last_is_empty ls \<longleftrightarrow> ls \<noteq> [] \<and> last ls = []"

definition seek_context ::
  "rstr list \<Rightarrow> rstr \<Rightarrow> update_file_chunk \<Rightarrow> nat \<Rightarrow> (apply_patch_error, nat) result" where
  "seek_context original path chunk line_index =
     (case change_context chunk of
        None \<Rightarrow> Ok line_index
      | Some ctx_line \<Rightarrow>
          (case seek_sequence original [ctx_line] line_index False of
             Some idx \<Rightarrow> Ok (idx + 1)
           | None \<Rightarrow> Err (ComputeReplacements (lit ''Failed to find context '' @ quote_text ctx_line
               @ lit '' in '' @ path))))"

text \<open>The search for the old lines, repeated without a final empty line when it fails.\<close>

definition seek_old_lines ::
  "rstr list \<Rightarrow> update_file_chunk \<Rightarrow> nat \<Rightarrow> rstr list \<times> rstr list \<times> nat option" where
  "seek_old_lines original chunk line_index =
     (let pat = old_lines chunk; new_slice = new_lines chunk;
          found = seek_sequence original pat line_index (is_end_of_file chunk)
      in if found = None \<and> last_is_empty pat
         then let pat = butlast pat;
                  new_slice = (if last_is_empty new_slice then butlast new_slice else new_slice)
              in (pat, new_slice, seek_sequence original pat line_index (is_end_of_file chunk))
         else (pat, new_slice, found))"

definition compute_chunk ::
  "rstr list \<Rightarrow> rstr \<Rightarrow> update_file_chunk \<Rightarrow> nat \<Rightarrow> (apply_patch_error, replacement \<times> nat) result" where
  "compute_chunk original path chunk line_index =
     and_then (seek_context original path chunk line_index) (\<lambda>line_index.
       if old_lines chunk = [] then
         let insertion_idx = (if last_is_empty original then length original - 1 else length original)
         in Ok ((insertion_idx, 0, new_lines chunk), line_index)
       else
         let (pat, new_slice, found) = seek_old_lines original chunk line_index in
         case found of
           Some start_idx \<Rightarrow> Ok ((start_idx, length pat, new_slice), start_idx + length pat)
         | None \<Rightarrow> Err (ComputeReplacements (lit ''Failed to find expected lines in '' @ path
             @ lit '':'' @ [nl] @ join [nl] (old_lines chunk))))"

fun compute_chunks ::
  "rstr list \<Rightarrow> rstr \<Rightarrow> update_file_chunk list \<Rightarrow> nat \<Rightarrow> (apply_patch_error, replacement list) result" where
  "compute_chunks original path [] line_index = Ok []"
| "compute_chunks original path (chunk # chunks) line_index =
     and_then (compute_chunk original path chunk line_index) (\<lambda>(r, line_index).
       and_then (compute_chunks original path chunks line_index) (\<lambda>rs. Ok (r # rs)))"

definition compute_replacements ::
  "rstr list \<Rightarrow> rstr \<Rightarrow> update_file_chunk list \<Rightarrow> (apply_patch_error, replacement list) result" where
  "compute_replacements original path chunks =
     and_then (compute_chunks original path chunks 0) (\<lambda>rs. Ok (sort_key fst rs))"

primrec remove_lines :: "nat \<Rightarrow> nat \<Rightarrow> rstr list \<Rightarrow> rstr list" where
  "remove_lines 0 start_idx ls = ls"
| "remove_lines (Suc n) start_idx ls =
     remove_lines n start_idx
       (if start_idx < length ls then take start_idx ls @ drop (Suc start_idx) ls else ls)"

fun insert_lines :: "nat \<Rightarrow> rstr list \<Rightarrow> rstr list \<Rightarrow> rstr list" where
  "insert_lines i [] ls = ls"
| "insert_lines i (new_line # rest) ls = insert_lines (Suc i) rest (take i ls @ new_line # drop i ls)"

definition apply_replacements :: "rstr list \<Rightarrow> replacement list \<Rightarrow> rstr list" where
  "apply_replacements ls replacements =
     foldl (\<lambda>ls (start_idx, old_len, new_segment).
         insert_lines start_idx new_segment (remove_lines old_len start_idx ls))
       ls (rev replacements)"

definition derive_new_contents :: "rstr \<Rightarrow> rstr \<Rightarrow> update_file_chunk list \<Rightarrow> (apply_patch_error, rstr) result" where
  "derive_new_contents original_contents path chunks =
     (let ls = split_on nl original_contents;
          original = (if last_is_empty ls then butlast ls else ls)
      in and_then (compute_replacements original path chunks) (\<lambda>replacements.
           let new = apply_replacements original replacements;
               new = (if last_is_empty new then new else new @ [[]])
           in Ok (join [nl] new)))"

section \<open>One replacement\<close>

lemma remove_lines_eq: "remove_lines n i ls = take i ls @ drop (i + n) ls"
proof (induction n arbitrary: ls)
  case (Suc n)
  show ?case
  proof (cases "i < length ls")
    case True
    then have "drop (i + n) (take i ls @ drop (Suc i) ls) = drop (i + Suc n) ls"
      by (simp add: min_absorb2 add.commute)
    with True Suc.IH [of "take i ls @ drop (Suc i) ls"] show ?thesis by (simp add: min_absorb2)
  next
    case False
    with Suc.IH [of ls] show ?thesis by simp
  qed
qed simp

lemma insert_lines_eq: "i \<le> length ls \<Longrightarrow> insert_lines i xs ls = take i ls @ xs @ drop i ls"
proof (induction xs arbitrary: i ls)
  case (Cons x xs)
  from Cons.IH [of "Suc i" "take i ls @ x # drop i ls"] Cons.prems show ?case
    by (simp add: min_absorb2 Suc_diff_le)
qed simp

definition splice_one :: "replacement \<Rightarrow> rstr list \<Rightarrow> rstr list" where
  "splice_one r ls = (case r of (i, n, seg) \<Rightarrow> take i ls @ seg @ drop (i + n) ls)"

lemma replace_one:
  "i \<le> length ls \<Longrightarrow> insert_lines i seg (remove_lines n i ls) = splice_one (i, n, seg) ls"
  by (simp add: remove_lines_eq insert_lines_eq splice_one_def min_absorb2)

section \<open>The forward splice\<close>

fun splice :: "nat \<Rightarrow> rstr list \<Rightarrow> replacement list \<Rightarrow> rstr list" where
  "splice pos ls [] = drop pos ls"
| "splice pos ls ((i, n, seg) # rs) = take (i - pos) (drop pos ls) @ seg @ splice (i + n) ls rs"

definition before :: "replacement \<Rightarrow> replacement \<Rightarrow> bool" where
  "before r s \<longleftrightarrow> fst r + fst (snd r) \<le> fst s"

definition in_file :: "rstr list \<Rightarrow> replacement \<Rightarrow> bool" where
  "in_file ls r \<longleftrightarrow> fst r + fst (snd r) \<le> length ls"

lemma foldr_splice:
  "sorted_wrt before rs \<Longrightarrow> list_all (in_file ls) rs \<Longrightarrow> pos \<le> length ls \<Longrightarrow> \<forall>r \<in> set rs. pos \<le> fst r \<Longrightarrow>
     foldr splice_one rs ls = take pos ls @ splice pos ls rs"
proof (induction rs arbitrary: pos)
  case (Cons r rs)
  obtain i n seg where r: "r = (i, n, seg)" by (cases r) auto
  have len: "i + n \<le> length ls" and pos: "pos \<le> i" using Cons.prems by (simp_all add: r in_file_def)
  have nxt: "\<forall>s \<in> set rs. i + n \<le> fst s" using Cons.prems(1) by (simp add: r before_def)
  have "foldr splice_one rs ls = take (i + n) ls @ splice (i + n) ls rs"
    using Cons.prems len nxt by (intro Cons.IH) simp_all
  then have "foldr splice_one (r # rs) ls = take i ls @ seg @ splice (i + n) ls rs"
    using len by (simp add: r splice_one_def min_absorb2)
  moreover have "take i ls = take pos ls @ take (i - pos) (drop pos ls)"
    using take_add [of pos "i - pos" ls] pos by simp
  ultimately show ?case by (simp add: r)
qed simp

lemma apply_replacements_foldr:
  "sorted_wrt before rs \<Longrightarrow> list_all (in_file ls) rs \<Longrightarrow> apply_replacements ls rs = foldr splice_one rs ls"
proof (induction rs)
  case (Cons r rs)
  obtain i n seg where r: "r = (i, n, seg)" by (cases r) auto
  have len: "i + n \<le> length ls" using Cons.prems by (simp add: r in_file_def)
  have nxt: "\<forall>s \<in> set rs. i + n \<le> fst s" using Cons.prems(1) by (simp add: r before_def)
  have "apply_replacements ls rs = foldr splice_one rs ls" using Cons by simp
  moreover have "foldr splice_one rs ls = take (i + n) ls @ splice (i + n) ls rs"
    using Cons.prems len nxt by (intro foldr_splice) simp_all
  then have "i \<le> length (foldr splice_one rs ls)" using len by simp
  ultimately show ?case by (simp add: apply_replacements_def r replace_one)
qed (simp add: apply_replacements_def)

lemma apply_replacements_splice:
  "sorted_wrt before rs \<Longrightarrow> list_all (in_file ls) rs \<Longrightarrow> apply_replacements ls rs = splice 0 ls rs"
  using apply_replacements_foldr [of rs ls] foldr_splice [of rs ls 0] by simp

section \<open>Stable sorting\<close>

lemma sorted_wrt_insort:
  assumes "sorted_wrt R ys" and "sorted (map f ys)"
    and "\<And>y. y \<in> set ys \<Longrightarrow> f y < f x \<Longrightarrow> R y x" and "\<And>y. y \<in> set ys \<Longrightarrow> f x \<le> f y \<Longrightarrow> R x y"
  shows "sorted_wrt R (insort_key f x ys)"
  using assms
proof (induction ys)
  case (Cons y ys)
  show ?case
  proof (cases "f x \<le> f y")
    case True
    with Cons.prems show ?thesis by fastforce
  next
    case False
    with Cons show ?thesis by (auto simp: set_insort_key)
  qed
qed simp

lemma sort_key_wrt:
  assumes "sorted_wrt (\<lambda>x y. R x y \<or> (f y < f x \<and> R y x)) xs"
    and le: "\<And>x y. R x y \<Longrightarrow> f x \<le> f y"
  shows "sorted_wrt R (sort_key f xs)"
  using assms(1)
proof (induction xs)
  case (Cons x xs)
  have "sorted_wrt R (insort_key f x (sort_key f xs))"
  proof (rule sorted_wrt_insort)
    show "sorted_wrt R (sort_key f xs)" using Cons by simp
    fix y assume y: "y \<in> set (sort_key f xs)"
    with Cons.prems have xy: "R x y \<or> (f y < f x \<and> R y x)" by simp
    show "R y x" if "f y < f x" using xy le [of x y] that by auto
    show "R x y" if "f x \<le> f y" using xy that by auto
  qed simp
  then show ?case by simp
qed simp

section \<open>Where chunks go\<close>

text \<open>
  Chunks without the end-of-file marker; pure additions only into files that do not end with an
  empty line. For other chunks replacements may overlap.
\<close>

definition orderly :: "rstr list \<Rightarrow> update_file_chunk \<Rightarrow> bool" where
  "orderly ls c \<longleftrightarrow> \<not> is_end_of_file c \<and> (old_lines c = [] \<longrightarrow> \<not> last_is_empty ls)"

text \<open>A replacement carries out a chunk: the lines it replaces match the chunk's old lines.\<close>

definition carries_out :: "rstr list \<Rightarrow> update_file_chunk \<Rightarrow> replacement \<Rightarrow> bool" where
  "carries_out ls c r \<longleftrightarrow>
     (\<exists>pat. fst (snd r) = length pat \<and> matches_at normalise ls pat (fst r)
        \<and> ((pat = old_lines c \<and> snd (snd r) = new_lines c)
           \<or> (last_is_empty (old_lines c) \<and> pat = butlast (old_lines c)
              \<and> snd (snd r) \<in> {new_lines c, butlast (new_lines c)})))"

lemma seek_any:
  assumes "seek_sequence ls pat li False = Some i" and "li \<le> length ls"
  shows "li \<le> i \<and> i + length pat \<le> length ls \<and> matches_at normalise ls pat i"
proof (cases "pat = []")
  case True
  with assms show ?thesis by (simp add: seek_sequence_def matches_at_def)
next
  case False
  from seek_sequence_range [OF assms(1) False] show ?thesis by (simp add: candidate_line_def)
qed

lemma seek_context_range:
  assumes "seek_context ls path c li = Ok li'" and "li \<le> length ls"
  shows "li \<le> li' \<and> li' \<le> length ls"
  using assms seek_any [of ls _ li]
  by (fastforce simp: seek_context_def split: option.splits)

lemma seek_old_lines_found:
  assumes "seek_old_lines ls c li = (pat, seg, Some i)" and "li \<le> length ls" and "\<not> is_end_of_file c"
  shows "li \<le> i \<and> i + length pat \<le> length ls \<and> carries_out ls c (i, length pat, seg)"
proof (cases "seek_sequence ls (old_lines c) li False = None \<and> last_is_empty (old_lines c)")
  case True
  with assms(1,3) have *: "pat = butlast (old_lines c)" "seek_sequence ls pat li False = Some i"
    "seg \<in> {new_lines c, butlast (new_lines c)}"
    by (auto simp: seek_old_lines_def Let_def split: if_splits)
  from seek_any [OF *(2) assms(2)] * True show ?thesis
    unfolding carries_out_def by (intro conjI exI [of _ pat]) auto
next
  case False
  with assms(1,3) have *: "pat = old_lines c" "seek_sequence ls pat li False = Some i" "seg = new_lines c"
    by (auto simp: seek_old_lines_def Let_def)
  from seek_any [OF *(2) assms(2)] * show ?thesis by (auto simp: carries_out_def)
qed

lemma compute_chunk_range:
  assumes "compute_chunk ls path c li = Ok (r, li')" and "li \<le> length ls" and "orderly ls c"
  shows "li \<le> fst r \<and> in_file ls r \<and> li \<le> li' \<and> li' \<le> length ls \<and> carries_out ls c r
     \<and> (r = (length ls, 0, new_lines c) \<or> fst r + fst (snd r) = li')"
proof -
  from assms(1) obtain l1 where l1: "seek_context ls path c li = Ok l1"
    by (auto simp: compute_chunk_def and_then_Ok_iff)
  note range = seek_context_range [OF l1 assms(2)]
  show ?thesis
  proof (cases "old_lines c = []")
    case True
    with assms l1 have "r = (length ls, 0, new_lines c)" "li' = l1"
      by (auto simp: compute_chunk_def orderly_def)
    with range True show ?thesis by (simp add: in_file_def carries_out_def matches_at_def)
  next
    case False
    obtain pat seg found where s: "seek_old_lines ls c l1 = (pat, seg, found)" by (metis surj_pair)
    with False assms(1) l1 obtain i where f: "found = Some i" and r: "r = (i, length pat, seg)" "li' = i + length pat"
      by (auto simp: compute_chunk_def split: option.splits)
    from seek_old_lines_found [of ls c l1 pat seg i] s f range assms(3) r show ?thesis
      by (simp add: orderly_def in_file_def)
  qed
qed

lemma compute_chunks_range:
  "compute_chunks ls path cs li = Ok rs \<Longrightarrow> li \<le> length ls \<Longrightarrow> list_all (orderly ls) cs \<Longrightarrow>
     (\<forall>r \<in> set rs. li \<le> fst r) \<and> list_all (in_file ls) rs \<and> list_all2 (carries_out ls) cs rs
     \<and> sorted_wrt (\<lambda>x y. before x y \<or> (fst y < fst x \<and> before y x)) rs"
proof (induction cs arbitrary: li rs)
  case (Cons c cs)
  then obtain r li' rs' where c: "compute_chunk ls path c li = Ok (r, li')"
    and cs: "compute_chunks ls path cs li' = Ok rs'" and rs: "rs = r # rs'"
    by (auto simp: and_then_Ok_iff)
  have r: "li \<le> fst r" "in_file ls r" "li \<le> li'" "li' \<le> length ls" "carries_out ls c r"
    "r = (length ls, 0, new_lines c) \<or> fst r + fst (snd r) = li'"
    using compute_chunk_range [OF c] Cons.prems by auto
  have ih: "\<forall>r \<in> set rs'. li' \<le> fst r" "list_all (in_file ls) rs'" "list_all2 (carries_out ls) cs rs'"
    "sorted_wrt (\<lambda>x y. before x y \<or> (fst y < fst x \<and> before y x)) rs'"
    using Cons.IH [OF cs r(4)] Cons.prems by auto
  have "before r y \<or> (fst y < fst r \<and> before y r)" if "y \<in> set rs'" for y
    using r(6) ih(1,2) that by (auto simp: before_def in_file_def list_all_iff)
  with r ih rs show ?case by fastforce
qed simp

section \<open>Overlapping replacements\<close>

text \<open>
  Outside the condition of the property replacements can overlap, and the later change is lost
  without an error: a pure addition to a file whose final empty line an earlier chunk replaces,
  and an end-of-file chunk that matches lines an earlier chunk has already replaced.
\<close>

lemma addition_lost:
  "derive_new_contents (lit ''a'' @ [nl, nl]) (lit ''f'')
     [\<lparr>change_context = None, old_lines = [lit ''a'', []], new_lines = [lit ''b''], is_end_of_file = False\<rparr>,
      \<lparr>change_context = None, old_lines = [], new_lines = [lit ''c''], is_end_of_file = False\<rparr>]
   = Ok (lit ''b'' @ [nl])"
  by (simp add: derive_new_contents_def compute_replacements_def compute_chunk_def seek_context_def
      seek_old_lines_def seek_sequence_def seek_pass_def matches_at_def lit_def
      last_is_empty_def apply_replacements_def Let_def upt_rec enumerate_eq_zip)

lemma end_of_file_change_lost:
  "derive_new_contents (lit ''a'' @ [nl] @ lit ''b'' @ [nl]) (lit ''f'')
     [\<lparr>change_context = None, old_lines = [lit ''a'', lit ''b''], new_lines = [lit ''x''], is_end_of_file = False\<rparr>,
      \<lparr>change_context = None, old_lines = [lit ''b''], new_lines = [lit ''y''], is_end_of_file = True\<rparr>]
   = Ok (lit ''x'' @ [nl])"
  by (simp add: derive_new_contents_def compute_replacements_def compute_chunk_def seek_context_def
      seek_old_lines_def seek_sequence_def seek_pass_def matches_at_def lit_def
      last_is_empty_def apply_replacements_def Let_def upt_rec enumerate_eq_zip)

section \<open>Property\<close>

definition file_lines :: "rstr \<Rightarrow> rstr list" where
  "file_lines s = (let ls = split_on nl s in if last_is_empty ls then butlast ls else ls)"

definition final_newline :: "rstr list \<Rightarrow> rstr list" where
  "final_newline ls = (if last_is_empty ls then ls else ls @ [[]])"

text \<open>
  C16. Updating a file replaces exactly the matched regions: for chunks without the end-of-file
  marker there is one replacement per chunk, whose region matches the chunk's old lines and lies
  inside the file; the regions do not overlap, and the new contents are the original lines with
  these regions exchanged for the new lines, every other line kept in place.
\<close>

theorem update_splices_chunks:
  assumes "derive_new_contents s path chunks = Ok new" and "list_all (orderly (file_lines s)) chunks"
  shows "\<exists>rs rs'. list_all2 (carries_out (file_lines s)) chunks rs' \<and> mset rs' = mset rs
     \<and> sorted_wrt before rs \<and> list_all (in_file (file_lines s)) rs
     \<and> new = join [nl] (final_newline (splice 0 (file_lines s) rs))"
proof -
  let ?ls = "file_lines s"
  from assms(1) obtain rs' where c: "compute_chunks ?ls path chunks 0 = Ok rs'"
    and new: "new = join [nl] (final_newline (apply_replacements ?ls (sort_key fst rs')))"
    by (auto simp: derive_new_contents_def compute_replacements_def file_lines_def final_newline_def
        and_then_Ok_iff Let_def)
  have r: "list_all (in_file ?ls) rs'" "list_all2 (carries_out ?ls) chunks rs'"
    "sorted_wrt (\<lambda>x y. before x y \<or> (fst y < fst x \<and> before y x)) rs'"
    using compute_chunks_range [OF c _ assms(2)] by auto
  have "sorted_wrt before (sort_key fst rs')"
    by (rule sort_key_wrt [OF r(3)]) (simp add: before_def)
  moreover have "list_all (in_file ?ls) (sort_key fst rs')" using r(1) by (simp add: list_all_iff)
  ultimately show ?thesis
    using apply_replacements_splice new r(2) by (intro exI [of _ "sort_key fst rs'"] exI [of _ rs']) simp
qed

definition chunk_sample :: update_file_chunk where
  "chunk_sample = \<lparr>change_context = None, old_lines = [lit ''b''], new_lines = [lit ''x'', lit ''y''],
     is_end_of_file = False\<rparr>"

lemma update_sample:
  "derive_new_contents (lit ''a'' @ [nl] @ lit ''b'' @ [nl]) (lit ''f'') [chunk_sample]
     = Ok (lit ''a'' @ [nl] @ lit ''x'' @ [nl] @ lit ''y'' @ [nl])"
  by (simp add: derive_new_contents_def compute_replacements_def compute_chunk_def seek_context_def
      seek_old_lines_def seek_sequence_def seek_pass_def matches_at_def chunk_sample_def lit_def
      last_is_empty_def apply_replacements_def Let_def upt_rec enumerate_eq_zip)

theorem update_splices_chunks_witness:
  "\<exists>rs. sorted_wrt before rs \<and> lit ''a'' @ [nl] @ lit ''x'' @ [nl] @ lit ''y'' @ [nl]
     = join [nl] (final_newline (splice 0 [lit ''a'', lit ''b''] rs))"
proof -
  have ls: "file_lines (lit ''a'' @ [nl] @ lit ''b'' @ [nl]) = [lit ''a'', lit ''b'']"
    by (simp add: file_lines_def last_is_empty_def lit_def)
  have "list_all (orderly (file_lines (lit ''a'' @ [nl] @ lit ''b'' @ [nl]))) [chunk_sample]"
    by (simp add: orderly_def chunk_sample_def)
  from update_splices_chunks [OF update_sample this] show ?thesis unfolding ls by blast
qed

end
