(* ===== verification/Patch_Print.thy ===== *)
theory Patch_Print
  imports Patch_Parse
begin

text \<open>
  A printer of hunks in the apply_patch language, and the proof that the parser of
  codex-rs/apply-patch/src/streaming_parser.rs reads back what it prints. The printer is a
  specification: the crate has none.
\<close>

section \<open>Reading back a printed patch\<close>

definition line_ok :: "rstr \<Rightarrow> bool" where
  "line_ok l \<longleftrightarrow> nl \<notin> set l \<and> (l = [] \<or> last l \<noteq> cr)"

definition path_ok :: "rstr \<Rightarrow> bool" where
  "path_ok q \<longleftrightarrow> q \<noteq> [] \<and> nl \<notin> set q \<and> \<not> is_whitespace (last q)"

definition unlines :: "rstr list \<Rightarrow> rstr" where
  "unlines ls = concat (map (\<lambda>l. l @ [nl]) ls)"

definition chunk_ok :: "update_file_chunk \<Rightarrow> bool" where
  "chunk_ok c \<longleftrightarrow> \<not> chunk_lineless c \<and> list_all line_ok (old_lines c) \<and> list_all line_ok (new_lines c)
     \<and> (case change_context c of None \<Rightarrow> True | Some s \<Rightarrow> path_ok s)"

text \<open>Hunks that can be written in the patch language.\<close>

fun hunk_ok :: "hunk \<Rightarrow> bool" where
  "hunk_ok (AddFile path contents) \<longleftrightarrow> path_ok path \<and>
     (let ls = butlast (split_on nl contents) in contents = unlines ls \<and> list_all line_ok ls)"
| "hunk_ok (DeleteFile path) \<longleftrightarrow> path_ok path"
| "hunk_ok (UpdateFile path mv chunks) \<longleftrightarrow> path_ok path \<and> (case mv of None \<Rightarrow> True | Some m \<Rightarrow> path_ok m)
     \<and> chunks \<noteq> [] \<and> list_all chunk_ok chunks"

definition render_chunk :: "update_file_chunk \<Rightarrow> rstr list" where
  "render_chunk c =
     (case change_context c of None \<Rightarrow> EMPTY_CHANGE_CONTEXT_MARKER | Some s \<Rightarrow> CHANGE_CONTEXT_MARKER @ s)
     # map ((#) 45) (old_lines c) @ map ((#) 43) (new_lines c)
     @ (if is_end_of_file c then [EOF_MARKER] else [])"

fun render_hunk :: "hunk \<Rightarrow> rstr list" where
  "render_hunk (AddFile path contents) =
     (ADD_FILE_MARKER @ path) # map ((#) 43) (butlast (split_on nl contents))"
| "render_hunk (DeleteFile path) = [DELETE_FILE_MARKER @ path]"
| "render_hunk (UpdateFile path mv chunks) =
     (UPDATE_FILE_MARKER @ path) # (case mv of None \<Rightarrow> [] | Some m \<Rightarrow> [MOVE_TO_MARKER @ m])
     @ concat (map render_chunk chunks)"

definition render_patch :: "hunk list \<Rightarrow> rstr" where
  "render_patch hs =
     unlines (BEGIN_PATCH_MARKER # concat (map render_hunk hs)) @ END_PATCH_MARKER"

fun process_lines :: "rstr list \<Rightarrow> patch_parser \<Rightarrow> (parse_error, patch_parser) result" where
  "process_lines [] p = Ok p"
| "process_lines (l # ls) p =
     and_then (process_line l (p\<lparr>p_line_number := Suc (p_line_number p)\<rparr>)) (process_lines ls)"

lemma process_lines_append:
  "process_lines (ls @ ks) p = and_then (process_lines ls p) (process_lines ks)"
  by (induction ls arbitrary: p) (auto simp: and_then_def split: sum.splits)

lemma handle_headers_buffer:
  "handle_hunk_headers_and_end_patch t p = Ok (b, p') \<Longrightarrow> p_line_buffer p' = p_line_buffer p"
  by (auto simp: handle_hunk_headers_and_end_patch_def hunk_header_def open_hunk_def and_then_Ok_iff
      split: option.splits if_splits)

lemma process_update_line_buffer:
  "process_update_line l path mv cs p = Ok p' \<Longrightarrow> p_line_buffer p' = p_line_buffer p"
  by (auto simp: process_update_line_def Let_def set_last_hunk_def split: option.splits if_splits)

lemma process_line_buffer:
  "process_line l p = Ok p' \<Longrightarrow> p_line_buffer p' = p_line_buffer p"
  by (auto simp: process_line_def Let_def and_then_Ok_iff set_last_hunk_def
      dest!: handle_headers_buffer process_update_line_buffer
      split: parser_mode.splits if_splits option.splits bool.splits hunk.splits)

lemma push_delta_no_nl:
  "nl \<notin> set s \<Longrightarrow> push_delta s p = Ok (p\<lparr>p_line_buffer := p_line_buffer p @ s\<rparr>)"
  by (induction s arbitrary: p) auto

lemma push_delta_line:
  "nl \<notin> set l \<Longrightarrow> push_delta (l @ nl # s) p =
     and_then (process_line (strip_cr (p_line_buffer p @ l))
       (p\<lparr>p_line_buffer := [], p_line_number := Suc (p_line_number p)\<rparr>)) (push_delta s)"
  by (induction l arbitrary: p) auto

lemma strip_cr_line_ok: "line_ok l \<Longrightarrow> strip_cr l = l"
  by (auto simp: line_ok_def strip_cr_def strip_suffix_Some_iff split: option.splits)

lemma push_delta_lines:
  "list_all line_ok ls \<Longrightarrow> p_line_buffer p = [] \<Longrightarrow>
     push_delta (unlines ls @ s) p = and_then (process_lines ls p) (push_delta s)"
proof (induction ls arbitrary: p)
  case (Cons l ls)
  let ?p = "p\<lparr>p_line_number := Suc (p_line_number p)\<rparr>"
  have eq: "p\<lparr>p_line_buffer := [], p_line_number := Suc (p_line_number p)\<rparr> = ?p"
    using Cons.prems(2) by (cases p) simp
  have step: "push_delta (unlines (l # ls) @ s) p =
      and_then (process_line l ?p) (push_delta (unlines ls @ s))"
    using Cons.prems push_delta_line [of l "unlines ls @ s" p]
    by (simp add: unlines_def strip_cr_line_ok line_ok_def eq)
  show ?case
  proof (cases "process_line l ?p")
    case (Inr q)
    from process_line_buffer [OF Inr] Cons.prems(2) have "p_line_buffer q = []" by simp
    with Cons.IH [of q] Cons.prems(1) step Inr show ?thesis by simp
  qed (simp add: step)
qed (simp add: unlines_def)

section \<open>One line at a time\<close>

text \<open>The state between two lines of a printed patch; the line number does not matter.\<close>

definition st :: "patch_parser \<Rightarrow> hunk list \<Rightarrow> parser_mode \<Rightarrow> bool" where
  "st p hs m \<longleftrightarrow> p_hunks p = hs \<and> p_mode p = m \<and> p_line_buffer p = [] \<and> p_environment_id p = None"

lemma st_line_number [simp]: "st (p\<lparr>p_line_number := n\<rparr>) hs m = st p hs m"
  by (simp add: st_def)

lemma last_lineless_Nil [simp]: "\<not> last_lineless []"
  by (simp add: last_lineless_def)

text \<open>The last hunk is complete, so that a header may follow.\<close>

definition settled :: "hunk list \<Rightarrow> bool" where
  "settled hs \<longleftrightarrow> hs = [] \<or> (case last hs of UpdateFile q mv cs \<Rightarrow> cs \<noteq> [] \<and> \<not> last_lineless cs | _ \<Rightarrow> True)"

lemma settled_ensure: "settled (p_hunks p) \<Longrightarrow> ensure_update_hunk_is_not_empty l p = Ok ()"
  by (auto simp: settled_def ensure_update_hunk_is_not_empty_def split: hunk.splits list.splits)

lemma trim_clean: "l \<noteq> [] \<Longrightarrow> \<not> is_whitespace (hd l) \<Longrightarrow> \<not> is_whitespace (last l) \<Longrightarrow> trim l = l"
  by (cases l) (simp_all add: trim_def trim_start_def trim_end_no_trailing)

lemma trim_end_Cons: "\<not> is_whitespace a \<Longrightarrow> trim_end (a # l) = a # trim_end l"
proof (cases "\<forall>c \<in> set l. is_whitespace c")
  case True
  moreover assume "\<not> is_whitespace a"
  ultimately show ?thesis by (simp add: trim_end_def dropWhile_append dropWhile_eq_Nil_conv [THEN iffD2])
next
  case False
  then show ?thesis by (auto simp: trim_end_def dropWhile_append1)
qed

lemma trim_Cons: "\<not> is_whitespace a \<Longrightarrow> trim (a # l) = a # trim_end l"
  by (simp add: trim_def trim_start_def trim_end_Cons)

lemma not_space: "\<not> is_whitespace 42" "\<not> is_whitespace 43" "\<not> is_whitespace 45" "\<not> is_whitespace 64"
  by (simp_all add: is_whitespace_def)

lemma markers_star:
  "\<exists>k. END_PATCH_MARKER = 42 # k" "\<exists>k. ADD_FILE_MARKER = 42 # k" "\<exists>k. DELETE_FILE_MARKER = 42 # k"
  "\<exists>k. UPDATE_FILE_MARKER = 42 # k" "\<exists>k. MOVE_TO_MARKER = 42 # k" "\<exists>k. EOF_MARKER = 42 # k"
  "\<exists>k. ENVIRONMENT_ID_MARKER = 42 # k" "\<exists>k. EMPTY_CHANGE_CONTEXT_MARKER = 64 # k"
  "\<exists>k. CHANGE_CONTEXT_MARKER = 64 # k"
  by (simp_all add: marker_defs lit_def)

lemma strip_prefix_other: "a \<noteq> b \<Longrightarrow> strip_prefix (a # l) (b # k) = None"
  by (simp add: strip_prefix_def starts_with_def)

text \<open>A line that does not begin with an asterisk is no header.\<close>

lemma no_header:
  assumes "a \<noteq> 42"
  shows "handle_hunk_headers_and_end_patch (a # l) p = Ok (False, p)"
proof -
  have "strip_prefix (a # l) ADD_FILE_MARKER = None" "strip_prefix (a # l) DELETE_FILE_MARKER = None"
    "strip_prefix (a # l) UPDATE_FILE_MARKER = None" "strip_prefix (a # l) ENVIRONMENT_ID_MARKER = None"
    using assms markers_star strip_prefix_other by metis+
  moreover have "a # l \<noteq> END_PATCH_MARKER" using assms markers_star(1) by (metis list.inject)
  ultimately show ?thesis by (simp add: handle_hunk_headers_and_end_patch_def hunk_header_def)
qed

text \<open>A header line, whatever the state it meets.\<close>

lemma header_line:
  assumes "st p hs m" and "m \<noteq> NotStarted" and "m \<noteq> EndedPatch"
    and "trim l = l" and "trim_end l = l" and "strip_prefix l ENVIRONMENT_ID_MARKER = None"
    and "hunk_header l p = Ok (True, p')"
  shows "process_line l p = Ok p'"
  using assms
  by (cases m) (simp_all add: st_def process_line_def Let_def handle_hunk_headers_and_end_patch_def)

lemma marker_path:
  assumes "path_ok q"
  shows "trim (ADD_FILE_MARKER @ q) = ADD_FILE_MARKER @ q" "trim_end (ADD_FILE_MARKER @ q) = ADD_FILE_MARKER @ q"
    "trim (DELETE_FILE_MARKER @ q) = DELETE_FILE_MARKER @ q"
    "trim_end (DELETE_FILE_MARKER @ q) = DELETE_FILE_MARKER @ q"
    "trim (UPDATE_FILE_MARKER @ q) = UPDATE_FILE_MARKER @ q"
    "trim_end (UPDATE_FILE_MARKER @ q) = UPDATE_FILE_MARKER @ q"
    "trim_end (MOVE_TO_MARKER @ q) = MOVE_TO_MARKER @ q"
    "trim_end (CHANGE_CONTEXT_MARKER @ q) = CHANGE_CONTEXT_MARKER @ q"
proof -
  have q: "q \<noteq> []" "\<not> is_whitespace (last q)" using assms by (simp_all add: path_ok_def)
  have e: "trim_end (k @ q) = k @ q" for k using q by (simp add: trim_end_no_trailing)
  have t: "trim (42 # k @ q) = 42 # k @ q" for k
    using q by (intro trim_clean) (simp_all add: not_space)
  show "trim_end (ADD_FILE_MARKER @ q) = ADD_FILE_MARKER @ q"
    "trim_end (DELETE_FILE_MARKER @ q) = DELETE_FILE_MARKER @ q"
    "trim_end (UPDATE_FILE_MARKER @ q) = UPDATE_FILE_MARKER @ q"
    "trim_end (MOVE_TO_MARKER @ q) = MOVE_TO_MARKER @ q"
    "trim_end (CHANGE_CONTEXT_MARKER @ q) = CHANGE_CONTEXT_MARKER @ q" by (rule e)+
  from t markers_star(2,3,4) show "trim (ADD_FILE_MARKER @ q) = ADD_FILE_MARKER @ q"
    "trim (DELETE_FILE_MARKER @ q) = DELETE_FILE_MARKER @ q"
    "trim (UPDATE_FILE_MARKER @ q) = UPDATE_FILE_MARKER @ q" by (metis append_Cons)+
qed

lemma marker_clash:
  "strip_prefix (ADD_FILE_MARKER @ q) ENVIRONMENT_ID_MARKER = None"
  "strip_prefix (DELETE_FILE_MARKER @ q) ENVIRONMENT_ID_MARKER = None"
  "strip_prefix (UPDATE_FILE_MARKER @ q) ENVIRONMENT_ID_MARKER = None"
  "strip_prefix (DELETE_FILE_MARKER @ q) ADD_FILE_MARKER = None"
  "strip_prefix (UPDATE_FILE_MARKER @ q) ADD_FILE_MARKER = None"
  "strip_prefix (UPDATE_FILE_MARKER @ q) DELETE_FILE_MARKER = None"
  "strip_prefix (MOVE_TO_MARKER @ q) ADD_FILE_MARKER = None"
  "strip_prefix (MOVE_TO_MARKER @ q) DELETE_FILE_MARKER = None"
  "strip_prefix (MOVE_TO_MARKER @ q) UPDATE_FILE_MARKER = None"
  "strip_prefix EOF_MARKER ADD_FILE_MARKER = None"
  "strip_prefix EOF_MARKER DELETE_FILE_MARKER = None"
  "strip_prefix EOF_MARKER UPDATE_FILE_MARKER = None"
  "strip_prefix EOF_MARKER MOVE_TO_MARKER = None"
  "strip_prefix EOF_MARKER CHANGE_CONTEXT_MARKER = None"
  "EOF_MARKER \<noteq> END_PATCH_MARKER" "EOF_MARKER \<noteq> EMPTY_CHANGE_CONTEXT_MARKER"
  "ADD_FILE_MARKER @ q \<noteq> END_PATCH_MARKER" "DELETE_FILE_MARKER @ q \<noteq> END_PATCH_MARKER"
  "UPDATE_FILE_MARKER @ q \<noteq> END_PATCH_MARKER" "MOVE_TO_MARKER @ q \<noteq> END_PATCH_MARKER"
  by (simp_all add: strip_prefix_def starts_with_def marker_defs lit_def)

lemma add_header:
  assumes "st p hs m" "settled hs" "m \<noteq> NotStarted" "m \<noteq> EndedPatch" "path_ok q"
  shows "\<exists>p'. process_line (ADD_FILE_MARKER @ q) p = Ok p' \<and> st p' (hs @ [AddFile q []]) AddFileMode"
proof -
  have "hunk_header (ADD_FILE_MARKER @ q) p
      = Ok (True, p\<lparr>p_hunks := p_hunks p @ [AddFile q []], p_mode := AddFileMode\<rparr>)"
    using assms by (simp add: hunk_header_def open_hunk_def settled_ensure st_def marker_clash)
  from header_line [OF assms(1,3,4) _ _ _ this] assms(1,5) show ?thesis
    by (simp add: marker_path marker_clash st_def)
qed

lemma delete_header:
  assumes "st p hs m" "settled hs" "m \<noteq> NotStarted" "m \<noteq> EndedPatch" "path_ok q"
  shows "\<exists>p'. process_line (DELETE_FILE_MARKER @ q) p = Ok p' \<and> st p' (hs @ [DeleteFile q]) DeleteFileMode"
proof -
  have "hunk_header (DELETE_FILE_MARKER @ q) p
      = Ok (True, p\<lparr>p_hunks := p_hunks p @ [DeleteFile q], p_mode := DeleteFileMode\<rparr>)"
    using assms by (simp add: hunk_header_def open_hunk_def settled_ensure st_def marker_clash)
  from header_line [OF assms(1,3,4) _ _ _ this] assms(1,5) show ?thesis
    by (simp add: marker_path marker_clash st_def)
qed

lemma update_header:
  assumes "st p hs m" "settled hs" "m \<noteq> NotStarted" "m \<noteq> EndedPatch" "path_ok q"
  shows "\<exists>p' n. process_line (UPDATE_FILE_MARKER @ q) p = Ok p'
     \<and> st p' (hs @ [UpdateFile q None []]) (UpdateFileMode n)"
proof -
  have "hunk_header (UPDATE_FILE_MARKER @ q) p = Ok (True,
      p\<lparr>p_hunks := p_hunks p @ [UpdateFile q None []], p_mode := UpdateFileMode (p_line_number p)\<rparr>)"
    using assms by (simp add: hunk_header_def open_hunk_def settled_ensure st_def marker_clash)
  from header_line [OF assms(1,3,4) _ _ _ this] assms(1,5) show ?thesis
    by (simp add: marker_path marker_clash st_def)
qed

section \<open>The lines of a hunk\<close>

lemma add_line:
  assumes "st p (hs @ [AddFile q c]) AddFileMode"
  shows "\<exists>p'. process_line (43 # l) p = Ok p' \<and> st p' (hs @ [AddFile q (c @ l @ [nl])]) AddFileMode"
proof -
  have "handle_hunk_headers_and_end_patch (trim (43 # l)) p = Ok (False, p)"
    by (simp add: trim_Cons not_space no_header)
  then show ?thesis
    using assms
    by (simp add: process_line_def Let_def st_def set_last_hunk_def strip_prefix_def starts_with_def)
qed

lemma add_lines:
  "st p (hs @ [AddFile q c]) AddFileMode \<Longrightarrow>
     \<exists>p'. process_lines (map ((#) 43) ls) p = Ok p' \<and> st p' (hs @ [AddFile q (c @ unlines ls)]) AddFileMode"
proof (induction ls arbitrary: p c)
  case (Cons l ls)
  then obtain p1 where "process_line (43 # l) (p\<lparr>p_line_number := Suc (p_line_number p)\<rparr>) = Ok p1"
    and st: "st p1 (hs @ [AddFile q (c @ l @ [nl])]) AddFileMode"
    using add_line [of "p\<lparr>p_line_number := Suc (p_line_number p)\<rparr>" hs q c l] by auto
  with Cons.IH [OF st] show ?case by (simp add: unlines_def)
qed (simp add: unlines_def)

text \<open>In an update hunk: a line that is no header goes to the update step.\<close>

lemma update_line:
  assumes "st p (hs @ [UpdateFile q mv cs]) (UpdateFileMode n)"
    and "handle_hunk_headers_and_end_patch (trim_end l) p = Ok (False, p)"
    and "process_update_line l q mv cs p = Ok (set_last_hunk (UpdateFile q mv' cs') p)"
  shows "\<exists>p'. process_line l p = Ok p' \<and> st p' (hs @ [UpdateFile q mv' cs']) (UpdateFileMode n)"
  using assms by (simp add: process_line_def Let_def st_def set_last_hunk_def)

lemma move_line:
  assumes "st p (hs @ [UpdateFile q None []]) (UpdateFileMode n)" and "path_ok m"
  shows "\<exists>p'. process_line (MOVE_TO_MARKER @ m) p = Ok p' \<and> st p' (hs @ [UpdateFile q (Some m) []]) (UpdateFileMode n)"
proof (rule update_line [OF assms(1)])
  show "handle_hunk_headers_and_end_patch (trim_end (MOVE_TO_MARKER @ m)) p = Ok (False, p)"
    using assms by (simp add: marker_path marker_clash handle_hunk_headers_and_end_patch_def
        hunk_header_def st_def)
  show "process_update_line (MOVE_TO_MARKER @ m) q None [] p = Ok (set_last_hunk (UpdateFile q (Some m) []) p)"
    using assms(2) by (simp add: process_update_line_def marker_path)
qed

lemma context_line:
  assumes "st p (hs @ [UpdateFile q mv cs]) (UpdateFileMode n)" and "\<not> last_lineless cs"
    and "case ctx of None \<Rightarrow> True | Some s \<Rightarrow> path_ok s"
  defines "l \<equiv> (case ctx of None \<Rightarrow> EMPTY_CHANGE_CONTEXT_MARKER | Some s \<Rightarrow> CHANGE_CONTEXT_MARKER @ s)"
  shows "\<exists>p'. process_line l p = Ok p' \<and> st p' (hs @ [UpdateFile q mv (cs @ [new_chunk ctx])]) (UpdateFileMode n)"
proof (rule update_line [OF assms(1)])
  have "\<exists>k. l = 64 # k" by (cases ctx) (simp_all add: l_def marker_defs lit_def)
  then obtain k where k: "l = 64 # k" by blast
  have te: "trim_end l = l"
  proof (cases ctx)
    case None
    then show ?thesis
      unfolding l_def by (simp add: trim_end_no_trailing EMPTY_CHANGE_CONTEXT_MARKER_def lit_def is_whitespace_def)
  next
    case (Some s)
    with assms(3) show ?thesis by (simp add: l_def marker_path)
  qed
  show "handle_hunk_headers_and_end_patch (trim_end l) p = Ok (False, p)"
    unfolding te unfolding k by (rule no_header) simp
  have "strip_prefix l MOVE_TO_MARKER = None"
    by (simp add: k strip_prefix_def starts_with_def MOVE_TO_MARKER_def lit_def)
  moreover have "is_context_marker l" by (cases ctx) (simp_all add: l_def is_context_marker_def)
  moreover have "l = EMPTY_CHANGE_CONTEXT_MARKER \<longleftrightarrow> ctx = None"
    using assms(3)
    by (cases ctx) (simp_all add: l_def EMPTY_CHANGE_CONTEXT_MARKER_def CHANGE_CONTEXT_MARKER_def lit_def)
  moreover have "ctx = Some s \<Longrightarrow> strip_prefix l CHANGE_CONTEXT_MARKER = Some s" for s
    by (simp add: l_def)
  moreover have "l \<noteq> []" using k by simp
  ultimately show "process_update_line l q mv cs p
      = Ok (set_last_hunk (UpdateFile q mv (cs @ [new_chunk ctx])) p)"
    using assms(2) unfolding process_update_line_def Let_def te by (cases ctx) simp_all
qed

lemma change_update:
  assumes "st p (hs @ [UpdateFile q mv (cs @ [c])]) (UpdateFileMode n)" and "\<not> is_end_of_file c"
    and "a \<in> {43, 45}" and "change_line (a # l) = Some f"
  shows "\<exists>p'. process_line (a # l) p = Ok p' \<and> st p' (hs @ [UpdateFile q mv (cs @ [f c])]) (UpdateFileMode n)"
proof (rule update_line [OF assms(1)])
  have te: "trim_end (a # l) = a # trim_end l" using assms(3) by (auto simp: trim_end_Cons not_space)
  show "handle_hunk_headers_and_end_patch (trim_end (a # l)) p = Ok (False, p)"
    unfolding te using assms(3) by (intro no_header) auto
  obtain e d k where m: "EOF_MARKER = 42 # e" "CHANGE_CONTEXT_MARKER = 64 # d"
    "EMPTY_CHANGE_CONTEXT_MARKER = 64 # k" using markers_star by metis
  have "strip_prefix (a # trim_end l) CHANGE_CONTEXT_MARKER = None"
    unfolding m using assms(3) by (intro strip_prefix_other) auto
  moreover have ne: "a # trim_end l \<noteq> EOF_MARKER" "a # trim_end l \<noteq> EMPTY_CHANGE_CONTEXT_MARKER"
    unfolding m using assms(3) by auto
  moreover have "\<not> is_context_marker (a # trim_end l)"
    using calculation(1) ne(2) by (simp add: is_context_marker_def strip_prefix_None_iff)
  moreover have "on_last_chunk f (cs @ [c]) = cs @ [f c]" by (simp add: on_last_chunk_def)
  ultimately show "process_update_line (a # l) q mv (cs @ [c]) p
      = Ok (set_last_hunk (UpdateFile q mv (cs @ [f c])) p)"
    using assms(2,4) by (simp add: process_update_line_def Let_def te del: change_line.simps)
qed

lemma eof_line:
  assumes "st p (hs @ [UpdateFile q mv (cs @ [c])]) (UpdateFileMode n)" and "\<not> is_end_of_file c"
    and "\<not> chunk_lineless c"
  shows "\<exists>p'. process_line EOF_MARKER p = Ok p'
     \<and> st p' (hs @ [UpdateFile q mv (cs @ [c\<lparr>is_end_of_file := True\<rparr>])]) (UpdateFileMode n)"
proof (rule update_line [OF assms(1)])
  have te: "trim_end EOF_MARKER = EOF_MARKER"
    by (rule trim_end_no_trailing) (simp_all add: EOF_MARKER_def lit_def is_whitespace_def)
  show "handle_hunk_headers_and_end_patch (trim_end EOF_MARKER) p = Ok (False, p)"
    using assms(1) by (simp add: te handle_hunk_headers_and_end_patch_def hunk_header_def marker_clash st_def)
  have "\<not> is_context_marker EOF_MARKER"
    using marker_clash(14,16) by (simp add: is_context_marker_def strip_prefix_None_iff)
  then show "process_update_line EOF_MARKER q mv (cs @ [c]) p
      = Ok (set_last_hunk (UpdateFile q mv (cs @ [c\<lparr>is_end_of_file := True\<rparr>])) p)"
    using assms(2,3)
    by (simp add: process_update_line_def Let_def te marker_clash last_lineless_def)
qed

lemma change_lines:
  assumes "a \<in> {43, 45}" and "\<And>l. change_line (a # l) = Some (f l)"
    and "\<And>l c. is_end_of_file (f l c) = is_end_of_file c"
    and "st p (hs @ [UpdateFile q mv (cs @ [c])]) (UpdateFileMode n)" and "\<not> is_end_of_file c"
  shows "\<exists>p'. process_lines (map ((#) a) ls) p = Ok p'
     \<and> st p' (hs @ [UpdateFile q mv (cs @ [fold f ls c])]) (UpdateFileMode n)"
  using assms(4,5)
proof (induction ls arbitrary: p c)
  case (Cons l ls)
  let ?p = "p\<lparr>p_line_number := Suc (p_line_number p)\<rparr>"
  obtain p1 where "process_line (a # l) ?p = Ok p1"
    and st: "st p1 (hs @ [UpdateFile q mv (cs @ [f l c])]) (UpdateFileMode n)"
    using change_update [of ?p hs q mv cs c n a l "f l"] Cons.prems assms(1,2) by auto
  with Cons.IH [OF st] Cons.prems(2) assms(3) show ?case by simp
qed simp

lemma fold_old_lines:
  "fold (\<lambda>l c. c\<lparr>old_lines := old_lines c @ [l]\<rparr>) ls c = c\<lparr>old_lines := old_lines c @ ls\<rparr>"
  by (induction ls arbitrary: c) simp_all

lemma fold_new_lines:
  "fold (\<lambda>l c. c\<lparr>new_lines := new_lines c @ [l]\<rparr>) ls c = c\<lparr>new_lines := new_lines c @ ls\<rparr>"
  by (induction ls arbitrary: c) simp_all

lemma chunk_lines:
  assumes "st p (hs @ [UpdateFile q mv cs]) (UpdateFileMode n)" and "\<not> last_lineless cs" and "chunk_ok c"
  shows "\<exists>p'. process_lines (render_chunk c) p = Ok p'
     \<and> st p' (hs @ [UpdateFile q mv (cs @ [c])]) (UpdateFileMode n)"
proof -
  let ?n = "\<lambda>p. p\<lparr>p_line_number := Suc (p_line_number p)\<rparr>"
  let ?ctx = "case change_context c of None \<Rightarrow> EMPTY_CHANGE_CONTEXT_MARKER | Some s \<Rightarrow> CHANGE_CONTEXT_MARKER @ s"
  let ?c1 = "new_chunk (change_context c)"
  let ?c2 = "?c1\<lparr>old_lines := old_lines c\<rparr>"
  let ?c3 = "?c2\<lparr>new_lines := new_lines c\<rparr>"
  have ok: "case change_context c of None \<Rightarrow> True | Some s \<Rightarrow> path_ok s" "\<not> chunk_lineless c"
    using assms(3) by (simp_all add: chunk_ok_def)
  obtain p1 where p1: "process_line ?ctx (?n p) = Ok p1"
    and st1: "st p1 (hs @ [UpdateFile q mv (cs @ [?c1])]) (UpdateFileMode n)"
    using context_line [of "?n p" hs q mv cs n "change_context c"] assms(1,2) ok(1) by auto
  obtain p2 where p2: "process_lines (map ((#) 45) (old_lines c)) p1 = Ok p2"
    and st2: "st p2 (hs @ [UpdateFile q mv (cs @ [?c2])]) (UpdateFileMode n)"
    using change_lines [OF _ _ _ st1, of 45 "\<lambda>l c. c\<lparr>old_lines := old_lines c @ [l]\<rparr>" "old_lines c"]
    by (auto simp: fold_old_lines new_chunk_def)
  obtain p3 where p3: "process_lines (map ((#) 43) (new_lines c)) p2 = Ok p3"
    and st3: "st p3 (hs @ [UpdateFile q mv (cs @ [?c3])]) (UpdateFileMode n)"
    using change_lines [OF _ _ _ st2, of 43 "\<lambda>l c. c\<lparr>new_lines := new_lines c @ [l]\<rparr>" "new_lines c"]
    by (auto simp: fold_new_lines new_chunk_def)
  have pre: "process_lines (?ctx # map ((#) 45) (old_lines c) @ map ((#) 43) (new_lines c)) p = Ok p3"
    using p1 p2 p3 by (simp add: process_lines_append)
  show ?thesis
  proof (cases "is_end_of_file c")
    case False
    then have "?c3 = c" by (cases c) (simp add: new_chunk_def)
    with pre st3 False show ?thesis by (simp add: render_chunk_def)
  next
    case True
    then have c: "?c3\<lparr>is_end_of_file := True\<rparr> = c" by (cases c) (simp add: new_chunk_def)
    have "\<not> is_end_of_file ?c3" "\<not> chunk_lineless ?c3"
      using ok(2) by (simp_all add: new_chunk_def chunk_lineless_def)
    then obtain p4 where "process_line EOF_MARKER (?n p3) = Ok p4"
      and "st p4 (hs @ [UpdateFile q mv (cs @ [c])]) (UpdateFileMode n)"
      using eof_line [of "?n p3" hs q mv cs ?c3 n] st3 c by auto
    moreover have "render_chunk c = (?ctx # map ((#) 45) (old_lines c) @ map ((#) 43) (new_lines c)) @ [EOF_MARKER]"
      using True by (simp add: render_chunk_def)
    ultimately show ?thesis using pre by (simp only: process_lines_append) simp
  qed
qed

lemma chunks_lines:
  "st p (hs @ [UpdateFile q mv cs]) (UpdateFileMode n) \<Longrightarrow> \<not> last_lineless cs \<Longrightarrow> list_all chunk_ok ks \<Longrightarrow>
     \<exists>p'. process_lines (concat (map render_chunk ks)) p = Ok p'
       \<and> st p' (hs @ [UpdateFile q mv (cs @ ks)]) (UpdateFileMode n)"
proof (induction ks arbitrary: p cs)
  case (Cons k ks)
  then obtain p1 where p1: "process_lines (render_chunk k) p = Ok p1"
    and st: "st p1 (hs @ [UpdateFile q mv (cs @ [k])]) (UpdateFileMode n)"
    using chunk_lines [of p hs q mv cs n k] by auto
  have "\<not> last_lineless (cs @ [k])" using Cons.prems(3) by (simp add: last_lineless_def chunk_ok_def)
  from Cons.IH [OF st this] Cons.prems(3) p1 show ?case by (auto simp: process_lines_append)
qed simp

section \<open>Round trip\<close>

definition open_mode :: "parser_mode \<Rightarrow> bool" where
  "open_mode m \<longleftrightarrow> m \<noteq> NotStarted \<and> m \<noteq> EndedPatch"

lemma hunk_lines:
  assumes "st p hs m" and "settled hs" and "open_mode m" and "hunk_ok h"
  shows "\<exists>p' m'. process_lines (render_hunk h) p = Ok p' \<and> st p' (hs @ [h]) m' \<and> open_mode m'
     \<and> settled (hs @ [h])"
proof -
  let ?n = "\<lambda>p. p\<lparr>p_line_number := Suc (p_line_number p)\<rparr>"
  have m: "st (?n p) hs m" "m \<noteq> NotStarted" "m \<noteq> EndedPatch"
    using assms(1,3) by (simp_all add: open_mode_def)
  show ?thesis
  proof (cases h)
    case (AddFile q c)
    let ?ls = "butlast (split_on nl c)"
    have ok: "path_ok q" "c = unlines ?ls" using assms(4) by (simp_all add: AddFile Let_def)
    obtain p1 where "process_line (ADD_FILE_MARKER @ q) (?n p) = Ok p1"
      and st: "st p1 (hs @ [AddFile q []]) AddFileMode"
      using add_header [OF m(1) assms(2) m(2,3) ok(1)] by blast
    moreover obtain p2 where "process_lines (map ((#) 43) ?ls) p1 = Ok p2"
      and "st p2 (hs @ [AddFile q c]) AddFileMode"
      using add_lines [OF st, of ?ls] ok(2) by auto
    ultimately show ?thesis by (auto simp: AddFile open_mode_def settled_def)
  next
    case (DeleteFile q)
    with delete_header [OF m(1) assms(2) m(2,3)] assms(4) show ?thesis
      by (fastforce simp: open_mode_def settled_def)
  next
    case (UpdateFile q mv cs)
    have ok: "path_ok q" "case mv of None \<Rightarrow> True | Some t \<Rightarrow> path_ok t" "cs \<noteq> []" "list_all chunk_ok cs"
      using assms(4) by (simp_all add: UpdateFile)
    obtain p1 n where p1: "process_line (UPDATE_FILE_MARKER @ q) (?n p) = Ok p1"
      and st1: "st p1 (hs @ [UpdateFile q None []]) (UpdateFileMode n)"
      using update_header [OF m(1) assms(2) m(2,3) ok(1)] by blast
    have "\<exists>p2. process_lines (case mv of None \<Rightarrow> [] | Some t \<Rightarrow> [MOVE_TO_MARKER @ t]) p1 = Ok p2
        \<and> st p2 (hs @ [UpdateFile q mv []]) (UpdateFileMode n)"
    proof (cases mv)
      case (Some t)
      with move_line [of "?n p1" hs q n t] st1 ok(2) show ?thesis by auto
    qed (use st1 in simp)
    then obtain p2 where p2: "process_lines (case mv of None \<Rightarrow> [] | Some t \<Rightarrow> [MOVE_TO_MARKER @ t]) p1 = Ok p2"
      and st2: "st p2 (hs @ [UpdateFile q mv []]) (UpdateFileMode n)" by blast
    obtain p3 where p3: "process_lines (concat (map render_chunk cs)) p2 = Ok p3"
      and st3: "st p3 (hs @ [UpdateFile q mv cs]) (UpdateFileMode n)"
      using chunks_lines [OF st2 _ ok(4)] by (auto simp: last_lineless_def)
    have "process_lines (render_hunk h) p = Ok p3"
      using p1 p2 p3 by (simp add: UpdateFile process_lines_append)
    moreover have "\<not> last_lineless cs"
      using ok(3,4) by (cases cs rule: rev_cases) (simp_all add: last_lineless_def chunk_ok_def)
    ultimately show ?thesis using st3 ok(3) by (auto simp: UpdateFile open_mode_def settled_def)
  qed
qed

lemma hunks_lines:
  "st p hs m \<Longrightarrow> settled hs \<Longrightarrow> open_mode m \<Longrightarrow> list_all hunk_ok ks \<Longrightarrow>
     \<exists>p' m'. process_lines (concat (map render_hunk ks)) p = Ok p' \<and> st p' (hs @ ks) m' \<and> open_mode m'
       \<and> settled (hs @ ks)"
proof (induction ks arbitrary: p hs m)
  case (Cons k ks)
  then obtain p1 m1 where "process_lines (render_hunk k) p = Ok p1" "st p1 (hs @ [k]) m1"
    "open_mode m1" "settled (hs @ [k])"
    using hunk_lines [of p hs m k] by auto
  with Cons.IH [of p1 "hs @ [k]" m1] Cons.prems(4) show ?case by (auto simp: process_lines_append)
qed auto

lemma line_ok_append: "k \<noteq> [] \<Longrightarrow> line_ok (j @ k) \<longleftrightarrow> nl \<notin> set j \<and> line_ok k"
  by (auto simp: line_ok_def)

lemma path_line_ok: "path_ok q \<Longrightarrow> nl \<notin> set j \<Longrightarrow> line_ok (j @ q)"
  by (auto simp: line_ok_def path_ok_def is_whitespace_def)

lemma markers_no_nl:
  "nl \<notin> set ADD_FILE_MARKER" "nl \<notin> set DELETE_FILE_MARKER" "nl \<notin> set UPDATE_FILE_MARKER"
  "nl \<notin> set MOVE_TO_MARKER" "nl \<notin> set CHANGE_CONTEXT_MARKER" "nl \<notin> set END_PATCH_MARKER"
  "line_ok EMPTY_CHANGE_CONTEXT_MARKER" "line_ok EOF_MARKER" "line_ok BEGIN_PATCH_MARKER" "line_ok END_PATCH_MARKER"
  by (simp_all add: marker_defs lit_def line_ok_def)

lemma sign_line_ok: "line_ok l \<Longrightarrow> a \<in> {43, 45} \<Longrightarrow> line_ok (a # l)"
  by (auto simp: line_ok_def)

lemma render_chunk_ok: "chunk_ok c \<Longrightarrow> list_all line_ok (render_chunk c)"
  by (auto simp: chunk_ok_def render_chunk_def list_all_iff sign_line_ok markers_no_nl path_line_ok
      split: option.splits)

lemma render_hunk_ok: "hunk_ok h \<Longrightarrow> list_all line_ok (render_hunk h)"
proof (cases h)
  case (UpdateFile q mv cs)
  assume "hunk_ok h"
  with UpdateFile render_chunk_ok show ?thesis
    by (fastforce simp: list_all_iff path_line_ok markers_no_nl split: option.splits)
qed (auto simp: list_all_iff path_line_ok markers_no_nl sign_line_ok Let_def)

lemma lines_unlines:
  "list_all line_ok ls \<Longrightarrow> line_ok l \<Longrightarrow> l \<noteq> [] \<Longrightarrow> lines (unlines ls @ l) = ls @ [l]"
proof -
  assume ok: "list_all line_ok ls" "line_ok l" "l \<noteq> []"
  have "split_on nl (unlines ls @ l) = ls @ [l]"
    using ok(1) by (induction ls)
      (use ok(2) in \<open>simp_all add: unlines_def split_on_single split_on_append_sep line_ok_def\<close>)
  moreover have "map strip_cr ls = ls"
    using ok(1) by (induction ls) (simp_all add: strip_cr_line_ok)
  ultimately show ?thesis using ok(3) by (simp add: lines_def)
qed

lemma join_unlines: "join [nl] (ls @ [l]) = unlines ls @ l"
  by (induction ls) (simp_all add: unlines_def join_Cons)

lemma parse_rendered:
  assumes "list_all hunk_ok hs"
  shows "parse_patch (render_patch hs) =
     Ok \<lparr>patch_text = render_patch hs, args_hunks = hs, args_workdir = None, args_environment_id = None\<rparr>"
proof -
  let ?ls = "BEGIN_PATCH_MARKER # concat (map render_hunk hs)"
  have ok: "list_all line_ok ?ls"
    using assms render_hunk_ok markers_no_nl(9) by (auto simp: list_all_iff)
  have clean: "trim BEGIN_PATCH_MARKER = BEGIN_PATCH_MARKER" "trim END_PATCH_MARKER = END_PATCH_MARKER"
    by (rule trim_clean; simp add: marker_defs lit_def is_whitespace_def)+
  have trimmed: "trim (render_patch hs) = render_patch hs"
    by (rule trim_clean) (simp_all add: render_patch_def unlines_def marker_defs lit_def is_whitespace_def)
  have ls: "lines (render_patch hs) = ?ls @ [END_PATCH_MARKER]"
    unfolding render_patch_def
    by (rule lines_unlines [OF ok markers_no_nl(10)]) (simp add: END_PATCH_MARKER_def)
  then have bounds: "check_patch_boundaries_lenient (lines (trim (render_patch hs))) = Ok (?ls @ [END_PATCH_MARKER])"
    by (simp add: trimmed check_patch_boundaries_lenient_def check_patch_boundaries_strict_def
        check_start_and_end_lines_strict_def clean)
  define q where "q = parser_default\<lparr>p_mode := StartedPatch, p_line_number := 1\<rparr>"
  have "st q [] StartedPatch" by (simp add: st_def q_def parser_default_def)
  from hunks_lines [OF this _ _ assms] obtain p m where
    p: "process_lines (concat (map render_hunk hs)) q = Ok p" and st: "st p hs m" and se: "settled hs"
    by (auto simp: settled_def open_mode_def)
  have "process_lines ?ls parser_default = Ok p"
    using p by (simp add: process_line_def parser_default_def clean q_def)
  then have push: "push_delta (render_patch hs) parser_default = Ok (p\<lparr>p_line_buffer := END_PATCH_MARKER\<rparr>)"
    using push_delta_lines [OF ok, of parser_default END_PATCH_MARKER] st
      push_delta_no_nl [OF markers_no_nl(6), of p]
    by (simp add: render_patch_def st_def parser_default_def)
  have "END_PATCH_MARKER \<noteq> []" by (simp add: END_PATCH_MARKER_def)
  then have "\<exists>p'. finish (p\<lparr>p_line_buffer := END_PATCH_MARKER\<rparr>) = Ok p' \<and> p_hunks p' = hs \<and> p_environment_id p' = None"
    using st se by (simp add: finish_def Let_def clean settled_ensure st_def)
  then show ?thesis
    using bounds push join_unlines [of ?ls END_PATCH_MARKER]
    by (auto simp: parse_patch_def PARSE_IN_STRICT_MODE_def parse_patch_text_def render_patch_def)
qed

definition hunks_sample :: "hunk list" where
  "hunks_sample =
     [AddFile (lit ''a'') (lit ''x'' @ [nl]), DeleteFile (lit ''b''),
      UpdateFile (lit ''c'') (Some (lit ''d''))
        [\<lparr>change_context = Some (lit ''f''), old_lines = [lit ''o''], new_lines = [], is_end_of_file = True\<rparr>]]"

lemma hunks_sample_ok: "list_all hunk_ok hunks_sample"
  by (simp add: hunks_sample_def path_ok_def line_ok_def unlines_def chunk_ok_def chunk_lineless_def
      lit_def is_whitespace_def)

text \<open>
  C12. The parser reads back every printed patch: for hunks whose paths, contexts and lines can be
  written in the language (no line breaks, no trailing white space in names, at least one line per
  chunk), parsing the printed text gives exactly these hunks.
\<close>

theorem parse_render:
  assumes "list_all hunk_ok hs"
  shows "parse_patch (render_patch hs) =
     Ok \<lparr>patch_text = render_patch hs, args_hunks = hs, args_workdir = None, args_environment_id = None\<rparr>"
  by (rule parse_rendered [OF assms])

theorem parse_render_witness:
  "list_all hunk_ok hunks_sample
   \<and> parse_patch (render_patch hunks_sample) =
     Ok \<lparr>patch_text = render_patch hunks_sample, args_hunks = hunks_sample, args_workdir = None,
         args_environment_id = None\<rparr>"
  using parse_render [OF hunks_sample_ok] hunks_sample_ok by blast

text \<open>
  C31. A patch that parses has only usable hunks: every update hunk has at least one chunk, every
  chunk has at least one line, and the contents of an added file are empty or end with a newline.
\<close>

theorem parsed_hunks_well_formed:
  assumes "parse_patch s = Ok args"
  shows "\<forall>h \<in> set (args_hunks args). hunk_wf h"
  by (rule parse_patch_wf [OF assms])

theorem parsed_hunks_well_formed_witness:
  "hunk_wf (AddFile (lit ''a'') (lit ''x'' @ [nl]))"
  using parsed_hunks_well_formed [OF parse_rendered [OF hunks_sample_ok]]
  by (simp add: hunks_sample_def)

end
