(* ===== verification/Patch_Apply.thy ===== *)
theory Patch_Apply
  imports Patch_Replace Patch_Print
begin

text \<open>
  Applying hunks to a file system and recording what was committed
  (codex-rs/apply-patch/src/lib.rs). The file system is an argument: a record of operations on a
  state, in which a failing operation may still have changed the state. The locale \<open>file_system\<close>
  states what the code relies on; it is interpreted on a store with directories, symbolic links and
  a bounded number of writes. The writers for stdout and stderr collect text and do not fail.
\<close>

datatype io_kind = NotFound | InvalidInput | OtherKind

datatype io_error = IoError io_kind rstr

fun kind :: "io_error \<Rightarrow> io_kind" where "kind (IoError k t) = k"

record metadata =
  is_file :: bool
  is_directory :: bool
  is_symlink :: bool

type_synonym 'f mutation = "(io_error, unit) result \<times> 'f"

record 'f fs_ops =
  read_file_text :: "rstr \<Rightarrow> 'f \<Rightarrow> (io_error, rstr) result"
  write_file :: "rstr \<Rightarrow> rstr \<Rightarrow> 'f \<Rightarrow> 'f mutation"
  create_directory :: "rstr \<Rightarrow> 'f \<Rightarrow> 'f mutation"
  fs_remove :: "rstr \<Rightarrow> 'f \<Rightarrow> 'f mutation"
  get_metadata :: "rstr \<Rightarrow> 'f \<Rightarrow> (io_error, metadata) result"
  parent_of :: "rstr \<Rightarrow> rstr option"

datatype applied_patch_file_change =
    Added rstr "rstr option"
  | Deleted rstr
  | Updated "rstr option" rstr "rstr option" rstr

record applied_patch_change =
  change_path :: rstr
  change :: applied_patch_file_change

record applied_patch_delta =
  changes :: "applied_patch_change list"
  exact :: bool

definition delta_empty :: applied_patch_delta where
  "delta_empty = \<lparr>changes = [], exact = True\<rparr>"

record affected_paths =
  added :: "rstr list"
  modified :: "rstr list"
  deleted :: "rstr list"

text \<open>An error of the file system with its context, or any other error by its text.\<close>

datatype apply_failure = FsFailure rstr io_error | OtherFailure rstr

fun failure_text :: "apply_failure \<Rightarrow> rstr" where
  "failure_text (FsFailure context e) = context"
| "failure_text (OtherFailure t) = t"

definition inexact_if :: "bool \<Rightarrow> applied_patch_delta \<Rightarrow> applied_patch_delta" where
  "inexact_if b d = (if b then d\<lparr>exact := False\<rparr> else d)"

definition push_change :: "rstr \<Rightarrow> applied_patch_file_change \<Rightarrow> applied_patch_delta \<Rightarrow> applied_patch_delta" where
  "push_change path c d = d\<lparr>changes := changes d @ [\<lparr>change_path = path, change = c\<rparr>]\<rparr>"

section \<open>The helpers\<close>

definition ensure_not_directory :: "'f fs_ops \<Rightarrow> rstr \<Rightarrow> 'f \<Rightarrow> (io_error, unit) result" where
  "ensure_not_directory ops path f =
     and_then (get_metadata ops path f) (\<lambda>m.
       if is_directory m then Err (IoError InvalidInput (lit ''path is a directory'')) else Ok ())"

definition remove_failure_was_side_effect_free :: "'f fs_ops \<Rightarrow> rstr \<Rightarrow> rstr option \<Rightarrow> 'f \<Rightarrow> bool" where
  "remove_failure_was_side_effect_free ops path expected f =
     (case expected of
        Some t \<Rightarrow> read_file_text ops path f = Ok t
      | None \<Rightarrow> False)"

definition path_unsupported :: "'f fs_ops \<Rightarrow> rstr \<Rightarrow> 'f \<Rightarrow> bool" where
  "path_unsupported ops path f =
     (case get_metadata ops path f of
        Inr m \<Rightarrow> \<not> (is_file m \<and> \<not> is_symlink m)
      | Inl e \<Rightarrow> kind e \<noteq> NotFound)"

definition note_existing_path_delta_support ::
  "'f fs_ops \<Rightarrow> rstr \<Rightarrow> 'f \<Rightarrow> applied_patch_delta \<Rightarrow> applied_patch_delta" where
  "note_existing_path_delta_support ops path f d = inexact_if (path_unsupported ops path f) d"

definition read_optional_file_text_for_delta ::
  "'f fs_ops \<Rightarrow> rstr \<Rightarrow> 'f \<Rightarrow> applied_patch_delta \<Rightarrow> rstr option \<times> applied_patch_delta" where
  "read_optional_file_text_for_delta ops path f d =
     (let d = note_existing_path_delta_support ops path f d in
      case read_file_text ops path f of
        Inr t \<Rightarrow> (Some t, d)
      | Inl e \<Rightarrow> if kind e = NotFound then (None, d) else (None, d\<lparr>exact := False\<rparr>))"

definition write_context :: "rstr \<Rightarrow> rstr" where
  "write_context path = lit ''Failed to write file '' @ path"

definition write_file_with_missing_parent_retry ::
  "'f fs_ops \<Rightarrow> rstr \<Rightarrow> rstr \<Rightarrow> 'f \<Rightarrow> (apply_failure, unit) result \<times> 'f" where
  "write_file_with_missing_parent_retry ops path contents f =
     (case write_file ops path contents f of
        (Inr _, f) \<Rightarrow> (Ok (), f)
      | (Inl e, f) \<Rightarrow>
          if kind e = NotFound then
            let retry = (\<lambda>f. case write_file ops path contents f of
                  (Inr _, f) \<Rightarrow> (Ok (), f)
                | (Inl e, f) \<Rightarrow> (Err (FsFailure (write_context path) e), f))
            in case parent_of ops path of
                 None \<Rightarrow> retry f
               | Some parent \<Rightarrow>
                   (case create_directory ops parent f of
                      (Inr _, f) \<Rightarrow> retry f
                    | (Inl e, f) \<Rightarrow>
                        (Err (FsFailure (lit ''Failed to create parent directories for '' @ path) e), f))
          else (Err (FsFailure (write_context path) e), f))"

section \<open>One hunk\<close>

record 'f patch_run =
  files :: 'f
  delta :: applied_patch_delta
  affected :: affected_paths

definition apply_add ::
  "'f fs_ops \<Rightarrow> rstr \<Rightarrow> rstr \<Rightarrow> rstr \<Rightarrow> 'f patch_run \<Rightarrow> (apply_failure, unit) result \<times> 'f patch_run" where
  "apply_add ops path contents spelling r =
     (let (overwritten, d) = read_optional_file_text_for_delta ops path (files r) (delta r) in
      case write_file_with_missing_parent_retry ops path contents (files r) of
        (Inl e, f) \<Rightarrow> (Err e, r\<lparr>files := f, delta := d\<lparr>exact := False\<rparr>\<rparr>)
      | (Inr _, f) \<Rightarrow>
          (Ok (), r\<lparr>files := f, delta := push_change path (Added contents overwritten) d,
             affected := (affected r)\<lparr>added := added (affected r) @ [spelling]\<rparr>\<rparr>))"

definition apply_delete ::
  "'f fs_ops \<Rightarrow> rstr \<Rightarrow> rstr \<Rightarrow> 'f patch_run \<Rightarrow> (apply_failure, unit) result \<times> 'f patch_run" where
  "apply_delete ops path spelling r =
     (let context = lit ''Failed to delete file '' @ path;
          d = note_existing_path_delta_support ops path (files r) (delta r);
          deleted_content = (case read_file_text ops path (files r) of Inr t \<Rightarrow> Some t | Inl _ \<Rightarrow> None);
          d = inexact_if (deleted_content = None) d
      in case ensure_not_directory ops path (files r) of
           Inl e \<Rightarrow> (Err (FsFailure context e), r\<lparr>delta := d\<rparr>)
         | Inr _ \<Rightarrow>
             (case fs_remove ops path (files r) of
                (Inl e, f) \<Rightarrow>
                  (Err (FsFailure context e), r\<lparr>files := f,
                     delta := inexact_if (\<not> remove_failure_was_side_effect_free ops path deleted_content f) d\<rparr>)
              | (Inr _, f) \<Rightarrow>
                  (Ok (), r\<lparr>files := f,
                     delta := (case deleted_content of Some t \<Rightarrow> push_change path (Deleted t) d | None \<Rightarrow> d),
                     affected := (affected r)\<lparr>deleted := deleted (affected r) @ [spelling]\<rparr>\<rparr>)))"

definition mark_modified :: "rstr \<Rightarrow> 'f patch_run \<Rightarrow> 'f patch_run" where
  "mark_modified spelling r =
     r\<lparr>affected := (affected r)\<lparr>modified := modified (affected r) @ [spelling]\<rparr>\<rparr>"

text \<open>A rename writes the destination first and then removes the source.\<close>

definition apply_move ::
  "'f fs_ops \<Rightarrow> rstr \<Rightarrow> rstr \<Rightarrow> rstr \<Rightarrow> rstr \<Rightarrow> rstr \<Rightarrow> 'f patch_run
     \<Rightarrow> (apply_failure, unit) result \<times> 'f patch_run" where
  "apply_move ops path dest original new spelling r =
     (let context = lit ''Failed to remove original '' @ path;
          (overwritten, d) = read_optional_file_text_for_delta ops dest (files r) (delta r)
      in case write_file_with_missing_parent_retry ops dest new (files r) of
           (Inl e, f) \<Rightarrow> (Err e, r\<lparr>files := f, delta := d\<lparr>exact := False\<rparr>\<rparr>)
         | (Inr _, f) \<Rightarrow>
             let d1 = push_change dest (Added new overwritten) d in
             case ensure_not_directory ops path f of
               Inl e \<Rightarrow> (Err (FsFailure context e), r\<lparr>files := f, delta := d1\<rparr>)
             | Inr _ \<Rightarrow>
                 (case fs_remove ops path f of
                    (Inl e, f) \<Rightarrow>
                      (Err (FsFailure context e), r\<lparr>files := f,
                         delta := inexact_if (\<not> remove_failure_was_side_effect_free ops path (Some original) f) d1\<rparr>)
                  | (Inr _, f) \<Rightarrow>
                      (Ok (), mark_modified spelling
                         (r\<lparr>files := f,
                            delta := push_change path (Updated (Some dest) original overwritten new) d\<rparr>))))"

definition apply_in_place ::
  "'f fs_ops \<Rightarrow> rstr \<Rightarrow> rstr \<Rightarrow> rstr \<Rightarrow> rstr \<Rightarrow> 'f patch_run \<Rightarrow> (apply_failure, unit) result \<times> 'f patch_run" where
  "apply_in_place ops path original new spelling r =
     (case write_file ops path new (files r) of
        (Inl e, f) \<Rightarrow> (Err (FsFailure (write_context path) e), r\<lparr>files := f, delta := (delta r)\<lparr>exact := False\<rparr>\<rparr>)
      | (Inr _, f) \<Rightarrow>
          (Ok (), mark_modified spelling
             (r\<lparr>files := f, delta := push_change path (Updated None original None new) (delta r)\<rparr>)))"

fun error_text :: "apply_patch_error \<Rightarrow> rstr" where
  "error_text (ParseFailure (InvalidPatchError m)) = lit ''invalid patch: '' @ m"
| "error_text (ParseFailure (InvalidHunkError m n)) = lit ''invalid hunk at line '' @ show_nat n @ lit '', '' @ m"
| "error_text (IoFailure context source) = context @ lit '': '' @ source"
| "error_text (ComputeReplacements m) = m"
| "error_text (PathUriFailure m) = m"
| "error_text ImplicitInvocation =
     lit ''patch detected without explicit call to apply_patch. Rerun as ['' @ [34] @ lit ''apply_patch''
       @ [34] @ lit '', '' @ [34] @ lit ''<patch>'' @ [34] @ lit '']''"

text \<open>Reading the file and deriving its new contents; both the original and the new text.\<close>

definition derive_new_contents_from_chunks ::
  "'f fs_ops \<Rightarrow> rstr \<Rightarrow> update_file_chunk list \<Rightarrow> 'f \<Rightarrow> (apply_patch_error, rstr \<times> rstr) result" where
  "derive_new_contents_from_chunks ops path chunks f =
     (case read_file_text ops path f of
        Inl (IoError k t) \<Rightarrow> Err (IoFailure (lit ''Failed to read file to update '' @ path) t)
      | Inr original \<Rightarrow>
          and_then (derive_new_contents original path chunks) (\<lambda>new. Ok (original, new)))"

definition apply_update ::
  "'f fs_ops \<Rightarrow> (rstr \<Rightarrow> (rstr, rstr) result) \<Rightarrow> rstr \<Rightarrow> rstr option \<Rightarrow> update_file_chunk list \<Rightarrow> rstr
     \<Rightarrow> 'f patch_run \<Rightarrow> (apply_failure, unit) result \<times> 'f patch_run" where
  "apply_update ops resolve path move_path chunks spelling r =
     (let r = r\<lparr>delta := note_existing_path_delta_support ops path (files r) (delta r)\<rparr> in
      case derive_new_contents_from_chunks ops path chunks (files r) of
        Inl e \<Rightarrow> (Err (OtherFailure (error_text e)), r)
      | Inr (original, new) \<Rightarrow>
          (case move_path of
             None \<Rightarrow> apply_in_place ops path original new spelling r
           | Some dest \<Rightarrow>
               (case resolve dest of
                  Inl e \<Rightarrow> (Err (OtherFailure e), r)
                | Inr dest \<Rightarrow> apply_move ops path dest original new spelling r)))"

definition apply_hunk ::
  "'f fs_ops \<Rightarrow> (rstr \<Rightarrow> (rstr, rstr) result) \<Rightarrow> hunk \<Rightarrow> 'f patch_run
     \<Rightarrow> (apply_failure, unit) result \<times> 'f patch_run" where
  "apply_hunk ops resolve h r =
     (case resolve (hunk_source h) of
        Inl e \<Rightarrow> (Err (OtherFailure e), r)
      | Inr path \<Rightarrow>
          (case h of
             AddFile _ contents \<Rightarrow> apply_add ops path contents (hunk_path h) r
           | DeleteFile _ \<Rightarrow> apply_delete ops path (hunk_path h) r
           | UpdateFile _ mv chunks \<Rightarrow> apply_update ops resolve path mv chunks (hunk_path h) r))"

fun apply_each ::
  "'f fs_ops \<Rightarrow> (rstr \<Rightarrow> (rstr, rstr) result) \<Rightarrow> hunk list \<Rightarrow> 'f patch_run
     \<Rightarrow> (apply_failure, unit) result \<times> 'f patch_run" where
  "apply_each ops resolve [] r = (Ok (), r)"
| "apply_each ops resolve (h # hs) r =
     (case apply_hunk ops resolve h r of
        (Inl e, r) \<Rightarrow> (Err e, r)
      | (Inr _, r) \<Rightarrow> apply_each ops resolve hs r)"

definition run_start :: "'f \<Rightarrow> 'f patch_run" where
  "run_start f = \<lparr>files = f, delta = delta_empty, affected = \<lparr>added = [], modified = [], deleted = []\<rparr>\<rparr>"

definition apply_hunks_to_files ::
  "'f fs_ops \<Rightarrow> (rstr \<Rightarrow> (rstr, rstr) result) \<Rightarrow> hunk list \<Rightarrow> 'f
     \<Rightarrow> (apply_failure, unit) result \<times> 'f patch_run" where
  "apply_hunks_to_files ops resolve hs f =
     (if hs = [] then (Err (OtherFailure (lit ''No files were modified.'')), run_start f)
      else apply_each ops resolve hs (run_start f))"

section \<open>The entry points\<close>

definition print_summary :: "affected_paths \<Rightarrow> rstr" where
  "print_summary a =
     unlines (lit ''Success. Updated the following files:''
       # map (\<lambda>p. lit ''A '' @ p) (added a) @ map (\<lambda>p. lit ''M '' @ p) (modified a)
       @ map (\<lambda>p. lit ''D '' @ p) (deleted a))"

record 'f patch_outcome =
  outcome :: "(apply_patch_error, unit) result"
  final_delta :: applied_patch_delta
  final_files :: 'f
  stdout :: rstr
  stderr :: rstr

definition apply_hunks ::
  "'f fs_ops \<Rightarrow> (rstr \<Rightarrow> (rstr, rstr) result) \<Rightarrow> hunk list \<Rightarrow> 'f \<Rightarrow> 'f patch_outcome" where
  "apply_hunks ops resolve hs f =
     (case apply_hunks_to_files ops resolve hs f of
        (Inr _, r) \<Rightarrow>
          \<lparr>outcome = Ok (), final_delta = delta r, final_files = files r,
           stdout = print_summary (affected r), stderr = []\<rparr>
      | (Inl e, r) \<Rightarrow>
          \<lparr>outcome = Err (case e of
               FsFailure _ (IoError k t) \<Rightarrow> IoFailure (lit ''I/O error'') t
             | OtherFailure t \<Rightarrow> IoFailure t t),
           final_delta = delta r, final_files = files r,
           stdout = [], stderr = failure_text e @ [nl]\<rparr>)"

fun parse_error_report :: "parse_error \<Rightarrow> rstr" where
  "parse_error_report (InvalidPatchError m) = lit ''Invalid patch: '' @ m @ [nl]"
| "parse_error_report (InvalidHunkError m n) =
     lit ''Invalid patch hunk on line '' @ show_nat n @ lit '': '' @ m @ [nl]"

definition apply_patch ::
  "'f fs_ops \<Rightarrow> (rstr \<Rightarrow> (rstr, rstr) result) \<Rightarrow> rstr \<Rightarrow> 'f \<Rightarrow> 'f patch_outcome" where
  "apply_patch ops resolve patch f =
     (case parse_patch patch of
        Inl e \<Rightarrow> \<lparr>outcome = Err (ParseFailure e), final_delta = delta_empty, final_files = f,
            stdout = [], stderr = parse_error_report e\<rparr>
      | Inr args \<Rightarrow> apply_hunks ops resolve (args_hunks args) f)"

section \<open>What an exact delta means\<close>

text \<open>The regular files of a state with their text; links and directories have none.\<close>

definition view :: "'f fs_ops \<Rightarrow> 'f \<Rightarrow> rstr \<rightharpoonup> rstr" where
  "view ops f p =
     (case get_metadata ops p f of
        Inl _ \<Rightarrow> None
      | Inr m \<Rightarrow>
          if is_file m \<and> \<not> is_symlink m
          then (case read_file_text ops p f of Inr t \<Rightarrow> Some t | Inl _ \<Rightarrow> None)
          else None)"

fun replay_change :: "applied_patch_change \<Rightarrow> (rstr \<rightharpoonup> rstr) \<Rightarrow> rstr \<rightharpoonup> rstr" where
  "replay_change c v =
     (case change c of
        Added t _ \<Rightarrow> v(change_path c \<mapsto> t)
      | Deleted _ \<Rightarrow> v(change_path c := None)
      | Updated None _ _ new \<Rightarrow> v(change_path c \<mapsto> new)
      | Updated (Some dest) _ _ new \<Rightarrow> v(dest \<mapsto> new, change_path c := None))"

definition replay :: "applied_patch_delta \<Rightarrow> (rstr \<rightharpoonup> rstr) \<Rightarrow> rstr \<rightharpoonup> rstr" where
  "replay d v = fold replay_change (changes d) v"

text \<open>
  What the code relies on, with \<open>path_unsupported\<close> false for a path that is a regular file or
  absent: a successful write or removal changes this path only, a write that fails because a
  directory is missing changes nothing, creating the parent directories changes no file, a failed
  removal leaves the file or has removed it, and an absent file cannot be read.
\<close>

locale file_system =
  fixes ops :: "'f fs_ops"
  assumes write_ok: "write_file ops p t f = (Inr u, f') \<Longrightarrow> \<not> path_unsupported ops p f \<Longrightarrow>
      view ops f' = (view ops f)(p \<mapsto> t)"
    and write_missing: "write_file ops p t f = (Inl e, f') \<Longrightarrow> kind e = NotFound \<Longrightarrow> view ops f' = view ops f"
    and write_supported: "write_file ops p t f = (r, f') \<Longrightarrow> \<not> path_unsupported ops q f \<Longrightarrow>
      r = Inr u \<or> kind (projl r) = NotFound \<Longrightarrow> \<not> path_unsupported ops q f'"
    and mkdir: "create_directory ops q f = (r, f') \<Longrightarrow> view ops f' = view ops f"
    and mkdir_supported: "create_directory ops q f = (r, f') \<Longrightarrow>
      parent_of ops p = Some q \<or> view ops f p \<noteq> None \<Longrightarrow>
      \<not> path_unsupported ops p f \<Longrightarrow> \<not> path_unsupported ops p f'"
    and remove_ok: "fs_remove ops p f = (Inr u, f') \<Longrightarrow> \<not> path_unsupported ops p f \<Longrightarrow>
      view ops f' = (view ops f)(p := None)"
    and remove_failed: "fs_remove ops p f = (Inl e, f') \<Longrightarrow> \<not> path_unsupported ops p f \<Longrightarrow>
      \<not> path_unsupported ops p f' \<and> (view ops f' = view ops f \<or> view ops f' = (view ops f)(p := None))"
    and read_absent: "get_metadata ops p f = Inl e \<Longrightarrow> kind e = NotFound \<Longrightarrow> read_file_text ops p f \<noteq> Inr t"
begin

lemma supported_read:
  "\<not> path_unsupported ops p f \<Longrightarrow> read_file_text ops p f = Inr t \<Longrightarrow> view ops f p = Some t"
  using read_absent [of p f _ t]
  by (auto simp: path_unsupported_def view_def split: sum.splits)

lemma retry_ok:
  assumes "write_file_with_missing_parent_retry ops p t f = (Inr u, f')" and "\<not> path_unsupported ops p f"
  shows "view ops f' = (view ops f)(p \<mapsto> t)"
proof -
  obtain r f1 where w: "write_file ops p t f = (r, f1)" by (metis surj_pair)
  show ?thesis
  proof (cases r)
    case (Inr v)
    with w assms write_ok show ?thesis by (auto simp: write_file_with_missing_parent_retry_def)
  next
    case (Inl e)
    with w assms(1) have nf: "kind e = NotFound"
      by (auto simp: write_file_with_missing_parent_retry_def split: if_splits)
    have v1: "view ops f1 = view ops f" and s1: "\<not> path_unsupported ops p f1"
      using write_missing [of p t f e f1] write_supported [of p t f r f1 p] w Inl nf assms(2) by auto
    show ?thesis
    proof (cases "parent_of ops p")
      case None
      with w Inl nf assms(1) have "\<exists>v. write_file ops p t f1 = (Inr v, f')"
        by (auto simp: write_file_with_missing_parent_retry_def split: prod.splits sum.splits)
      with write_ok [of p t f1 _ f'] s1 v1 show ?thesis by auto
    next
      case (Some q)
      obtain r2 f2 where m: "create_directory ops q f1 = (r2, f2)" by (metis surj_pair)
      with w Inl nf assms(1) Some have "\<exists>v. write_file ops p t f2 = (Inr v, f')"
        by (auto simp: write_file_with_missing_parent_retry_def split: prod.splits sum.splits)
      with write_ok [of p t f2 _ f'] mkdir [OF m] mkdir_supported [OF m _ s1] Some v1 show ?thesis by auto
    qed
  qed
qed

lemma retry_supported:
  assumes "write_file_with_missing_parent_retry ops d t f = (Inr u, f')" and "\<not> path_unsupported ops p f"
    and "view ops f p \<noteq> None"
  shows "\<not> path_unsupported ops p f'"
proof -
  obtain r f1 where w: "write_file ops d t f = (r, f1)" by (metis surj_pair)
  show ?thesis
  proof (cases r)
    case (Inr v)
    with w assms(1) have "f' = f1" by (simp add: write_file_with_missing_parent_retry_def)
    with write_supported [OF w assms(2)] Inr show ?thesis by simp
  next
    case (Inl e)
    with w assms(1) have nf: "kind e = NotFound"
      by (auto simp: write_file_with_missing_parent_retry_def split: if_splits)
    have s1: "\<not> path_unsupported ops p f1" and v1: "view ops f1 p \<noteq> None"
      using write_supported [OF w assms(2)] write_missing [of d t f e f1] w Inl nf assms(3) by auto
    show ?thesis
    proof (cases "parent_of ops d")
      case None
      with w Inl nf assms(1) have "write_file ops d t f1 = (Inr (), f')"
        by (auto simp: write_file_with_missing_parent_retry_def split: prod.splits sum.splits)
      from write_supported [OF this s1] show ?thesis by simp
    next
      case (Some q)
      obtain r2 f2 where m: "create_directory ops q f1 = (r2, f2)" by (metis surj_pair)
      with w Inl nf assms(1) Some have "write_file ops d t f2 = (Inr (), f')"
        by (auto simp: write_file_with_missing_parent_retry_def split: prod.splits sum.splits)
      from write_supported [OF this mkdir_supported [OF m _ s1]] v1 show ?thesis by simp
    qed
  qed
qed

text \<open>The delta recorded so far, when exact, replays to the present files.\<close>

definition faithful :: "(rstr \<rightharpoonup> rstr) \<Rightarrow> 'f patch_run \<Rightarrow> bool" where
  "faithful v r \<longleftrightarrow> (exact (delta r) \<longrightarrow> view ops (files r) = replay (delta r) v)"

lemma replay_push: "replay (push_change p c d) v = replay_change \<lparr>change_path = p, change = c\<rparr> (replay d v)"
  by (simp add: replay_def push_change_def)

lemma exact_push [simp]: "exact (push_change p c d) = exact d"
  by (simp add: push_change_def)

lemma exact_inexact_if [simp]: "exact (inexact_if b d) \<longleftrightarrow> exact d \<and> \<not> b"
  by (simp add: inexact_if_def)

lemma replay_inexact_if [simp]: "replay (inexact_if b d) v = replay d v"
  by (simp add: inexact_if_def replay_def)

lemma read_optional:
  assumes "read_optional_file_text_for_delta ops p f d = (t, d')"
  shows "replay d' v = replay d v \<and> (exact d' \<longrightarrow> exact d \<and> \<not> path_unsupported ops p f)"
  using assms
  by (auto simp: read_optional_file_text_for_delta_def note_existing_path_delta_support_def replay_def
      inexact_if_def Let_def split: sum.splits if_splits)

lemma apply_add_faithful:
  assumes "apply_add ops p t sp r = (res, r')" and "faithful v r"
  shows "faithful v r'"
proof -
  obtain ov d where o: "read_optional_file_text_for_delta ops p (files r) (delta r) = (ov, d)"
    by (metis surj_pair)
  obtain w f where w: "write_file_with_missing_parent_retry ops p t (files r) = (w, f)" by (metis surj_pair)
  show ?thesis
  proof (cases w)
    case (Inl e)
    with assms(1) o w show ?thesis by (auto simp: apply_add_def faithful_def)
  next
    case (Inr u)
    with assms(1) o w have r': "files r' = f" "delta r' = push_change p (Added t ov) d"
      by (auto simp: apply_add_def)
    show ?thesis
      using read_optional [OF o, of v] retry_ok [of p t "files r" u f] w Inr assms(2)
      by (auto simp: faithful_def r' replay_push)
  qed
qed

lemma apply_in_place_faithful:
  assumes "apply_in_place ops p old t sp r = (res, r')" and "faithful v r"
    and "exact (delta r) \<Longrightarrow> \<not> path_unsupported ops p (files r)"
  shows "faithful v r'"
proof -
  obtain w f where w: "write_file ops p t (files r) = (w, f)" by (metis surj_pair)
  show ?thesis
  proof (cases w)
    case (Inl e)
    with assms(1) w show ?thesis by (auto simp: apply_in_place_def faithful_def)
  next
    case (Inr u)
    with assms(1) w have "files r' = f" "delta r' = push_change p (Updated None old None t) (delta r)"
      by (auto simp: apply_in_place_def mark_modified_def)
    with write_ok [of p t "files r" u f] w Inr assms(2,3) show ?thesis
      by (auto simp: faithful_def replay_push)
  qed
qed

lemma removal_undone:
  assumes "fs_remove ops p f = (Inl e, f')" and "\<not> path_unsupported ops p f"
    and "remove_failure_was_side_effect_free ops p (Some t) f'"
  shows "view ops f' = view ops f"
proof -
  from remove_failed [OF assms(1,2)] have s: "\<not> path_unsupported ops p f'"
    and c: "view ops f' = view ops f \<or> view ops f' = (view ops f)(p := None)" by auto
  have "view ops f' p = Some t"
    using supported_read [OF s] assms(3) by (simp add: remove_failure_was_side_effect_free_def)
  with c show ?thesis by auto
qed

lemma apply_delete_faithful:
  assumes "apply_delete ops p sp r = (res, r')" and "faithful v r"
  shows "faithful v r'"
proof -
  define content where "content = (case read_file_text ops p (files r) of Inr t \<Rightarrow> Some t | Inl _ \<Rightarrow> None)"
  define d where "d = inexact_if (content = None) (note_existing_path_delta_support ops p (files r) (delta r))"
  have u: "apply_delete ops p sp r =
     (case ensure_not_directory ops p (files r) of
        Inl e \<Rightarrow> (Err (FsFailure (lit ''Failed to delete file '' @ p) e), r\<lparr>delta := d\<rparr>)
      | Inr _ \<Rightarrow>
          (case fs_remove ops p (files r) of
             (Inl e, f) \<Rightarrow>
               (Err (FsFailure (lit ''Failed to delete file '' @ p) e), r\<lparr>files := f,
                  delta := inexact_if (\<not> remove_failure_was_side_effect_free ops p content f) d\<rparr>)
           | (Inr _, f) \<Rightarrow>
               (Ok (), r\<lparr>files := f,
                  delta := (case content of Some t \<Rightarrow> push_change p (Deleted t) d | None \<Rightarrow> d),
                  affected := (affected r)\<lparr>deleted := deleted (affected r) @ [sp]\<rparr>\<rparr>)))"
    unfolding apply_delete_def Let_def content_def d_def by (rule refl)
  have d: "replay d v = replay (delta r) v"
    "exact d \<longleftrightarrow> exact (delta r) \<and> \<not> path_unsupported ops p (files r) \<and> content \<noteq> None"
    by (auto simp: d_def note_existing_path_delta_support_def)
  obtain w f where w: "fs_remove ops p (files r) = (w, f)" by (metis surj_pair)
  consider e where "ensure_not_directory ops p (files r) = Inl e"
    | e where "ensure_not_directory ops p (files r) = Inr ()" "w = Inl e"
    | "ensure_not_directory ops p (files r) = Inr ()" "w = Inr ()"
    by (metis (full_types) old.unit.exhaust sumE)
  then show ?thesis
  proof cases
    case 1
    with assms(1) have "files r' = files r" "delta r' = d"
      by (auto simp: u)
    with d assms(2) show ?thesis by (simp add: faithful_def)
  next
    case 2
    with assms(1) w have "files r' = f"
      "delta r' = inexact_if (\<not> remove_failure_was_side_effect_free ops p content f) d"
      by (auto simp: u)
    with d assms(2) removal_undone [of p "files r" _ f] 2(2) w show ?thesis
      by (fastforce simp: faithful_def)
  next
    case 3
    with assms(1) w have "files r' = f"
      "delta r' = (case content of Some t \<Rightarrow> push_change p (Deleted t) d | None \<Rightarrow> d)"
      by (auto simp: u)
    with d assms(2) remove_ok [of p "files r" "()" f] 3(2) w show ?thesis
      by (cases content) (auto simp: faithful_def replay_push)
  qed
qed

lemma apply_move_faithful:
  assumes "apply_move ops p dest old t sp r = (res, r')" and "faithful v r"
    and supported: "exact (delta r) \<Longrightarrow> \<not> path_unsupported ops p (files r)"
    and read: "read_file_text ops p (files r) = Inr old"
  shows "faithful v r'"
proof -
  obtain ov d where o: "read_optional_file_text_for_delta ops dest (files r) (delta r) = (ov, d)"
    by (metis surj_pair)
  note d = read_optional [OF o, of v]
  obtain w f where w: "write_file_with_missing_parent_retry ops dest t (files r) = (w, f)"
    by (metis surj_pair)
  show ?thesis
  proof (cases w)
    case (Inl e)
    with assms(1) o w show ?thesis by (auto simp: apply_move_def faithful_def)
  next
    case (Inr u)
    define d1 where "d1 = push_change dest (Added t ov) d"
    have f: "view ops f = (replay (delta r) v)(dest \<mapsto> t) \<and> \<not> path_unsupported ops p f" if "exact d"
    proof -
      from that d have x: "exact (delta r)" "\<not> path_unsupported ops dest (files r)" by auto
      have "view ops f = (view ops (files r))(dest \<mapsto> t)"
        using retry_ok w Inr x(2) by blast
      moreover have "\<not> path_unsupported ops p f"
        using retry_supported [of dest t "files r" u f p] w Inr supported x(1) supported_read read by auto
      ultimately show ?thesis using assms(2) x(1) by (simp add: faithful_def)
    qed
    obtain w2 f2 where w2: "fs_remove ops p f = (w2, f2)" by (metis surj_pair)
    consider e where "ensure_not_directory ops p f = Inl e"
      | e where "ensure_not_directory ops p f = Inr ()" "w2 = Inl e"
      | "ensure_not_directory ops p f = Inr ()" "w2 = Inr ()"
      by (metis (full_types) old.unit.exhaust sumE)
    then show ?thesis
    proof cases
      case 1
      with assms(1) o w Inr have "files r' = f" "delta r' = d1" by (auto simp: apply_move_def d1_def)
      with f d show ?thesis by (auto simp: faithful_def d1_def replay_push)
    next
      case 2
      with assms(1) o w Inr w2 have "files r' = f2"
        "delta r' = inexact_if (\<not> remove_failure_was_side_effect_free ops p (Some old) f2) d1"
        by (auto simp: apply_move_def d1_def)
      with f d removal_undone [of p f _ f2 old] 2(2) w2 show ?thesis
        by (auto simp: faithful_def d1_def replay_push)
    next
      case 3
      with assms(1) o w Inr w2 have "files r' = f2"
        "delta r' = push_change p (Updated (Some dest) old ov t) d"
        by (auto simp: apply_move_def mark_modified_def)
      with f d remove_ok [of p f "()" f2] 3(2) w2 show ?thesis
        by (auto simp: faithful_def replay_push)
    qed
  qed
qed

lemma apply_update_faithful:
  assumes "apply_update ops resolve p mv chunks sp r = (res, r')" and "faithful v r"
  shows "faithful v r'"
proof -
  define r1 where "r1 = r\<lparr>delta := note_existing_path_delta_support ops p (files r) (delta r)\<rparr>"
  have r1: "faithful v r1" "exact (delta r1) \<Longrightarrow> \<not> path_unsupported ops p (files r1)"
    using assms(2) by (auto simp: r1_def faithful_def note_existing_path_delta_support_def)
  show ?thesis
  proof (cases "derive_new_contents_from_chunks ops p chunks (files r1)")
    case (Inl e)
    with assms(1) r1(1) show ?thesis by (auto simp: apply_update_def Let_def r1_def)
  next
    case (Inr q)
    obtain old t where q: "q = (old, t)" by (cases q)
    with Inr have read: "read_file_text ops p (files r1) = Inr old"
      by (auto simp: derive_new_contents_from_chunks_def and_then_Ok_iff split: sum.splits io_error.splits)
    have u: "apply_update ops resolve p mv chunks sp r =
       (case mv of
          None \<Rightarrow> apply_in_place ops p old t sp r1
        | Some dest \<Rightarrow>
            (case resolve dest of
               Inl e \<Rightarrow> (Err (OtherFailure e), r1)
             | Inr dest \<Rightarrow> apply_move ops p dest old t sp r1))"
      using Inr q unfolding apply_update_def Let_def r1_def [symmetric] by simp
    show ?thesis
    proof (cases mv)
      case None
      with u assms(1) apply_in_place_faithful [OF _ r1] show ?thesis by simp
    next
      case (Some dest)
      with u assms(1) apply_move_faithful [OF _ r1 read] r1(1) show ?thesis
        by (cases "resolve dest") auto
    qed
  qed
qed

lemma apply_hunk_faithful:
  assumes "apply_hunk ops resolve h r = (res, r')" and "faithful v r"
  shows "faithful v r'"
proof (cases "resolve (hunk_source h)")
  case (Inl e)
  with assms show ?thesis by (simp add: apply_hunk_def)
next
  case (Inr p)
  with assms apply_add_faithful apply_delete_faithful apply_update_faithful show ?thesis
    by (cases h) (auto simp: apply_hunk_def)
qed

lemma apply_each_faithful:
  "apply_each ops resolve hs r = (res, r') \<Longrightarrow> faithful v r \<Longrightarrow> faithful v r'"
proof (induction hs arbitrary: r)
  case (Cons h hs)
  obtain w r1 where h: "apply_hunk ops resolve h r = (w, r1)" by (metis surj_pair)
  from apply_hunk_faithful [OF h Cons.prems(2)] Cons.IH [of r1] Cons.prems(1) h show ?case
    by (cases w) auto
qed simp

lemma delta_faithful:
  assumes "exact (final_delta (apply_patch ops resolve patch f))"
  shows "view ops (final_files (apply_patch ops resolve patch f))
     = replay (final_delta (apply_patch ops resolve patch f)) (view ops f)"
proof (cases "parse_patch patch")
  case (Inl e)
  then show ?thesis by (simp add: apply_patch_def replay_def delta_empty_def)
next
  case (Inr args)
  obtain res r where r: "apply_hunks_to_files ops resolve (args_hunks args) f = (res, r)"
    by (metis surj_pair)
  have start: "faithful (view ops f) (run_start f)"
    by (simp add: faithful_def run_start_def replay_def delta_empty_def)
  have "faithful (view ops f) r"
    using r start apply_each_faithful [of resolve "args_hunks args" "run_start f" res r "view ops f"]
    by (auto simp: apply_hunks_to_files_def split: if_splits)
  moreover have "final_files (apply_patch ops resolve patch f) = files r"
    "final_delta (apply_patch ops resolve patch f) = delta r"
    using Inr r by (auto simp: apply_patch_def apply_hunks_def split: sum.splits)
  ultimately show ?thesis using assms by (simp add: faithful_def)
qed

end

section \<open>A store that satisfies the contract\<close>

datatype node = RegularFile rstr | DirectoryNode | SymlinkNode rstr

record mem_fs =
  nodes :: "rstr \<rightharpoonup> node"
  writes_left :: nat

definition mem_metadata :: "rstr \<Rightarrow> mem_fs \<Rightarrow> (io_error, metadata) result" where
  "mem_metadata p f =
     (case nodes f p of
        None \<Rightarrow> Err (IoError NotFound (lit ''not found''))
      | Some (RegularFile t) \<Rightarrow> Ok \<lparr>is_file = True, is_directory = False, is_symlink = False\<rparr>
      | Some DirectoryNode \<Rightarrow> Ok \<lparr>is_file = False, is_directory = True, is_symlink = False\<rparr>
      | Some (SymlinkNode q) \<Rightarrow> Ok \<lparr>is_file = True, is_directory = False, is_symlink = True\<rparr>)"

definition mem_target :: "rstr \<Rightarrow> mem_fs \<Rightarrow> rstr" where
  "mem_target p f = (case nodes f p of Some (SymlinkNode q) \<Rightarrow> q | _ \<Rightarrow> p)"

definition mem_read :: "rstr \<Rightarrow> mem_fs \<Rightarrow> (io_error, rstr) result" where
  "mem_read p f =
     (case nodes f (mem_target p f) of
        Some (RegularFile t) \<Rightarrow> Ok t
      | Some _ \<Rightarrow> Err (IoError OtherKind (lit ''is a directory''))
      | None \<Rightarrow> Err (IoError NotFound (lit ''not found'')))"

definition mem_put :: "rstr \<Rightarrow> rstr \<Rightarrow> mem_fs \<Rightarrow> mem_fs" where
  "mem_put p t f = f\<lparr>nodes := (nodes f)(mem_target p f \<mapsto> RegularFile t)\<rparr>"

text \<open>A write without space left truncates the file before it fails.\<close>

definition mem_write :: "rstr \<Rightarrow> rstr \<Rightarrow> mem_fs \<Rightarrow> mem_fs mutation" where
  "mem_write p t f =
     (case rsplit_once p 47 of
        Some (q, _) \<Rightarrow>
          if nodes f q \<noteq> Some DirectoryNode then (Err (IoError NotFound (lit ''no directory'')), f)
          else if nodes f (mem_target p f) = Some DirectoryNode
          then (Err (IoError OtherKind (lit ''is a directory'')), f)
          else if writes_left f = 0 then (Err (IoError OtherKind (lit ''no space'')), mem_put p [] f)
          else (Ok (), (mem_put p t f)\<lparr>writes_left := writes_left f - 1\<rparr>)
      | None \<Rightarrow>
          if nodes f (mem_target p f) = Some DirectoryNode
          then (Err (IoError OtherKind (lit ''is a directory'')), f)
          else if writes_left f = 0 then (Err (IoError OtherKind (lit ''no space'')), mem_put p [] f)
          else (Ok (), (mem_put p t f)\<lparr>writes_left := writes_left f - 1\<rparr>))"

definition ancestors :: "rstr \<Rightarrow> rstr list" where
  "ancestors q = map (\<lambda>k. take k q) (filter (\<lambda>k. k = length q \<or> q ! k = 47) [0..<Suc (length q)])"

definition mem_mkdir :: "rstr \<Rightarrow> mem_fs \<Rightarrow> mem_fs mutation" where
  "mem_mkdir q f =
     (if list_all (\<lambda>x. nodes f x \<in> {None, Some DirectoryNode}) (ancestors q)
      then (Ok (), f\<lparr>nodes := (\<lambda>x. if x \<in> set (ancestors q) then Some DirectoryNode else nodes f x)\<rparr>)
      else (Err (IoError OtherKind (lit ''not a directory'')), f))"

definition mem_remove :: "rstr \<Rightarrow> mem_fs \<Rightarrow> mem_fs mutation" where
  "mem_remove p f =
     (case nodes f p of
        None \<Rightarrow> (Err (IoError NotFound (lit ''not found'')), f)
      | Some DirectoryNode \<Rightarrow> (Err (IoError OtherKind (lit ''is a directory'')), f)
      | Some _ \<Rightarrow> (Ok (), f\<lparr>nodes := (nodes f)(p := None)\<rparr>))"

definition mem_ops :: "mem_fs fs_ops" where
  "mem_ops =
     \<lparr>read_file_text = mem_read, write_file = mem_write, create_directory = mem_mkdir, fs_remove = mem_remove,
      get_metadata = mem_metadata, parent_of = (\<lambda>p. map_option fst (rsplit_once p 47))\<rparr>"

lemma mem_ops_simps [simp]:
  "read_file_text mem_ops = mem_read" "write_file mem_ops = mem_write" "create_directory mem_ops = mem_mkdir"
  "fs_remove mem_ops = mem_remove" "get_metadata mem_ops = mem_metadata"
  "parent_of mem_ops p = map_option fst (rsplit_once p 47)"
  by (simp_all add: mem_ops_def)

lemma mem_view: "view mem_ops f p = (case nodes f p of Some (RegularFile t) \<Rightarrow> Some t | _ \<Rightarrow> None)"
  by (auto simp: view_def mem_metadata_def mem_read_def mem_target_def split: option.splits node.splits)

lemma mem_supported:
  "\<not> path_unsupported mem_ops p f \<longleftrightarrow> nodes f p = None \<or> (\<exists>t. nodes f p = Some (RegularFile t))"
  by (auto simp: path_unsupported_def mem_metadata_def split: option.splits node.splits)

lemma mem_write_cases:
  assumes "mem_write p t f = (r, f')"
  shows "(\<exists>e. r = Inl e \<and> f' = f)
    \<or> (\<exists>e. r = Inl e \<and> kind e = OtherKind) \<or> (r = Inr () \<and> nodes f' = (nodes f)(mem_target p f \<mapsto> RegularFile t))"
  using assms by (auto simp: mem_write_def mem_put_def split: option.splits if_splits)

lemma rsplit_once_Some: "rsplit_once s d = Some (a, b) \<Longrightarrow> s = a @ d # b"
proof -
  assume "rsplit_once s d = Some (a, b)"
  then obtain x y where xy: "split_once (rev s) d = Some (x, y)" "a = rev y" "b = rev x"
    by (auto simp: rsplit_once_def)
  then have "d \<in> set s" "x = takeWhile (\<lambda>c. c \<noteq> d) (rev s)" "y = tl (dropWhile (\<lambda>c. c \<noteq> d) (rev s))"
    by (auto simp: split_once_def split: if_splits)
  moreover from this(1) have "dropWhile (\<lambda>c. c \<noteq> d) (rev s) = d # tl (dropWhile (\<lambda>c. c \<noteq> d) (rev s))"
    by (metis (mono_tags, lifting) dropWhile_eq_Nil_conv hd_dropWhile list.collapse set_rev)
  ultimately have "rev s = x @ d # y" by (metis takeWhile_dropWhile_id)
  with xy show ?thesis by (metis append.assoc append_Cons append_Nil rev.simps(2) rev_append rev_rev_ident)
qed

lemma ancestor_length: "x \<in> set (ancestors q) \<Longrightarrow> length x \<le> length q"
  by (auto simp: ancestors_def)

interpretation mem: file_system mem_ops
proof unfold_locales
  fix p t u f f'
  assume "write_file mem_ops p t f = (Inr u, f')" "\<not> path_unsupported mem_ops p f"
  then show "view mem_ops f' = (view mem_ops f)(p \<mapsto> t)"
    using mem_write_cases [of p t f "Inr u" f']
    by (auto simp: fun_eq_iff mem_view mem_supported mem_target_def)
next
  fix p t e f f'
  assume "write_file mem_ops p t f = (Inl e, f')" "kind e = NotFound"
  then show "view mem_ops f' = view mem_ops f"
    using mem_write_cases [of p t f "Inl e" f'] by auto
next
  fix p t f r f' q and u :: unit
  assume "write_file mem_ops p t f = (r, f')" "\<not> path_unsupported mem_ops q f"
    "r = Inr u \<or> kind (projl r) = NotFound"
  then show "\<not> path_unsupported mem_ops q f'"
    using mem_write_cases [of p t f r f'] by (cases "q = mem_target p f") (auto simp: mem_supported)
next
  fix q f r f'
  assume "create_directory mem_ops q f = (r, f')"
  then show "view mem_ops f' = view mem_ops f"
    by (fastforce simp: fun_eq_iff mem_view mem_mkdir_def list_all_iff split: if_splits option.splits)
next
  fix q f r f' p
  assume m: "create_directory mem_ops q f = (r, f')" and s: "\<not> path_unsupported mem_ops p f"
    and p: "parent_of mem_ops p = Some q \<or> view mem_ops f p \<noteq> None"
  have "p \<in> set (ancestors q) \<Longrightarrow> list_all (\<lambda>x. nodes f x \<in> {None, Some DirectoryNode}) (ancestors q) \<Longrightarrow> False"
    using p ancestor_length [of p q] rsplit_once_Some [of p 47 q]
    by (auto simp: mem_view list_all_iff split: option.splits node.splits)
  with m s show "\<not> path_unsupported mem_ops p f'"
    by (auto simp: mem_supported mem_mkdir_def split: if_splits)
next
  fix p u f f'
  assume "fs_remove mem_ops p f = (Inr u, f')" "\<not> path_unsupported mem_ops p f"
  then show "view mem_ops f' = (view mem_ops f)(p := None)"
    by (auto simp: fun_eq_iff mem_view mem_remove_def split: option.splits node.splits if_splits)
next
  fix p e f f'
  assume "fs_remove mem_ops p f = (Inl e, f')" "\<not> path_unsupported mem_ops p f"
  then show "\<not> path_unsupported mem_ops p f'
      \<and> (view mem_ops f' = view mem_ops f \<or> view mem_ops f' = (view mem_ops f)(p := None))"
    by (auto simp: mem_remove_def split: option.splits node.splits)
next
  fix p f e t
  assume "get_metadata mem_ops p f = Inl e"
  then show "read_file_text mem_ops p f \<noteq> Inr t"
    by (auto simp: mem_metadata_def mem_read_def mem_target_def split: option.splits node.splits)
qed

section \<open>Properties of patch application\<close>

text \<open>
  C1. The delta reported for a patch is the truth when it is marked exact: whatever happened
  (success, a parse error, or a file system error half way), replaying the reported changes on the
  regular files before the run gives exactly the regular files after it.
\<close>

theorem exact_delta_replays:
  assumes "file_system ops" and "exact (final_delta (apply_patch ops resolve patch f))"
  shows "view ops (final_files (apply_patch ops resolve patch f))
     = replay (final_delta (apply_patch ops resolve patch f)) (view ops f)"
  by (rule file_system.delta_faithful [OF assms])

definition mem_sample :: mem_fs where
  "mem_sample = \<lparr>nodes = [lit ''b'' \<mapsto> RegularFile (lit ''x'')], writes_left = 1\<rparr>"

lemma delete_sample:
  "apply_patch mem_ops Ok (render_patch [DeleteFile (lit ''b'')]) mem_sample =
     \<lparr>outcome = Ok (), final_delta = \<lparr>changes = [\<lparr>change_path = lit ''b'', change = Deleted (lit ''x'')\<rparr>], exact = True\<rparr>,
      final_files = mem_sample\<lparr>nodes := Map.empty\<rparr>,
      stdout = print_summary \<lparr>added = [], modified = [], deleted = [lit ''b'']\<rparr>, stderr = []\<rparr>"
proof -
  have "list_all hunk_ok [DeleteFile (lit ''b'')]"
    by (simp add: path_ok_def lit_def is_whitespace_def)
  from parse_rendered [OF this] show ?thesis
    by (simp add: apply_patch_def apply_hunks_def apply_hunks_to_files_def run_start_def apply_hunk_def
        apply_delete_def note_existing_path_delta_support_def path_unsupported_def mem_metadata_def
        mem_sample_def mem_read_def mem_target_def inexact_if_def ensure_not_directory_def mem_remove_def
        push_change_def delta_empty_def Let_def)
qed

theorem exact_delta_replays_witness:
  "let out = apply_patch mem_ops Ok (render_patch [DeleteFile (lit ''b'')]) mem_sample in
   exact (final_delta out) \<and> view mem_ops (final_files out) = replay (final_delta out) (view mem_ops mem_sample)"
proof -
  let ?out = "apply_patch mem_ops Ok (render_patch [DeleteFile (lit ''b'')]) mem_sample"
  have e: "exact (final_delta ?out)" by (simp add: delete_sample)
  from exact_delta_replays [OF mem.file_system_axioms e] e show ?thesis by (simp add: Let_def)
qed

text \<open>
  A rename onto the file itself removes the file: the destination is written, then the source is
  removed, and both are the same path.
\<close>

lemma rename_onto_itself_deletes:
  "\<exists>r'. apply_move mem_ops (lit ''b'') (lit ''b'') (lit ''x'') (lit ''y'') (lit ''b'') (run_start mem_sample)
       = (Ok (), r') \<and> view mem_ops (files r') (lit ''b'') = None"
proof -
  have "rsplit_once (lit ''b'') 47 = None" by (simp add: rsplit_once_def split_once_def lit_def)
  then show ?thesis
    by (simp add: apply_move_def read_optional_file_text_for_delta_def note_existing_path_delta_support_def
        path_unsupported_def mem_metadata_def mem_sample_def mem_read_def mem_target_def inexact_if_def
        write_file_with_missing_parent_retry_def mem_write_def mem_put_def ensure_not_directory_def
        mem_remove_def run_start_def mark_modified_def Let_def mem_view)
qed

end
