(* ===== verification/Stream_Text.thy ===== *)
theory Stream_Text
  imports Rust_Text
begin

text \<open>
  Streaming text parsers of codex-rs/utils/stream-parser: the trait \<open>StreamTextParser\<close> as a
  locale (stream_text.rs), the parser that hides inline tags (inline_hidden_tag.rs) and the
  citation parser built on it (citation.rs). A parser gets a text in chunks of any size; the
  theorems say that the cutting does not matter. Offsets into a text are counted in chars: every
  byte offset the code computes is at a char boundary. A push that panics or does not return is
  \<open>None\<close>.
\<close>

section \<open>Chunks and the parser trait\<close>

record 'e stream_text_chunk =
  visible_text :: rstr
  extracted :: "'e list"

definition chunk_default :: "'e stream_text_chunk" where
  "chunk_default = \<lparr>visible_text = [], extracted = []\<rparr>"

definition chunk_is_empty :: "'e stream_text_chunk \<Rightarrow> bool" where
  "chunk_is_empty c \<longleftrightarrow> visible_text c = [] \<and> extracted c = []"

definition chunk_append :: "'e stream_text_chunk \<Rightarrow> 'e stream_text_chunk \<Rightarrow> 'e stream_text_chunk" where
  "chunk_append c d =
     \<lparr>visible_text = visible_text c @ visible_text d, extracted = extracted c @ extracted d\<rparr>"

lemma chunk_simps [simp]:
  "visible_text chunk_default = []" "extracted chunk_default = []"
  "visible_text (chunk_append c d) = visible_text c @ visible_text d"
  "extracted (chunk_append c d) = extracted c @ extracted d"
  by (simp_all add: chunk_default_def chunk_append_def)

lemma chunk_append_monoid [simp]:
  "chunk_append chunk_default c = c" "chunk_append c chunk_default = c"
  "chunk_append (chunk_append c d) e = chunk_append c (chunk_append d e)"
  by (simp_all add: chunk_default_def chunk_append_def)

text \<open>Feeding a list of chunks and collecting what comes out.\<close>

fun push_all ::
  "('p \<Rightarrow> rstr \<Rightarrow> ('e stream_text_chunk \<times> 'p) option) \<Rightarrow> 'p \<Rightarrow> rstr list
     \<Rightarrow> ('e stream_text_chunk \<times> 'p) option" where
  "push_all push p [] = Some (chunk_default, p)"
| "push_all push p (s # ss) =
     (case push p s of
        None \<Rightarrow> None
      | Some (c, p) \<Rightarrow> map_option (\<lambda>(d, p). (chunk_append c d, p)) (push_all push p ss))"

text \<open>
  What the code relies on: in every state a parser can be in, a push returns, an empty push does
  nothing, and two pushes do what one push of the joined text does. The extracted payloads agree
  up to \<open>flat\<close>, which joins neighbouring pieces where a parser reports a text in pieces.
\<close>

locale stream_text_parser =
  fixes push_str :: "'p \<Rightarrow> rstr \<Rightarrow> ('e stream_text_chunk \<times> 'p) option"
    and parser_ok :: "'p \<Rightarrow> bool"
    and flat :: "'e list \<Rightarrow> 'o"
  assumes push_returns: "parser_ok p \<Longrightarrow> \<exists>c q. push_str p s = Some (c, q) \<and> parser_ok q"
    and push_empty: "parser_ok p \<Longrightarrow> push_str p [] = Some (chunk_default, p)"
    and push_twice: "parser_ok p \<Longrightarrow> push_str p s = Some (c, q) \<Longrightarrow> push_str q t = Some (d, r) \<Longrightarrow>
      \<exists>e. push_str p (s @ t) = Some (e, r) \<and> visible_text e = visible_text c @ visible_text d
        \<and> flat (extracted e) = flat (extracted c @ extracted d)"
    and flat_append: "flat xs = flat xs' \<Longrightarrow> flat ys = flat ys' \<Longrightarrow> flat (xs @ ys) = flat (xs' @ ys')"
begin

lemma push_ok: "parser_ok p \<Longrightarrow> push_str p s = Some (c, q) \<Longrightarrow> parser_ok q"
  using push_returns [of p s] by auto

lemma push_all_joined:
  assumes "parser_ok p"
  shows "\<exists>c q e. push_all push_str p ss = Some (c, q) \<and> push_str p (concat ss) = Some (e, q)
    \<and> parser_ok q \<and> visible_text e = visible_text c \<and> flat (extracted e) = flat (extracted c)"
  using assms
proof (induction ss arbitrary: p)
  case Nil
  then show ?case by (simp add: push_empty)
next
  case (Cons s ss)
  from push_returns [OF Cons.prems, of s] obtain c1 p1 where
    p1: "push_str p s = Some (c1, p1)" "parser_ok p1" by blast
  from Cons.IH [OF p1(2)] obtain c2 q e2 where
    q: "push_all push_str p1 ss = Some (c2, q)" "push_str p1 (concat ss) = Some (e2, q)" "parser_ok q"
      "visible_text e2 = visible_text c2" "flat (extracted e2) = flat (extracted c2)" by blast
  from push_twice [OF Cons.prems p1(1) q(2)] obtain e where
    e: "push_str p (s @ concat ss) = Some (e, q)" "visible_text e = visible_text c1 @ visible_text e2"
      "flat (extracted e) = flat (extracted c1 @ extracted e2)" by blast
  have "flat (extracted c1 @ extracted e2) = flat (extracted c1 @ extracted c2)"
    by (rule flat_append [OF refl q(5)])
  with p1 q e show ?case by simp
qed

end

section \<open>Inline hidden tags\<close>

record 't inline_tag_spec =
  spec_tag :: 't
  spec_open :: rstr
  spec_close :: rstr

record 't extracted_inline_tag =
  ext_tag :: 't
  ext_content :: rstr

record 't active_tag =
  act_tag :: 't
  act_close :: rstr
  act_content :: rstr

record 't inline_hidden_tag_parser =
  ip_specs :: "'t inline_tag_spec list"
  ip_pending :: rstr
  ip_active :: "'t active_tag option"

text \<open>The constructor with its three assertions.\<close>

definition inline_new :: "'t inline_tag_spec list \<Rightarrow> 't inline_hidden_tag_parser option" where
  "inline_new specs =
     (if specs \<noteq> [] \<and> list_all (\<lambda>sp. spec_open sp \<noteq> [] \<and> spec_close sp \<noteq> []) specs
      then Some \<lparr>ip_specs = specs, ip_pending = [], ip_active = None\<rparr> else None)"

definition longest_suffix_prefix_len :: "rstr \<Rightarrow> rstr \<Rightarrow> nat" where
  "longest_suffix_prefix_len s needle =
     (let m = min (length s) (length needle - 1)
      in case find (\<lambda>k. ends_with s (take k needle)) (rev [1..<Suc m]) of Some k \<Rightarrow> k | None \<Rightarrow> 0)"

text \<open>
  The next opening delimiter: the first position, there the longest delimiter, there the first
  specification. A candidate is the text before, the text from the delimiter on, and its
  specification.
\<close>

type_synonym 't open_candidate = "rstr \<times> rstr \<times> 't inline_tag_spec"

definition open_candidates :: "'t inline_tag_spec list \<Rightarrow> rstr \<Rightarrow> 't open_candidate list" where
  "open_candidates specs pending =
     List.map_filter (\<lambda>sp. map_option (\<lambda>(a, b). (a, b, sp)) (find_sub pending (spec_open sp))) specs"

definition opens_before :: "'t open_candidate \<Rightarrow> 't open_candidate \<Rightarrow> bool" where
  "opens_before x y =
     (case (x, y) of ((a, _, sp), (a', _, sp')) \<Rightarrow>
        len a < len a' \<or> len a = len a' \<and> len (spec_open sp') < len (spec_open sp))"

fun min_open :: "'t open_candidate list \<Rightarrow> 't open_candidate option" where
  "min_open [] = None"
| "min_open (x # xs) =
     (case min_open xs of None \<Rightarrow> Some x | Some y \<Rightarrow> Some (if opens_before y x then y else x))"

definition find_next_open :: "'t inline_tag_spec list \<Rightarrow> rstr \<Rightarrow> 't open_candidate option" where
  "find_next_open specs pending = min_open (open_candidates specs pending)"

definition max_open_prefix_suffix_len :: "'t inline_tag_spec list \<Rightarrow> rstr \<Rightarrow> nat" where
  "max_open_prefix_suffix_len specs pending =
     foldr max (map (\<lambda>sp. longest_suffix_prefix_len pending (spec_open sp)) specs) 0"

text \<open>The text split before its last \<open>keep\<close> chars.\<close>

definition split_keep :: "rstr \<Rightarrow> nat \<Rightarrow> rstr \<times> rstr" where
  "split_keep s keep = (take (length s - keep) s, drop (length s - keep) s)"

definition push_visible_prefix :: "'e stream_text_chunk \<Rightarrow> rstr \<Rightarrow> 'e stream_text_chunk" where
  "push_visible_prefix out s = (if s \<noteq> [] then out\<lparr>visible_text := visible_text out @ s\<rparr> else out)"

definition push_extracted :: "'e stream_text_chunk \<Rightarrow> 'e \<Rightarrow> 'e stream_text_chunk" where
  "push_extracted out x = out\<lparr>extracted := extracted out @ [x]\<rparr>"

partial_function (option) drain_tags ::
  "'t inline_tag_spec list \<Rightarrow> 't active_tag option \<Rightarrow> rstr \<Rightarrow> 't extracted_inline_tag stream_text_chunk
     \<Rightarrow> ('t active_tag option \<times> rstr \<times> 't extracted_inline_tag stream_text_chunk) option" where
  "drain_tags specs active pending out =
     (case active of
        Some a \<Rightarrow>
          (case find_sub pending (act_close a) of
             Some (before, rest) \<Rightarrow>
               drain_tags specs None (drop (length (act_close a)) rest)
                 (push_extracted out \<lparr>ext_tag = act_tag a, ext_content = act_content a @ before\<rparr>)
           | None \<Rightarrow>
               (let (taken, kept) = split_keep pending (longest_suffix_prefix_len pending (act_close a))
                in Some (Some (a\<lparr>act_content := act_content a @ taken\<rparr>), kept, out)))
      | None \<Rightarrow>
          (case find_next_open specs pending of
             Some (before, rest, sp) \<Rightarrow>
               drain_tags specs
                 (Some \<lparr>act_tag = spec_tag sp, act_close = spec_close sp, act_content = []\<rparr>)
                 (drop (length (spec_open sp)) rest) (push_visible_prefix out before)
           | None \<Rightarrow>
               (let (taken, kept) = split_keep pending (max_open_prefix_suffix_len specs pending)
                in Some (None, kept, push_visible_prefix out taken))))"

definition inline_push_str ::
  "'t inline_hidden_tag_parser \<Rightarrow> rstr
     \<Rightarrow> ('t extracted_inline_tag stream_text_chunk \<times> 't inline_hidden_tag_parser) option" where
  "inline_push_str p chunk =
     map_option (\<lambda>(active, pending, out). (out, p\<lparr>ip_pending := pending, ip_active := active\<rparr>))
       (drain_tags (ip_specs p) (ip_active p) (ip_pending p @ chunk) chunk_default)"

definition inline_finish ::
  "'t inline_hidden_tag_parser
     \<Rightarrow> 't extracted_inline_tag stream_text_chunk \<times> 't inline_hidden_tag_parser" where
  "inline_finish p =
     (case ip_active p of
        Some a \<Rightarrow>
          (push_extracted chunk_default \<lparr>ext_tag = act_tag a, ext_content = act_content a @ ip_pending p\<rparr>,
           p\<lparr>ip_active := None, ip_pending := []\<rparr>)
      | None \<Rightarrow>
          (chunk_default\<lparr>visible_text := ip_pending p\<rparr>, p\<lparr>ip_pending := []\<rparr>))"

section \<open>Held-back suffixes\<close>

lemma find_sub_append: "find_sub s p = Some (a, b) \<Longrightarrow> find_sub (s @ t) p = Some (a, b @ t)"
proof (induction s p arbitrary: a b rule: find_sub.induct)
  case (1 p)
  then show ?case by (cases t) (auto split: if_splits)
next
  case (2 c s p)
  have "starts_with (c # s) p \<Longrightarrow> starts_with (c # s @ t) p"
    by (metis append_Cons append_assoc starts_with_iff)
  moreover have "starts_with (c # s @ t) p \<Longrightarrow> \<not> starts_with (c # s) p \<Longrightarrow> find_sub s p = None"
  proof (rule ccontr)
    assume st: "starts_with (c # s @ t) p" "\<not> starts_with (c # s) p" and "find_sub s p \<noteq> None"
    then obtain a b where "s = a @ p @ b" by (auto simp: find_sub_None)
    then have "length p \<le> length s" by simp
    with st(1) have "take (length p) (c # s) = p" by (simp add: starts_with_def take_Cons' split: if_splits)
    with st(2) show False by (simp add: starts_with_def)
  qed
  ultimately show ?case using 2 by (auto split: if_splits)
qed

lemma append_eq_split: "a @ b = c @ d \<Longrightarrow> length a \<le> length c \<Longrightarrow> \<exists>u. c = a @ u \<and> b = u @ d"
  by (auto simp: append_eq_append_conv2)

text \<open>
  \<open>y\<close> can be given away from a pending text \<open>y @ x\<close> when the delimiter \<open>n\<close> does not occur in
  it and no end of it longer than \<open>x\<close> starts the delimiter.
\<close>

definition releasable :: "rstr \<Rightarrow> rstr \<Rightarrow> rstr \<Rightarrow> bool" where
  "releasable n y x \<longleftrightarrow>
     find_sub (y @ x) n = None \<and> (\<forall>u v. y = u @ v \<longrightarrow> v \<noteq> [] \<longrightarrow> \<not> (\<exists>w. n = v @ x @ w))"

lemma releasable_ConsD: "releasable n (c # y) x \<Longrightarrow> releasable n y x"
  unfolding releasable_def find_sub_None by (metis append_Cons)

lemma find_sub_release:
  "releasable n y x \<Longrightarrow> find_sub (y @ x @ t) n = map_option (\<lambda>(a, b). (y @ a, b)) (find_sub (x @ t) n)"
proof (induction y)
  case Nil
  show ?case by (simp add: option.map_ident)
next
  case (Cons c y)
  have "\<not> starts_with (c # y @ x @ t) n"
  proof
    assume "starts_with (c # y @ x @ t) n"
    then obtain r where r: "(c # y @ x) @ t = n @ r" by (auto simp: starts_with_iff)
    from append_eq_append_conv2 [THEN iffD1, OF r]
    consider u where "c # y @ x = n @ u" | u where "n = (c # y) @ x @ u" by auto
    then show False
    proof cases
      case 1
      with Cons.prems show False by (auto simp: releasable_def find_sub_None)
    next
      case 2
      with Cons.prems show False unfolding releasable_def by blast
    qed
  qed
  moreover have "map_option (\<lambda>(a, b). (c # a, b)) (map_option (\<lambda>(a, b). (y @ a, b)) r)
      = map_option (\<lambda>(a, b). (c # y @ a, b)) r" for r :: "(rstr \<times> rstr) option"
    by (cases r) auto
  ultimately show ?case using Cons.IH [OF releasable_ConsD [OF Cons.prems]] by simp
qed

lemma ends_with_release:
  assumes "releasable n y x" "k < length n"
  shows "ends_with (y @ x @ t) (take k n) \<longleftrightarrow> ends_with (x @ t) (take k n)"
proof
  assume "ends_with (y @ x @ t) (take k n)"
  then obtain u where u: "y @ (x @ t) = u @ take k n" by (auto simp: ends_with_iff)
  from append_eq_append_conv2 [THEN iffD1, OF u]
  consider v where "u = y @ v" | v where "y = u @ v" "v \<noteq> []" "take k n = v @ x @ t"
    by (metis append_Nil2)
  then show "ends_with (x @ t) (take k n)"
  proof cases
    case 1
    with u show ?thesis by (auto simp: ends_with_iff)
  next
    case 2
    then have "n = v @ x @ t @ drop k n" by (metis append.assoc append_take_drop_id)
    with 2 assms(1) show ?thesis unfolding releasable_def by blast
  qed
next
  assume "ends_with (x @ t) (take k n)"
  then show "ends_with (y @ x @ t) (take k n)" by (auto simp: ends_with_iff)
qed

lemma longest_suffix_prefix_len_alt:
  "longest_suffix_prefix_len s n
     = (case find (\<lambda>k. ends_with s (take k n)) (rev [1..<length n]) of Some k \<Rightarrow> k | None \<Rightarrow> 0)"
proof (cases "length s < length n - 1")
  case True
  have "[1..<length n] = [1..<Suc (length s)] @ [Suc (length s)..<length n]"
  proof -
    from True obtain k where "length n = Suc (length s) + k" by (metis less_diff_conv less_imp_add_positive add.commute plus_1_eq_Suc add_Suc_right)
    then show ?thesis using upt_add_eq_append [of 1 "Suc (length s)" k] by (simp del: upt_Suc)
  qed
  moreover have "find (\<lambda>k. ends_with s (take k n)) (rev [Suc (length s)..<length n]) = None"
    by (auto simp: find_None_iff ends_with_def)
  moreover have "find P (xs @ ys) = (case find P xs of None \<Rightarrow> find P ys | r \<Rightarrow> r)" for P and xs ys :: "nat list"
    by (induction xs) auto
  ultimately show ?thesis using True
    by (simp add: longest_suffix_prefix_len_def del: upt_Suc)
next
  case False
  then have "min (length s) (length n - 1) = length n - 1" by simp
  moreover have "[1..<Suc (length n - 1)] = [1..<length n]" by (cases n) auto
  ultimately show ?thesis by (simp add: longest_suffix_prefix_len_def Let_def del: upt_Suc)
qed

lemma find_rev_upt_eq:
  "(case find P (rev [1..<m]) of Some k \<Rightarrow> k | None \<Rightarrow> 0) = Max (insert 0 {k. P k \<and> 0 < k \<and> k < m})"
proof (induction m)
  case (Suc m)
  show ?case
  proof (cases "1 \<le> m \<and> P m")
    case True
    then have "Max (insert 0 {k. P k \<and> 0 < k \<and> k < Suc m}) = m" by (intro Max_eqI) auto
    with True show ?thesis by simp
  next
    case False
    then have "{k. P k \<and> 0 < k \<and> k < Suc m} = {k. P k \<and> 0 < k \<and> k < m}" by (auto simp: less_Suc_eq)
    moreover have "find P (rev [1..<Suc m]) = find P (rev [1..<m])" using False by auto
    ultimately show ?thesis using Suc by (simp only:)
  qed
qed simp

lemma longest_suffix_prefix_len_Max:
  "longest_suffix_prefix_len s n = Max (insert 0 {k. ends_with s (take k n) \<and> 0 < k \<and> k < length n})"
  unfolding longest_suffix_prefix_len_alt by (rule find_rev_upt_eq)

lemma longest_suffix_prefix_len_release:
  assumes "releasable n y x"
  shows "longest_suffix_prefix_len (y @ x @ t) n = longest_suffix_prefix_len (x @ t) n"
proof -
  have "{k. ends_with (y @ x @ t) (take k n) \<and> 0 < k \<and> k < length n}
      = {k. ends_with (x @ t) (take k n) \<and> 0 < k \<and> k < length n}"
    using ends_with_release [OF assms] by auto
  then show ?thesis by (simp add: longest_suffix_prefix_len_Max)
qed

lemma longest_suffix_prefix_len_le: "longest_suffix_prefix_len s n \<le> length s"
proof -
  have "k \<le> length s" if "ends_with s (take k n)" "k < length n" for k
    using that by (simp add: ends_with_def)
  then show ?thesis by (simp add: longest_suffix_prefix_len_Max)
qed

lemma longest_suffix_prefix_len_ge:
  "ends_with s (take k n) \<Longrightarrow> k < length n \<Longrightarrow> k \<le> longest_suffix_prefix_len s n"
  unfolding longest_suffix_prefix_len_Max by (cases "k = 0") (auto intro!: Max_ge)

lemma split_keep_releasable:
  assumes "find_sub s n = None" "longest_suffix_prefix_len s n \<le> k" "k \<le> length s"
    and split: "split_keep s k = (y, x)"
  shows "releasable n y x"
proof -
  have s: "s = y @ x" "length x = k" using split assms(3) by (auto simp: split_keep_def)
  have False if "y = u @ v" "v \<noteq> []" "n = v @ x @ w" for u v w
  proof (cases "w = []")
    case True
    with that s(1) have "s = u @ n @ []" by simp
    with assms(1) show False unfolding find_sub_None by blast
  next
    case False
    with that have "ends_with s (take (length (v @ x)) n)" "length (v @ x) < length n"
      using s by (auto simp: ends_with_iff)
    then have "length (v @ x) \<le> k" using assms(2) longest_suffix_prefix_len_ge le_trans by blast
    with s(2) that(2) show False by simp
  qed
  with assms(1) s(1) show ?thesis unfolding releasable_def by blast
qed

lemma max_open_ge:
  "sp \<in> set specs \<Longrightarrow> longest_suffix_prefix_len s (spec_open sp) \<le> max_open_prefix_suffix_len specs s"
  unfolding max_open_prefix_suffix_len_def by (induction specs) (auto simp: le_max_iff_disj)

lemma max_open_le: "max_open_prefix_suffix_len specs s \<le> length s"
  unfolding max_open_prefix_suffix_len_def
  by (induction specs) (auto intro: longest_suffix_prefix_len_le)

lemma max_open_cong:
  "(\<And>sp. sp \<in> set specs \<Longrightarrow> longest_suffix_prefix_len s (spec_open sp) = longest_suffix_prefix_len t (spec_open sp))
    \<Longrightarrow> max_open_prefix_suffix_len specs s = max_open_prefix_suffix_len specs t"
  unfolding max_open_prefix_suffix_len_def by (metis (no_types, lifting) map_eq_conv)

section \<open>The next opening delimiter\<close>

lemma min_open_None [simp]: "min_open cs = None \<longleftrightarrow> cs = []"
  by (cases cs) (auto split: option.splits)

lemma opens_before_trans:
  "opens_before x y \<Longrightarrow> \<not> opens_before z y \<Longrightarrow> opens_before x z"
  "\<not> opens_before y x \<Longrightarrow> \<not> opens_before z y \<Longrightarrow> \<not> opens_before z x"
  "opens_before y z \<Longrightarrow> \<not> opens_before y x \<Longrightarrow> \<not> opens_before z x"
  by (auto simp: opens_before_def split: prod.splits)

lemma min_open_Some:
  "min_open cs = Some m \<longleftrightarrow>
     (\<exists>ds es. cs = ds @ m # es \<and> (\<forall>c \<in> set ds. opens_before m c) \<and> (\<forall>c \<in> set es. \<not> opens_before c m))"
  (is "?L cs m = ?R cs m")
proof
  show "?L cs m \<Longrightarrow> ?R cs m"
  proof (induction cs arbitrary: m)
    case (Cons x cs)
    show ?case
    proof (cases "min_open cs")
      case None
      with Cons.prems show ?thesis by (auto intro: exI [of _ "[]"])
    next
      case (Some y)
      from Cons.IH [OF this] obtain ds es where
        cs: "cs = ds @ y # es" "\<forall>c \<in> set ds. opens_before y c" "\<forall>c \<in> set es. \<not> opens_before c y" by blast
      show ?thesis
      proof (cases "opens_before y x")
        case True
        with Some Cons.prems have "m = y" by simp
        with cs True show ?thesis by (intro exI [of _ "x # ds"] exI [of _ es]) auto
      next
        case False
        with Some Cons.prems have m: "m = x" by simp
        have "\<not> opens_before c x" if "c \<in> set ds" for c
          using cs(2) that opens_before_trans(3) [OF _ False] by blast
        moreover have "\<not> opens_before c x" if "c \<in> set es" for c
          using cs(3) that opens_before_trans(2) [OF False] by blast
        ultimately show ?thesis using cs m False by (intro exI [of _ "[]"] exI [of _ cs]) auto
      qed
    qed
  qed simp
next
  assume "?R cs m"
  then obtain ds es where
    cs: "cs = ds @ m # es" "\<forall>c \<in> set ds. opens_before m c" "\<forall>c \<in> set es. \<not> opens_before c m" by blast
  have "min_open (m # es) = Some m"
  proof (cases "min_open es")
    case (Some y)
    then have "y \<in> set es"
      by (induction es arbitrary: y) (auto split: option.splits if_splits)
    with Some cs(3) show ?thesis by simp
  qed simp
  with cs(2) show "?L cs m" unfolding cs(1) by (induction ds) auto
qed

lemma map_filter_append: "List.map_filter f (xs @ ys) = List.map_filter f xs @ List.map_filter f ys"
  by (simp add: List.map_filter_def)

lemma set_map_filter: "y \<in> set (List.map_filter f xs) \<longleftrightarrow> (\<exists>x \<in> set xs. f x = Some y)"
  by (force simp: List.map_filter_def)

lemma map_filter_eq_split:
  "List.map_filter f xs = ds @ m # es \<Longrightarrow>
     \<exists>ys x zs. xs = ys @ x # zs \<and> List.map_filter f ys = ds \<and> f x = Some m \<and> List.map_filter f zs = es"
proof (induction xs arbitrary: ds)
  case (Cons x xs)
  show ?case
  proof (cases "f x")
    case None
    with Cons.prems have "List.map_filter f xs = ds @ m # es" by (simp add: List.map_filter_simps)
    from Cons.IH [OF this] obtain ys z zs where
      "xs = ys @ z # zs" "List.map_filter f ys = ds" "f z = Some m" "List.map_filter f zs = es" by blast
    with None show ?thesis by (intro exI [of _ "x # ys"]) (simp add: List.map_filter_simps)
  next
    case (Some y)
    with Cons.prems have e: "y # List.map_filter f xs = ds @ m # es" by (simp add: List.map_filter_simps)
    show ?thesis
    proof (cases ds)
      case Nil
      with e Some show ?thesis by (intro exI [of _ "[]"]) (simp add: List.map_filter_simps)
    next
      case (Cons d ds')
      with e have "List.map_filter f xs = ds' @ m # es" "y = d" by auto
      from Cons.IH [OF this(1)] obtain ys z zs where
        "xs = ys @ z # zs" "List.map_filter f ys = ds'" "f z = Some m" "List.map_filter f zs = es" by blast
      with Some \<open>y = d\<close> \<open>ds = d # ds'\<close> show ?thesis
        by (intro exI [of _ "x # ys"]) (simp add: List.map_filter_simps)
    qed
  qed
qed (simp add: List.map_filter_simps)

text \<open>No opening delimiter occurs inside another one.\<close>

definition separated :: "'t inline_tag_spec list \<Rightarrow> bool" where
  "separated specs \<longleftrightarrow>
     (\<forall>sp \<in> set specs. \<forall>sq \<in> set specs. contains (spec_open sp) (spec_open sq) \<longrightarrow> spec_open sp = spec_open sq)"

lemma late_occurrence:
  assumes "find_sub s p = None" "find_sub (s @ t) p = Some (a', b')"
    and "find_sub s q = Some (a, b)" "\<not> contains p q"
  shows "len a < len a'"
proof -
  from assms(2,3) have st: "s @ t = a' @ b'" "starts_with b' p" "s = a @ b" "starts_with b q"
    using find_sub_Some by blast+
  obtain r where r: "b' = p @ r" using st(2) by (auto simp: starts_with_iff)
  obtain d where d: "b = q @ d" using st(4) by (auto simp: starts_with_iff)
  have "\<not> length a' \<le> length a"
  proof
    assume "length a' \<le> length a"
    moreover have "a' @ b' = a @ b @ t" using st by simp
    ultimately obtain u where u: "a = a' @ u" using append_eq_split by blast
    with st r d have e: "u @ q @ d @ t = p @ r" by simp
    have "\<not> length p \<le> length (u @ q @ d)"
    proof
      assume "length p \<le> length (u @ q @ d)"
      moreover have "p @ r = (u @ q @ d) @ t" using e by simp
      ultimately obtain v where "u @ q @ d = p @ v" using append_eq_split by blast
      with u st(3) d have "s = a' @ p @ v" by simp
      with assms(1) show False by (auto simp: find_sub_None)
    qed
    moreover have "(u @ q @ d) @ t = p @ r" using e by simp
    ultimately obtain v where "p = (u @ q @ d) @ v"
      using append_eq_split [of "u @ q @ d" t p r] nat_le_linear by blast
    with assms(4) show False by (auto simp: contains_iff)
  qed
  moreover have "a @ b @ t = a' @ b'" using st by simp
  ultimately obtain u where "a' = a @ u" "u \<noteq> []"
    using append_eq_split [of a "b @ t" a' b'] by fastforce
  then show ?thesis by (cases u) auto
qed

lemma find_next_open_Some:
  assumes "find_next_open specs s = Some (a, b, sp)"
  shows "sp \<in> set specs \<and> s = a @ b \<and> starts_with b (spec_open sp)"
proof -
  from assms have "(a, b, sp) \<in> set (open_candidates specs s)"
    by (auto simp: find_next_open_def min_open_Some)
  then show ?thesis
    by (auto simp: open_candidates_def List.map_filter_def dest: find_sub_Some)
qed

lemma find_next_open_None:
  "find_next_open specs s = None \<longleftrightarrow> (\<forall>sp \<in> set specs. find_sub s (spec_open sp) = None)"
proof -
  have "(\<forall>a b. r \<noteq> Some (a, b)) \<longleftrightarrow> r = None" for r :: "(rstr \<times> rstr) option"
    by (cases r) auto
  then show ?thesis
    by (simp add: find_next_open_def open_candidates_def List.map_filter_def filter_empty_conv)
qed

lemma find_next_open_append:
  assumes sep: "separated specs" and found: "find_next_open specs s = Some (a, b, sp)"
  shows "find_next_open specs (s @ t) = Some (a, b @ t, sp)"
proof -
  let ?f = "\<lambda>s sp. map_option (\<lambda>(a, b). (a, b, sp)) (find_sub s (spec_open sp))"
  from found obtain ds es where mf: "List.map_filter (?f s) specs = ds @ (a, b, sp) # es"
    and ord: "\<forall>c \<in> set ds. opens_before (a, b, sp) c" "\<forall>c \<in> set es. \<not> opens_before c (a, b, sp)"
    by (auto simp: find_next_open_def open_candidates_def min_open_Some)
  from map_filter_eq_split [OF mf] obtain ys sp' zs where
    specs: "specs = ys @ sp' # zs" "List.map_filter (?f s) ys = ds"
      "?f s sp' = Some (a, b, sp)" "List.map_filter (?f s) zs = es" by blast
  from specs(3) have sp: "sp' = sp" "find_sub s (spec_open sp) = Some (a, b)" by auto
  have cand: "len a < len a' \<or> (\<exists>b0. find_sub s (spec_open sq) = Some (a', b0))"
    if "sq \<in> set specs" "find_sub (s @ t) (spec_open sq) = Some (a', b')" for sq a' b'
  proof (cases "find_sub s (spec_open sq)")
    case None
    have "\<not> contains (spec_open sq) (spec_open sp)"
      using sep that(1) specs(1) sp None by (auto simp: separated_def)
    from late_occurrence [OF None that(2) sp(2) this] show ?thesis ..
  next
    case (Some r)
    with that(2) find_sub_append [of s "spec_open sq" "fst r" "snd r" t] show ?thesis by (cases r) auto
  qed
  have before: "opens_before (a, b @ t, sp) c" if "c \<in> set (List.map_filter (?f (s @ t)) ys)" for c
  proof -
    from that obtain sq a' b' where sq: "sq \<in> set ys" "find_sub (s @ t) (spec_open sq) = Some (a', b')"
      "c = (a', b', sq)" by (auto simp: set_map_filter)
    then have "sq \<in> set specs" using specs(1) by simp
    from cand [OF this sq(2)] consider "len a < len a'" | b0 where "?f s sq = Some (a', b0, sq)" by auto
    then consider "len a < len a'" | b0 where "(a', b0, sq) \<in> set ds"
      using set_map_filter [of _ "?f s" ys] sq(1) specs by blast
    then show ?thesis using ord(1) sq(3) by cases (auto simp: opens_before_def)
  qed
  have after: "\<not> opens_before c (a, b @ t, sp)" if "c \<in> set (List.map_filter (?f (s @ t)) zs)" for c
  proof -
    from that obtain sq a' b' where sq: "sq \<in> set zs" "find_sub (s @ t) (spec_open sq) = Some (a', b')"
      "c = (a', b', sq)" by (auto simp: set_map_filter)
    then have "sq \<in> set specs" using specs(1) by simp
    from cand [OF this sq(2)] consider "len a < len a'" | b0 where "?f s sq = Some (a', b0, sq)" by auto
    then consider "len a < len a'" | b0 where "(a', b0, sq) \<in> set es"
      using set_map_filter [of _ "?f s" zs] sq(1) specs by blast
    then show ?thesis using ord(2) sq(3) by cases (auto simp: opens_before_def)
  qed
  have split: "List.map_filter (?f (s @ t)) specs
      = List.map_filter (?f (s @ t)) ys @ (a, b @ t, sp) # List.map_filter (?f (s @ t)) zs"
    using sp find_sub_append [OF sp(2), of t] by (simp add: specs(1) map_filter_append List.map_filter_simps)
  show ?thesis unfolding find_next_open_def open_candidates_def min_open_Some split
    using before after by (intro exI conjI ballI) (rule refl)
qed

section \<open>The loop returns and does not depend on the cutting\<close>

definition delims_ok :: "'t inline_tag_spec list \<Rightarrow> bool" where
  "delims_ok specs \<longleftrightarrow> (\<forall>sp \<in> set specs. spec_open sp \<noteq> [] \<and> spec_close sp \<noteq> [])"

definition active_ok :: "'t active_tag option \<Rightarrow> bool" where
  "active_ok active \<longleftrightarrow> (\<forall>a. active = Some a \<longrightarrow> act_close a \<noteq> [])"

lemma active_ok_simps [simp]:
  "active_ok None" "active_ok (Some a) \<longleftrightarrow> act_close a \<noteq> []"
  by (auto simp: active_ok_def)

lemma push_chunk_append [simp]:
  "push_extracted (chunk_append c o') x = chunk_append c (push_extracted o' x)"
  "push_visible_prefix (chunk_append c o') s = chunk_append c (push_visible_prefix o' s)"
  by (simp_all add: push_extracted_def push_visible_prefix_def chunk_append_def)

lemma push_visible_prefix_append:
  "push_visible_prefix (push_visible_prefix out s) t = push_visible_prefix out (s @ t)"
  by (simp add: push_visible_prefix_def)

text \<open>One round: the tag that is open is closed, or a tag is opened, or the round is the last.\<close>

lemma drain_close:
  "find_sub x (act_close a) = Some (b, r) \<Longrightarrow>
     drain_tags specs (Some a) x out = drain_tags specs None (drop (length (act_close a)) r)
       (push_extracted out \<lparr>ext_tag = act_tag a, ext_content = act_content a @ b\<rparr>)"
  by (subst drain_tags.simps) simp

lemma drain_open:
  "find_next_open specs x = Some (b, r, sp) \<Longrightarrow>
     drain_tags specs None x out = drain_tags specs
       (Some \<lparr>act_tag = spec_tag sp, act_close = spec_close sp, act_content = []\<rparr>)
       (drop (length (spec_open sp)) r) (push_visible_prefix out b)"
  by (subst drain_tags.simps) simp

lemma drain_inside:
  "find_sub x (act_close a) = None \<Longrightarrow>
     split_keep x (longest_suffix_prefix_len x (act_close a)) = (y, z) \<Longrightarrow>
     drain_tags specs (Some a) x out = Some (Some (a\<lparr>act_content := act_content a @ y\<rparr>), z, out)"
  by (subst drain_tags.simps) simp

lemma drain_outside:
  "find_next_open specs x = None \<Longrightarrow>
     split_keep x (max_open_prefix_suffix_len specs x) = (y, z) \<Longrightarrow>
     drain_tags specs None x out = Some (None, z, push_visible_prefix out y)"
  by (subst drain_tags.simps) simp

lemma drain_cases:
  obtains
    (close) a b r where "active = Some a" "find_sub x (act_close a) = Some (b, r)"
  | (inside) a y z where "active = Some a" "find_sub x (act_close a) = None"
      "split_keep x (longest_suffix_prefix_len x (act_close a)) = (y, z)"
  | (opened) b r sp where "active = None" "find_next_open specs x = Some (b, r, sp)"
  | (outside) y z where "active = None" "find_next_open specs x = None"
      "split_keep x (max_open_prefix_suffix_len specs x) = (y, z)"
  by (cases active; cases "find_next_open specs x"; cases "find_sub x (act_close (the active))"; fastforce simp: split_keep_def)

lemma drop_delim_less:
  "s = a @ b \<Longrightarrow> starts_with b n \<Longrightarrow> n \<noteq> [] \<Longrightarrow> length (drop (length n) b) < length s"
  by (auto simp: starts_with_iff)

lemma split_keep_eq: "split_keep s k = (y, z) \<Longrightarrow> s = y @ z"
  by (auto simp: split_keep_def)

lemma drain_out:
  assumes "delims_ok specs" "active_ok active"
  shows "drain_tags specs active x (chunk_append c out)
    = map_option (\<lambda>(a, z, d). (a, z, chunk_append c d)) (drain_tags specs active x out)"
  using assms(2)
proof (induction x arbitrary: active out rule: length_induct)
  case (1 x)
  show ?case
  proof (cases rule: drain_cases [where active = active and x = x and specs = specs])
    case (close a b r)
    with 1(2) find_sub_Some [OF close(2)] have "length (drop (length (act_close a)) r) < length x"
      by (intro drop_delim_less) auto
    with 1(1) show ?thesis unfolding close(1) drain_close [OF close(2)] by simp
  next
    case (inside a y z)
    then show ?thesis by (simp add: drain_inside)
  next
    case (opened b r sp)
    note f = find_next_open_Some [OF opened(2)]
    with assms(1) have ok: "spec_open sp \<noteq> []" "spec_close sp \<noteq> []" by (auto simp: delims_ok_def)
    with f have "length (drop (length (spec_open sp)) r) < length x" by (intro drop_delim_less) auto
    with 1(1) ok show ?thesis unfolding opened(1) drain_open [OF opened(2)] by simp
  next
    case (outside y z)
    then show ?thesis by (simp add: drain_outside)
  qed
qed

lemma split_keep_release:
  "k \<le> length x \<Longrightarrow> split_keep (y @ x) k = (y @ fst (split_keep x k), snd (split_keep x k))"
  by (simp add: split_keep_def)

lemma drain_inside_release:
  assumes rel: "releasable (act_close a) y z"
  shows "drain_tags specs (Some a) (y @ z @ t) out
    = drain_tags specs (Some (a\<lparr>act_content := act_content a @ y\<rparr>)) (z @ t) out"
proof (cases "find_sub (z @ t) (act_close a)")
  case (Some r)
  then show ?thesis by (cases r) (simp add: drain_close find_sub_release [OF rel])
next
  case None
  let ?k = "longest_suffix_prefix_len (z @ t) (act_close a)"
  obtain u v where s: "split_keep (z @ t) ?k = (u, v)" by fastforce
  moreover have "split_keep (y @ z @ t) ?k = (y @ u, v)"
    using s longest_suffix_prefix_len_le [of "z @ t" "act_close a"] by (simp add: split_keep_release)
  ultimately show ?thesis using None
    by (simp add: drain_inside find_sub_release [OF rel] longest_suffix_prefix_len_release [OF rel])
qed

lemma min_open_shift:
  "min_open (map (\<lambda>(a, r). (y @ a, r)) cs) = map_option (\<lambda>(a, r). (y @ a, r)) (min_open cs)"
  by (induction cs) (auto simp: opens_before_def split: option.splits prod.splits)

lemma find_next_open_release:
  assumes "\<And>sp. sp \<in> set specs \<Longrightarrow> releasable (spec_open sp) y z"
  shows "find_next_open specs (y @ z @ t)
    = map_option (\<lambda>(a, r). (y @ a, r)) (find_next_open specs (z @ t))"
proof -
  have "open_candidates specs (y @ z @ t) = map (\<lambda>(a, r). (y @ a, r)) (open_candidates specs (z @ t))"
    using assms
  proof (induction specs)
    case (Cons sp specs)
    then show ?case
      by (cases "find_sub (z @ t) (spec_open sp)")
         (auto simp: open_candidates_def List.map_filter_simps find_sub_release)
  qed (simp add: open_candidates_def List.map_filter_simps)
  then show ?thesis by (simp add: find_next_open_def min_open_shift)
qed

lemma drain_outside_release:
  assumes rel: "\<And>sp. sp \<in> set specs \<Longrightarrow> releasable (spec_open sp) y z"
  shows "drain_tags specs None (y @ z @ t) out = drain_tags specs None (z @ t) (push_visible_prefix out y)"
proof (cases "find_next_open specs (z @ t)")
  case (Some r)
  then show ?thesis
    by (cases r) (simp add: drain_open find_next_open_release [OF rel] push_visible_prefix_append)
next
  case None
  let ?k = "max_open_prefix_suffix_len specs (z @ t)"
  obtain u v where s: "split_keep (z @ t) ?k = (u, v)" by fastforce
  have k: "max_open_prefix_suffix_len specs (y @ z @ t) = ?k"
    by (rule max_open_cong) (rule longest_suffix_prefix_len_release [OF rel])
  moreover have "split_keep (y @ z @ t) ?k = (y @ u, v)"
    using s max_open_le [of specs "z @ t"] by (simp add: split_keep_release)
  ultimately show ?thesis using None s
    by (simp add: drain_outside find_next_open_release [OF rel] push_visible_prefix_append)
qed

lemma drain_tags_append:
  assumes "delims_ok specs" "separated specs" "active_ok active"
  shows "\<exists>a z d. drain_tags specs active x out = Some (a, z, d) \<and> active_ok a
    \<and> (\<forall>t. drain_tags specs active (x @ t) out = drain_tags specs a (z @ t) d)"
  using assms(3)
proof (induction x arbitrary: active out rule: length_induct)
  case (1 x)
  show ?case
  proof (cases rule: drain_cases [where active = active and x = x and specs = specs])
    case (close a b r)
    note f = find_sub_Some [OF close(2)]
    with 1(2) close have "length (drop (length (act_close a)) r) < length x"
      by (intro drop_delim_less) auto
    moreover have "length (act_close a) \<le> length r" using f by (auto simp: starts_with_iff)
    then have "drop (length (act_close a)) (r @ t) = drop (length (act_close a)) r @ t" for t by simp
    ultimately show ?thesis
      using 1(1) close unfolding close(1) by (simp add: drain_close drain_close [OF find_sub_append])
  next
    case (inside a y z)
    have rel: "releasable (act_close a) y z"
      using inside split_keep_releasable longest_suffix_prefix_len_le by blast
    have "drain_tags specs (Some a) (x @ t) out
        = drain_tags specs (Some (a\<lparr>act_content := act_content a @ y\<rparr>)) (z @ t) out" for t
      using drain_inside_release [OF rel, where t = t and out = out] split_keep_eq [OF inside(3)] by simp
    with inside 1(2) show ?thesis by (simp add: drain_inside)
  next
    case (opened b r sp)
    note f = find_next_open_Some [OF opened(2)]
    with assms(1) have ok: "spec_open sp \<noteq> []" "spec_close sp \<noteq> []" by (auto simp: delims_ok_def)
    with f have "length (drop (length (spec_open sp)) r) < length x" by (intro drop_delim_less) auto
    moreover have "length (spec_open sp) \<le> length r" using f by (auto simp: starts_with_iff)
    then have "drop (length (spec_open sp)) (r @ t) = drop (length (spec_open sp)) r @ t" for t by simp
    ultimately show ?thesis
      using 1(1) ok opened unfolding opened(1)
      by (simp add: drain_open drain_open [OF find_next_open_append [OF assms(2) opened(2)]])
  next
    case (outside y z)
    have "releasable (spec_open sp) y z" if "sp \<in> set specs" for sp
      using outside that split_keep_releasable max_open_ge max_open_le
      by (metis find_next_open_None)
    then have "drain_tags specs None (x @ t) out
        = drain_tags specs None (z @ t) (push_visible_prefix out y)" for t
      using drain_outside_release [where specs = specs and t = t and out = out] split_keep_eq [OF outside(3)] by simp
    with outside show ?thesis by (simp add: drain_outside)
  qed
qed

text \<open>
  The states of a parser between two pushes: nothing is left to do with the pending text.
\<close>

definition inline_ok :: "'t inline_hidden_tag_parser \<Rightarrow> bool" where
  "inline_ok p \<longleftrightarrow>
     delims_ok (ip_specs p) \<and> separated (ip_specs p) \<and> active_ok (ip_active p)
     \<and> drain_tags (ip_specs p) (ip_active p) (ip_pending p) chunk_default
         = Some (ip_active p, ip_pending p, chunk_default)"

lemma drain_settled:
  assumes "delims_ok specs" "separated specs" "active_ok active"
    and "drain_tags specs active x out = Some (a, z, d)"
  shows "active_ok a \<and> drain_tags specs a z chunk_default = Some (a, z, chunk_default)
    \<and> (\<forall>t. drain_tags specs active (x @ t) out = drain_tags specs a (z @ t) d)"
proof -
  from drain_tags_append [OF assms(1-3), of x out] assms(4)
  have ok: "active_ok a" and t: "\<forall>t. drain_tags specs active (x @ t) out = drain_tags specs a (z @ t) d"
    by auto
  from t [rule_format, of "[]"] assms(4) have "drain_tags specs a z d = Some (a, z, d)" by simp
  then have "map_option (\<lambda>(a, z, e). (a, z, chunk_append d e)) (drain_tags specs a z chunk_default)
      = Some (a, z, d)"
    using drain_out [OF assms(1) ok, of z d chunk_default] by simp
  then obtain e where e: "drain_tags specs a z chunk_default = Some (a, z, e)" "chunk_append d e = d" by auto
  from e(2) have "visible_text d @ visible_text e = visible_text d" "extracted d @ extracted e = extracted d"
    by (metis chunk_simps(3), metis chunk_simps(4))
  then have "e = chunk_default" by (simp add: chunk_default_def)
  with e ok t show ?thesis by simp
qed

interpretation inline: stream_text_parser inline_push_str inline_ok "\<lambda>xs. xs"
proof unfold_locales
  fix p :: "'t inline_hidden_tag_parser" and s
  assume p: "inline_ok p"
  then have ok: "delims_ok (ip_specs p)" "separated (ip_specs p)" "active_ok (ip_active p)"
    by (auto simp: inline_ok_def)
  from drain_tags_append [OF ok, of "ip_pending p @ s" chunk_default] obtain a z d where
    d: "drain_tags (ip_specs p) (ip_active p) (ip_pending p @ s) chunk_default = Some (a, z, d)" by blast
  from drain_settled [OF ok d] ok d
  show "\<exists>c q. inline_push_str p s = Some (c, q) \<and> inline_ok q"
    by (simp add: inline_push_str_def inline_ok_def)
  from p show "inline_push_str p [] = Some (chunk_default, p)"
    by (simp add: inline_push_str_def inline_ok_def)
  fix t c q e r
  assume s: "inline_push_str p s = Some (c, q)" and t: "inline_push_str q t = Some (e, r)"
  from s d have q: "c = d" "q = p\<lparr>ip_pending := z, ip_active := a\<rparr>" by (auto simp: inline_push_str_def)
  from t q obtain a' z' where
    e: "drain_tags (ip_specs p) a (z @ t) chunk_default = Some (a', z', e)"
      "r = p\<lparr>ip_pending := z', ip_active := a'\<rparr>" by (auto simp: inline_push_str_def)
  note settled = drain_settled [OF ok d]
  have "drain_tags (ip_specs p) (ip_active p) (ip_pending p @ s @ t) chunk_default
      = drain_tags (ip_specs p) a (z @ t) (chunk_append d chunk_default)" using settled by simp
  also have "\<dots> = Some (a', z', chunk_append d e)"
    using drain_out [OF ok(1), of a "z @ t" d chunk_default] settled e(1) by simp
  finally show "\<exists>f. inline_push_str p (s @ t) = Some (f, r) \<and> visible_text f = visible_text c @ visible_text e
      \<and> extracted f = extracted c @ extracted e"
    using q e(2) by (simp add: inline_push_str_def)
qed simp

section \<open>Citations\<close>

datatype citation_tag = Citation

definition CITATION_OPEN :: rstr where "CITATION_OPEN = lit ''<oai-mem-citation>''"
definition CITATION_CLOSE :: rstr where "CITATION_CLOSE = lit ''</oai-mem-citation>''"

type_synonym citation_stream_parser = "citation_tag inline_hidden_tag_parser"

definition citation_specs :: "citation_tag inline_tag_spec list" where
  "citation_specs = [\<lparr>spec_tag = Citation, spec_open = CITATION_OPEN, spec_close = CITATION_CLOSE\<rparr>]"

definition citation_new :: "citation_stream_parser option" where
  "citation_new = inline_new citation_specs"

definition citation_bodies :: "citation_tag extracted_inline_tag stream_text_chunk \<Rightarrow> rstr stream_text_chunk" where
  "citation_bodies inner = \<lparr>visible_text = visible_text inner, extracted = map ext_content (extracted inner)\<rparr>"

definition citation_push_str ::
  "citation_stream_parser \<Rightarrow> rstr \<Rightarrow> (rstr stream_text_chunk \<times> citation_stream_parser) option" where
  "citation_push_str p chunk = map_option (\<lambda>(inner, p). (citation_bodies inner, p)) (inline_push_str p chunk)"

definition citation_finish :: "citation_stream_parser \<Rightarrow> rstr stream_text_chunk \<times> citation_stream_parser" where
  "citation_finish p = (case inline_finish p of (inner, p) \<Rightarrow> (citation_bodies inner, p))"

definition strip_citations :: "rstr \<Rightarrow> (rstr \<times> rstr list) option" where
  "strip_citations s =
     (case citation_new of
        None \<Rightarrow> None
      | Some p \<Rightarrow>
          (case citation_push_str p s of
             None \<Rightarrow> None
           | Some (out, p) \<Rightarrow>
               (let tail = fst (citation_finish p)
                in Some (visible_text out @ visible_text tail, extracted out @ extracted tail))))"

text \<open>The same for a text that arrives in chunks.\<close>

definition citation_collect :: "rstr list \<Rightarrow> (rstr \<times> rstr list) option" where
  "citation_collect ss =
     (case citation_new of
        None \<Rightarrow> None
      | Some p \<Rightarrow>
          (case push_all citation_push_str p ss of
             None \<Rightarrow> None
           | Some (out, p) \<Rightarrow>
               (let tail = fst (citation_finish p)
                in Some (visible_text out @ visible_text tail, extracted out @ extracted tail))))"

interpretation cit: stream_text_parser citation_push_str inline_ok "\<lambda>xs. xs"
proof unfold_locales
  fix p :: citation_stream_parser and s
  assume p: "inline_ok p"
  from inline.push_returns [OF p, of s] show "\<exists>c q. citation_push_str p s = Some (c, q) \<and> inline_ok q"
    by (auto simp: citation_push_str_def)
  from inline.push_empty [OF p] show "citation_push_str p [] = Some (chunk_default, p)"
    by (simp add: citation_push_str_def citation_bodies_def chunk_default_def)
  fix t c q d r
  assume s: "citation_push_str p s = Some (c, q)" and t: "citation_push_str q t = Some (d, r)"
  then obtain c' d' where c: "inline_push_str p s = Some (c', q)" "c = citation_bodies c'"
    and d: "inline_push_str q t = Some (d', r)" "d = citation_bodies d'"
    by (auto simp: citation_push_str_def)
  from inline.push_twice [OF p c(1) d(1)] obtain e where "inline_push_str p (s @ t) = Some (e, r)"
    "visible_text e = visible_text c' @ visible_text d'" "extracted e = extracted c' @ extracted d'" by blast
  with c(2) d(2) show "\<exists>e. citation_push_str p (s @ t) = Some (e, r) \<and>
      visible_text e = visible_text c @ visible_text d \<and> extracted e = extracted c @ extracted d"
    by (simp add: citation_push_str_def citation_bodies_def)
qed simp

lemma inline_ok_new:
  assumes "inline_new specs = Some p" "separated specs"
  shows "inline_ok p"
proof -
  from assms(1) have p: "p = \<lparr>ip_specs = specs, ip_pending = [], ip_active = None\<rparr>" "delims_ok specs"
    by (auto simp: inline_new_def delims_ok_def list_all_iff split: if_splits)
  then have "find_next_open specs [] = None"
    by (auto simp: find_next_open_None delims_ok_def)
  then have "drain_tags specs None [] chunk_default = Some (None, [], chunk_default)"
    by (rule drain_outside [where y = "[]", unfolded push_visible_prefix_def, simplified]) (simp add: split_keep_def)
  with p assms(2) show ?thesis by (simp add: inline_ok_def)
qed

lemma citation_new_ok: "\<exists>p. citation_new = Some p \<and> inline_ok p \<and> ip_specs p = citation_specs
    \<and> ip_pending p = [] \<and> ip_active p = None"
proof -
  let ?p = "\<lparr>ip_specs = citation_specs, ip_pending = [], ip_active = None\<rparr>"
  have new: "citation_new = Some ?p"
    by (simp add: citation_new_def inline_new_def citation_specs_def CITATION_OPEN_def CITATION_CLOSE_def)
  moreover have "separated citation_specs" by (simp add: separated_def citation_specs_def)
  then have "inline_ok ?p" using new by (auto simp: citation_new_def intro: inline_ok_new)
  ultimately show ?thesis by auto
qed

lemma drain_returns:
  assumes "delims_ok specs" "active_ok active"
  shows "\<exists>a z d. drain_tags specs active x out = Some (a, z, d) \<and> active_ok a"
  using assms(2)
proof (induction x arbitrary: active out rule: length_induct)
  case (1 x)
  show ?case
  proof (cases rule: drain_cases [where active = active and x = x and specs = specs])
    case (close a b r)
    with 1(2) find_sub_Some [OF close(2)] have "length (drop (length (act_close a)) r) < length x"
      by (intro drop_delim_less) auto
    with 1(1) show ?thesis unfolding close(1) drain_close [OF close(2)] by simp
  next
    case (inside a y z)
    with 1(2) show ?thesis by (simp add: drain_inside)
  next
    case (opened b r sp)
    note f = find_next_open_Some [OF opened(2)]
    with assms(1) have ok: "spec_open sp \<noteq> []" "spec_close sp \<noteq> []" by (auto simp: delims_ok_def)
    with f have "length (drop (length (spec_open sp)) r) < length x" by (intro drop_delim_less) auto
    with 1(1) ok show ?thesis unfolding opened(1) drain_open [OF opened(2)] by simp
  next
    case (outside y z)
    then show ?thesis by (simp add: drain_outside)
  qed
qed

lemma inline_push_all_returns:
  "delims_ok (ip_specs p) \<Longrightarrow> active_ok (ip_active p) \<Longrightarrow> \<exists>out q. push_all inline_push_str p ss = Some (out, q)"
proof (induction ss arbitrary: p)
  case (Cons s ss)
  from drain_returns [OF Cons.prems, of "ip_pending p @ s" chunk_default] obtain a z d where
    d: "drain_tags (ip_specs p) (ip_active p) (ip_pending p @ s) chunk_default = Some (a, z, d)" "active_ok a"
    by blast
  then have "inline_push_str p s = Some (d, p\<lparr>ip_pending := z, ip_active := a\<rparr>)"
    by (simp add: inline_push_str_def)
  with Cons.IH [of "p\<lparr>ip_pending := z, ip_active := a\<rparr>"] Cons.prems(1) d(2) show ?case by auto
qed simp

section \<open>Reading back a text with citations\<close>

definition border_free :: "rstr \<Rightarrow> bool" where
  "border_free n \<longleftrightarrow> list_all (\<lambda>k. take k n \<noteq> drop (length n - k) n) [1..<length n]"

lemma border_freeD: "border_free n \<Longrightarrow> n = u @ v \<Longrightarrow> n = v @ w \<Longrightarrow> u \<noteq> [] \<Longrightarrow> v = []"
proof (rule ccontr)
  assume n: "border_free n" "n = u @ v" "n = v @ w" "u \<noteq> []" "v \<noteq> []"
  then have "length v \<in> set [1..<length n]" by (auto simp: Suc_le_eq)
  with n(1) have "take (length v) n \<noteq> drop (length n - length v) n" by (auto simp: border_free_def list_all_iff)
  moreover have "take (length v) n = v" using n(3) by simp
  moreover have "drop (length n - length v) n = v" using n(2) by simp
  ultimately show False by simp
qed

lemma find_sub_first:
  assumes "border_free n"
  shows "\<not> contains t n \<Longrightarrow> n \<noteq> [] \<Longrightarrow> find_sub (t @ n @ r) n = Some (t, n @ r)"
proof (induction t)
  case Nil
  then show ?case by (cases n) (auto simp: starts_with_def)
next
  case (Cons c t)
  have "\<not> starts_with ((c # t) @ n @ r) n"
  proof
    assume "starts_with ((c # t) @ n @ r) n"
    then obtain q where q: "(c # t) @ n @ r = n @ q" by (auto simp: starts_with_iff)
    show False
    proof (cases "length n \<le> length (c # t)")
      case True
      from append_eq_split [OF q [symmetric] True] obtain u where "c # t = n @ u" by blast
      then have "c # t = [] @ n @ u" by simp
      with Cons.prems(1) show False unfolding contains_iff by blast
    next
      case False
      then obtain v where v: "n = (c # t) @ v" "n @ r = v @ q"
        using append_eq_split [OF q] by auto
      have "length v \<le> length n" by (simp add: v(1))
      from append_eq_split [OF v(2) [symmetric] this] obtain w where "n = v @ w" by blast
      from border_freeD [OF assms v(1) this] have "v = []" by simp
      with v(1) False show False by simp
    qed
  qed
  moreover have "\<not> contains t n" using Cons.prems(1) unfolding contains_iff by (metis append_Cons)
  ultimately show ?case using Cons by simp
qed

lemma find_sub_not_contains: "\<not> contains s p \<Longrightarrow> find_sub s p = None"
  unfolding contains_def by blast

lemma citation_delims:
  shows "border_free CITATION_OPEN" and "border_free CITATION_CLOSE"
    and "CITATION_OPEN \<noteq> []" and "CITATION_CLOSE \<noteq> []"
  by code_simp+

text \<open>A text with marked citations, and possibly one at its end that is never closed.\<close>

fun cited_text :: "rstr \<Rightarrow> (rstr \<times> rstr) list \<Rightarrow> rstr option \<Rightarrow> rstr" where
  "cited_text s [] None = s"
| "cited_text s [] (Some c) = s @ CITATION_OPEN @ c"
| "cited_text s ((c, t) # ps) e = s @ CITATION_OPEN @ c @ CITATION_CLOSE @ cited_text t ps e"

definition drain_finish ::
  "('t active_tag option \<times> rstr \<times> 't extracted_inline_tag stream_text_chunk) option
     \<Rightarrow> (rstr \<times> rstr list) option" where
  "drain_finish r = map_option (\<lambda>(a, z, d).
     case a of Some a \<Rightarrow> (visible_text d, map ext_content (extracted d) @ [act_content a @ z])
      | None \<Rightarrow> (visible_text d @ z, map ext_content (extracted d))) r"

lemma strip_citations_drain:
  "strip_citations s = drain_finish (drain_tags citation_specs None s chunk_default)"
proof -
  obtain p where p: "citation_new = Some p" "ip_specs p = citation_specs" "ip_pending p = []" "ip_active p = None"
    using citation_new_ok by blast
  show ?thesis
    by (cases "drain_tags citation_specs None s chunk_default")
       (auto simp: strip_citations_def p drain_finish_def citation_push_str_def inline_push_str_def
         citation_finish_def inline_finish_def citation_bodies_def push_extracted_def split: option.splits)
qed

lemma find_next_citation: "find_next_open citation_specs s
    = map_option (\<lambda>(a, b). (a, b, hd citation_specs)) (find_sub s CITATION_OPEN)"
  by (cases "find_sub s CITATION_OPEN")
     (simp_all add: find_next_open_def open_candidates_def citation_specs_def List.map_filter_simps)

lemma drain_no_citation:
  assumes "\<not> contains s CITATION_OPEN"
  shows "drain_finish (drain_tags citation_specs None s out)
    = Some (visible_text out @ s, map ext_content (extracted out))"
proof -
  have none: "find_next_open citation_specs s = None"
    using assms by (simp add: find_next_citation find_sub_not_contains)
  obtain y z where yz: "split_keep s (max_open_prefix_suffix_len citation_specs s) = (y, z)" by fastforce
  from split_keep_eq [OF yz] drain_outside [OF none yz] show ?thesis
    by (simp add: drain_finish_def push_visible_prefix_def)
qed

lemma drain_unclosed:
  assumes "\<not> contains c CITATION_CLOSE"
  shows "drain_finish (drain_tags citation_specs
      (Some \<lparr>act_tag = Citation, act_close = CITATION_CLOSE, act_content = []\<rparr>) c out)
    = Some (visible_text out, map ext_content (extracted out) @ [c])"
proof -
  let ?a = "\<lparr>act_tag = Citation, act_close = CITATION_CLOSE, act_content = []\<rparr>"
  obtain y z where yz: "split_keep c (longest_suffix_prefix_len c CITATION_CLOSE) = (y, z)" by fastforce
  have "drain_tags citation_specs (Some ?a) c out = Some (Some (?a\<lparr>act_content := act_content ?a @ y\<rparr>), z, out)"
    by (rule drain_inside) (use assms yz in \<open>simp_all add: find_sub_not_contains\<close>)
  with split_keep_eq [OF yz] show ?thesis by (simp add: drain_finish_def)
qed

lemma drain_citation:
  assumes "\<not> contains s CITATION_OPEN"
  shows "drain_tags citation_specs None (s @ CITATION_OPEN @ t) out
    = drain_tags citation_specs (Some \<lparr>act_tag = Citation, act_close = CITATION_CLOSE, act_content = []\<rparr>) t
        (push_visible_prefix out s)"
proof -
  have "find_next_open citation_specs (s @ CITATION_OPEN @ t) = Some (s, CITATION_OPEN @ t, hd citation_specs)"
    using find_sub_first [OF citation_delims(1) assms citation_delims(3)] by (simp add: find_next_citation)
  from drain_open [OF this] show ?thesis by (simp add: citation_specs_def)
qed

lemma drain_cited_text:
  assumes "\<not> contains s CITATION_OPEN"
    and "list_all (\<lambda>(c, t). \<not> contains c CITATION_CLOSE \<and> \<not> contains t CITATION_OPEN) ps"
    and "pred_option (\<lambda>c. \<not> contains c CITATION_CLOSE) e"
  shows "drain_finish (drain_tags citation_specs None (cited_text s ps e) out)
    = Some (visible_text out @ s @ concat (map snd ps),
        map ext_content (extracted out) @ map fst ps @ (case e of Some c \<Rightarrow> [c] | None \<Rightarrow> []))"
  using assms
proof (induction s ps e arbitrary: out rule: cited_text.induct)
  case (1 s)
  then show ?case by (simp add: drain_no_citation)
next
  case (2 s c)
  then show ?case by (simp add: drain_citation drain_unclosed push_visible_prefix_def)
next
  case (3 s c t ps e)
  then have "find_sub (c @ CITATION_CLOSE @ cited_text t ps e) CITATION_CLOSE
      = Some (c, CITATION_CLOSE @ cited_text t ps e)"
    by (intro find_sub_first citation_delims) auto
  with 3 show ?case
    by (simp add: drain_citation drain_close push_extracted_def push_visible_prefix_def)
qed

section \<open>Properties of the tag parsers\<close>

text \<open>
  C20. Every call of the inline tag parser returns: from a parser that the constructor accepts, any
  sequence of chunks can be pushed, whatever delimiters were configured.
\<close>

theorem inline_pushes_return:
  assumes "inline_new specs = Some p"
  shows "\<exists>out q. push_all inline_push_str p ss = Some (out, q)"
  by (rule inline_push_all_returns) (use assms in \<open>auto simp: inline_new_def delims_ok_def list_all_iff split: if_splits\<close>)

theorem inline_pushes_return_witness:
  "\<exists>out q. push_all inline_push_str \<lparr>ip_specs = citation_specs, ip_pending = [], ip_active = None\<rparr>
      [lit ''a<oai-'', lit ''mem-citation>b''] = Some (out, q)"
  by (rule inline_pushes_return [of citation_specs])
     (simp add: inline_new_def citation_specs_def CITATION_OPEN_def CITATION_CLOSE_def)

text \<open>
  Stripping citations from a stream does not depend on how the stream is cut: pushing the
  chunks one by one and finishing gives exactly the visible text and the citations of the whole
  text, even when a delimiter is split across chunks.
\<close>

theorem citation_chunking_irrelevant:
  "\<exists>r. citation_collect ss = Some r \<and> strip_citations (concat ss) = Some r"
proof -
  obtain p where p: "citation_new = Some p" "inline_ok p" using citation_new_ok by blast
  from cit.push_all_joined [OF p(2), of ss] obtain c q e where
    "push_all citation_push_str p ss = Some (c, q)" "citation_push_str p (concat ss) = Some (e, q)"
    "visible_text e = visible_text c" "extracted e = extracted c" by blast
  then show ?thesis unfolding citation_collect_def strip_citations_def p(1) by (simp add: Let_def)
qed

text \<open>
  C23. Stripping citations reads back a marked text: the visible text is the text between the
  citations and the extracted citations are the marked ones in order, including one that is still
  open at the end of the text.
\<close>

theorem strip_citations_reads_back:
  assumes "\<not> contains s CITATION_OPEN"
    and "list_all (\<lambda>(c, t). \<not> contains c CITATION_CLOSE \<and> \<not> contains t CITATION_OPEN) ps"
    and "pred_option (\<lambda>c. \<not> contains c CITATION_CLOSE) e"
  shows "strip_citations (cited_text s ps e) =
    Some (s @ concat (map snd ps), map fst ps @ (case e of Some c \<Rightarrow> [c] | None \<Rightarrow> []))"
  using drain_cited_text [OF assms, of chunk_default] by (simp add: strip_citations_drain)

theorem strip_citations_reads_back_witness:
  "strip_citations (cited_text (lit ''a <'') [(lit ''doc </'', lit '' b'')] (Some (lit ''x''))) =
    Some (lit ''a < b'', [lit ''doc </'', lit ''x''])"
  using strip_citations_reads_back [of "lit ''a <''" "[(lit ''doc </'', lit '' b'')]" "Some (lit ''x'')"]
  by (simp add: contains_def CITATION_OPEN_def CITATION_CLOSE_def lit_def starts_with_def)

end
