(* ===== verification/Stream_Plan.thy ===== *)
theory Stream_Plan
  imports Stream_Text
begin

text \<open>
  Tag blocks that stand on lines of their own (tagged_line_parser.rs) and the parser for proposed
  plans built on it (proposed_plan.rs), of codex-rs/utils/stream-parser. The parser works char by
  char and holds a line back while it may still be a tag; the theorems compare it with a reference
  that looks at whole lines.
\<close>

section \<open>The tagged line parser\<close>

record 't tag_spec =
  tl_open :: rstr
  tl_close :: rstr
  tl_tag :: 't

datatype 't tagged_line_segment = Normal rstr | TagStart 't | TagDelta 't rstr | TagEnd 't

record 't tagged_line_parser =
  tp_specs :: "'t tag_spec list"
  tp_active :: "'t option"
  detect_tag :: bool
  line_buffer :: rstr

definition tagged_new :: "'t tag_spec list \<Rightarrow> 't tagged_line_parser" where
  "tagged_new specs = \<lparr>tp_specs = specs, tp_active = None, detect_tag = True, line_buffer = []\<rparr>"

definition push_segment :: "'t tagged_line_segment list \<Rightarrow> 't tagged_line_segment \<Rightarrow> 't tagged_line_segment list" where
  "push_segment segs seg =
     (case seg of
        Normal delta \<Rightarrow>
          if delta = [] then segs
          else (case rev segs of
                  Normal existing # _ \<Rightarrow> butlast segs @ [Normal (existing @ delta)]
                | _ \<Rightarrow> segs @ [seg])
      | TagDelta tag delta \<Rightarrow>
          if delta = [] then segs
          else (case rev segs of
                  TagDelta existing_tag existing # _ \<Rightarrow>
                    if existing_tag = tag then butlast segs @ [TagDelta tag (existing @ delta)]
                    else segs @ [seg]
                | _ \<Rightarrow> segs @ [seg])
      | _ \<Rightarrow> segs @ [seg])"

definition text_segment :: "'t option \<Rightarrow> rstr \<Rightarrow> 't tagged_line_segment" where
  "text_segment active s = (case active of Some tag \<Rightarrow> TagDelta tag s | None \<Rightarrow> Normal s)"

definition push_text :: "'t tagged_line_parser \<Rightarrow> rstr \<Rightarrow> 't tagged_line_segment list \<Rightarrow> 't tagged_line_segment list" where
  "push_text p s segs = push_segment segs (text_segment (tp_active p) s)"

definition is_tag_prefix :: "'t tagged_line_parser \<Rightarrow> rstr \<Rightarrow> bool" where
  "is_tag_prefix p slug =
     list_ex (\<lambda>sp. starts_with (tl_open sp) (trim_end slug) \<or> starts_with (tl_close sp) (trim_end slug)) (tp_specs p)"

definition match_open :: "'t tag_spec list \<Rightarrow> rstr \<Rightarrow> 't option" where
  "match_open specs slug = map_option tl_tag (find (\<lambda>sp. tl_open sp = slug) specs)"

definition match_close :: "'t tag_spec list \<Rightarrow> rstr \<Rightarrow> 't option" where
  "match_close specs slug = map_option tl_tag (find (\<lambda>sp. tl_close sp = slug) specs)"

definition strip_newline :: "rstr \<Rightarrow> rstr" where
  "strip_newline s = (case strip_suffix s [nl] of Some t \<Rightarrow> t | None \<Rightarrow> s)"

text \<open>The tag that a line is, if any: an opening one outside a block, the closing one inside.\<close>

definition line_tag :: "'t tag_spec list \<Rightarrow> 't option \<Rightarrow> rstr \<Rightarrow> 't tagged_line_segment option" where
  "line_tag specs active slug =
     (case (match_open specs slug, active) of
        (Some tag, None) \<Rightarrow> Some (TagStart tag)
      | _ \<Rightarrow> (case match_close specs slug of
                Some tag \<Rightarrow> if active = Some tag then Some (TagEnd tag) else None
              | None \<Rightarrow> None))"

fun active_after :: "'t tagged_line_segment \<Rightarrow> 't option" where
  "active_after (TagStart tag) = Some tag"
| "active_after _ = None"

definition finish_line ::
  "'t tagged_line_parser \<Rightarrow> 't tagged_line_segment list \<Rightarrow> 't tagged_line_parser \<times> 't tagged_line_segment list" where
  "finish_line p segs =
     (let line = line_buffer p;
          slug = trim_end (trim_start (strip_newline line));
          p = p\<lparr>line_buffer := []\<rparr>
      in case line_tag (tp_specs p) (tp_active p) slug of
           Some seg \<Rightarrow> (p\<lparr>tp_active := active_after seg, detect_tag := True\<rparr>, push_segment segs seg)
         | None \<Rightarrow> (p\<lparr>detect_tag := True\<rparr>, push_text p line segs))"

text \<open>One char: the parser, the run of plain text not yet pushed, and the segments.\<close>

definition parse_char ::
  "rchar \<Rightarrow> 't tagged_line_parser \<times> rstr \<times> 't tagged_line_segment list
     \<Rightarrow> 't tagged_line_parser \<times> rstr \<times> 't tagged_line_segment list" where
  "parse_char ch st =
     (case st of (p, run, segs) \<Rightarrow>
        if detect_tag p then
          (let segs = (if run \<noteq> [] then push_text p run segs else segs);
               p = p\<lparr>line_buffer := line_buffer p @ [ch]\<rparr>
           in if ch = nl then (case finish_line p segs of (p, segs) \<Rightarrow> (p, [], segs))
              else let slug = trim_start (line_buffer p)
                   in if slug = [] \<or> is_tag_prefix p slug then (p, [], segs)
                      else (p\<lparr>line_buffer := [], detect_tag := False\<rparr>, [], push_text p (line_buffer p) segs))
        else if ch = nl then (p\<lparr>detect_tag := True\<rparr>, [], push_text p (run @ [ch]) segs)
        else (p, run @ [ch], segs))"

definition tagged_parse ::
  "'t tagged_line_parser \<Rightarrow> rstr \<Rightarrow> 't tagged_line_segment list \<times> 't tagged_line_parser" where
  "tagged_parse p delta =
     (case fold parse_char delta (p, [], []) of
        (p, run, segs) \<Rightarrow> (if run \<noteq> [] then push_text p run segs else segs, p))"

definition tagged_finish :: "'t tagged_line_parser \<Rightarrow> 't tagged_line_segment list \<times> 't tagged_line_parser" where
  "tagged_finish p =
     (let (p, segs) =
        (if line_buffer p \<noteq> [] then
           let buffered = line_buffer p;
               p = p\<lparr>line_buffer := []\<rparr>;
               slug = trim_end (trim_start (strip_newline buffered))
           in case line_tag (tp_specs p) (tp_active p) slug of
                Some seg \<Rightarrow> (p\<lparr>tp_active := active_after seg\<rparr>, push_segment [] seg)
              | None \<Rightarrow> (p, push_text p buffered [])
         else (p, []));
        segs = (case tp_active p of Some tag \<Rightarrow> push_segment segs (TagEnd tag) | None \<Rightarrow> segs)
      in (segs, p\<lparr>tp_active := None, detect_tag := True\<rparr>))"

section \<open>Proposed plans\<close>

datatype plan_tag = ProposedPlan

datatype proposed_plan_segment =
  PlanNormal rstr | ProposedPlanStart | ProposedPlanDelta rstr | ProposedPlanEnd

definition OPEN_TAG :: rstr where "OPEN_TAG = lit ''<proposed_plan>''"
definition CLOSE_TAG :: rstr where "CLOSE_TAG = lit ''</proposed_plan>''"

type_synonym proposed_plan_parser = "plan_tag tagged_line_parser"

definition plan_specs :: "plan_tag tag_spec list" where
  "plan_specs = [\<lparr>tl_open = OPEN_TAG, tl_close = CLOSE_TAG, tl_tag = ProposedPlan\<rparr>]"

definition plan_new :: proposed_plan_parser where
  "plan_new = tagged_new plan_specs"

fun map_segment :: "plan_tag tagged_line_segment \<Rightarrow> proposed_plan_segment" where
  "map_segment (Normal s) = PlanNormal s"
| "map_segment (TagStart ProposedPlan) = ProposedPlanStart"
| "map_segment (TagDelta ProposedPlan s) = ProposedPlanDelta s"
| "map_segment (TagEnd ProposedPlan) = ProposedPlanEnd"

fun segment_visible :: "proposed_plan_segment \<Rightarrow> rstr" where
  "segment_visible (PlanNormal s) = s"
| "segment_visible _ = []"

definition map_segments :: "plan_tag tagged_line_segment list \<Rightarrow> proposed_plan_segment stream_text_chunk" where
  "map_segments segs =
     \<lparr>visible_text = concat (map (segment_visible \<circ> map_segment) segs), extracted = map map_segment segs\<rparr>"

definition plan_push_str ::
  "proposed_plan_parser \<Rightarrow> rstr \<Rightarrow> (proposed_plan_segment stream_text_chunk \<times> proposed_plan_parser) option" where
  "plan_push_str p chunk = (case tagged_parse p chunk of (segs, p) \<Rightarrow> Some (map_segments segs, p))"

definition plan_finish :: "proposed_plan_parser \<Rightarrow> proposed_plan_segment stream_text_chunk \<times> proposed_plan_parser" where
  "plan_finish p = (case tagged_finish p of (segs, p) \<Rightarrow> (map_segments segs, p))"

text \<open>All the segments of a whole text.\<close>

definition plan_segments_of :: "rstr \<Rightarrow> proposed_plan_segment stream_text_chunk" where
  "plan_segments_of s =
     (case tagged_parse plan_new s of (segs, p) \<Rightarrow> chunk_append (map_segments segs) (fst (plan_finish p)))"

definition strip_proposed_plan_blocks :: "rstr \<Rightarrow> rstr" where
  "strip_proposed_plan_blocks s = visible_text (plan_segments_of s)"

fun plan_text_step :: "proposed_plan_segment \<Rightarrow> bool \<times> rstr \<Rightarrow> bool \<times> rstr" where
  "plan_text_step ProposedPlanStart (saw, s) = (True, [])"
| "plan_text_step (ProposedPlanDelta d) (saw, s) = (saw, s @ d)"
| "plan_text_step ProposedPlanEnd (saw, s) = (saw, s)"
| "plan_text_step (PlanNormal t) (saw, s) = (saw, s)"

definition extract_proposed_plan_text :: "rstr \<Rightarrow> rstr option" where
  "extract_proposed_plan_text s =
     (case fold plan_text_step (extracted (plan_segments_of s)) (False, []) of
        (saw, t) \<Rightarrow> if saw then Some t else None)"

section \<open>Joining segments\<close>

text \<open>Neighbouring pieces of the same text count as one; \<open>merge\<close> is the normal form.\<close>

definition merge :: "'t tagged_line_segment list \<Rightarrow> 't tagged_line_segment list" where
  "merge segs = foldl push_segment [] segs"

lemma push_segment_simps:
  "push_segment segs (TagStart t) = segs @ [TagStart t]"
  "push_segment segs (TagEnd t) = segs @ [TagEnd t]"
  "push_segment segs (Normal []) = segs"
  "push_segment segs (TagDelta t []) = segs"
  "d \<noteq> [] \<Longrightarrow> push_segment (segs @ [Normal e]) (Normal d) = segs @ [Normal (e @ d)]"
  "d \<noteq> [] \<Longrightarrow> push_segment (segs @ [TagDelta t' e]) (TagDelta t d)
     = (if t' = t then segs @ [TagDelta t (e @ d)] else segs @ [TagDelta t' e, TagDelta t d])"
  "d \<noteq> [] \<Longrightarrow> (\<And>e. x \<noteq> Normal e) \<Longrightarrow> push_segment (segs @ [x]) (Normal d) = segs @ [x, Normal d]"
  "d \<noteq> [] \<Longrightarrow> (\<And>e. x \<noteq> TagDelta t e) \<Longrightarrow> push_segment (segs @ [x]) (TagDelta t d) = segs @ [x, TagDelta t d]"
  "d \<noteq> [] \<Longrightarrow> push_segment [] (Normal d) = [Normal d]"
  "d \<noteq> [] \<Longrightarrow> push_segment [] (TagDelta t d) = [TagDelta t d]"
  by (auto simp: push_segment_def split: tagged_line_segment.splits)

lemma push_text_twice:
  "push_segment (push_segment segs (text_segment a s)) (text_segment a t) = push_segment segs (text_segment a (s @ t))"
proof (cases "s = [] \<or> t = []")
  case True
  then show ?thesis by (auto simp: text_segment_def push_segment_simps split: option.splits)
next
  case False
  then show ?thesis
    by (cases segs rule: rev_cases)
       (auto simp: text_segment_def push_segment_def butlast_append split: option.splits tagged_line_segment.splits)
qed

lemmas push_text_twice_tag = push_text_twice [of _ None, unfolded text_segment_def option.case]
  push_text_twice [of _ "Some t" for t, unfolded text_segment_def option.case]

lemma foldl_push_segment: "foldl push_segment acc (push_segment segs y) = push_segment (foldl push_segment acc segs) y"
proof (cases "\<exists>t. y = Normal [] \<or> y = TagDelta t []")
  case True
  then show ?thesis by (auto simp: push_segment_simps)
next
  case False
  show ?thesis
  proof (cases segs rule: rev_cases)
    case Nil
    with False show ?thesis by (cases y) (simp_all add: push_segment_simps)
  next
    case (snoc segs' x)
    then show ?thesis using False
      by (cases y; cases x) (auto simp: push_segment_simps push_text_twice_tag)
  qed
qed

lemma foldl_merge: "foldl push_segment acc (merge segs) = foldl push_segment acc segs"
  by (induction segs rule: rev_induct) (simp_all add: merge_def foldl_push_segment)

lemma merge_merge [simp]: "merge (merge segs) = merge segs"
  using foldl_merge [of "[]" segs] by (simp add: merge_def)

lemma merge_append: "merge (xs @ ys) = foldl push_segment (merge xs) ys"
  by (simp add: merge_def)

lemma merge_append_merge: "merge (merge xs @ merge ys) = merge (xs @ ys)"
  by (simp add: merge_append foldl_merge)

lemma merge_append_cong: "merge xs = merge xs' \<Longrightarrow> merge ys = merge ys' \<Longrightarrow> merge (xs @ ys) = merge (xs' @ ys')"
  by (metis merge_append_merge)

section \<open>The parser without the run buffer\<close>

text \<open>
  The same parser with every char of plain text pushed at once; the runs only save pushes.
\<close>

definition raw_char :: "rchar \<Rightarrow> 't tagged_line_parser \<Rightarrow> 't tagged_line_parser \<times> 't tagged_line_segment list" where
  "raw_char ch p =
     (if detect_tag p then
        (let p = p\<lparr>line_buffer := line_buffer p @ [ch]\<rparr>
         in if ch = nl then
              (let slug = trim_end (trim_start (strip_newline (line_buffer p))); line = line_buffer p;
                   p = p\<lparr>line_buffer := []\<rparr>
               in case line_tag (tp_specs p) (tp_active p) slug of
                    Some seg \<Rightarrow> (p\<lparr>tp_active := active_after seg, detect_tag := True\<rparr>, [seg])
                  | None \<Rightarrow> (p\<lparr>detect_tag := True\<rparr>, [text_segment (tp_active p) line]))
            else if trim_start (line_buffer p) = [] \<or> is_tag_prefix p (trim_start (line_buffer p)) then (p, [])
            else (p\<lparr>line_buffer := [], detect_tag := False\<rparr>, [text_segment (tp_active p) (line_buffer p)]))
      else (p\<lparr>detect_tag := (ch = nl)\<rparr>, [text_segment (tp_active p) [ch]]))"

fun raw_parse :: "rstr \<Rightarrow> 't tagged_line_parser \<Rightarrow> 't tagged_line_parser \<times> 't tagged_line_segment list" where
  "raw_parse [] p = (p, [])"
| "raw_parse (ch # s) p =
     (case raw_char ch p of (p, xs) \<Rightarrow> (case raw_parse s p of (p, ys) \<Rightarrow> (p, xs @ ys)))"

definition flush_run :: "'t tagged_line_parser \<Rightarrow> rstr \<Rightarrow> 't tagged_line_segment list \<Rightarrow> 't tagged_line_segment list" where
  "flush_run p run segs = (if run \<noteq> [] then push_text p run segs else segs)"

lemma flush_run_eq: "flush_run p run segs = push_segment segs (text_segment (tp_active p) run)"
  by (auto simp: flush_run_def push_text_def text_segment_def push_segment_simps split: option.splits)

lemma parse_char_raw:
  assumes "parse_char ch (p, run, segs) = (q, run', segs')" "raw_char ch p = (q', xs)"
    and "detect_tag p \<longrightarrow> run = []"
  shows "q' = q \<and> flush_run q run' segs' = foldl push_segment (flush_run p run segs) xs
    \<and> (detect_tag q \<longrightarrow> run' = [])"
  using assms
  by (auto simp: parse_char_def raw_char_def finish_line_def Let_def flush_run_eq push_text_def
      push_text_twice_tag text_segment_def push_segment_simps split: if_splits option.splits prod.splits)

lemma fold_parse_char_raw:
  "fold parse_char s (p, run, segs) = (q, run', segs') \<Longrightarrow> raw_parse s p = (q', xs) \<Longrightarrow>
    (detect_tag p \<longrightarrow> run = []) \<Longrightarrow>
    q' = q \<and> flush_run q run' segs' = foldl push_segment (flush_run p run segs) xs"
proof (induction s arbitrary: p run segs xs)
  case (Cons ch s)
  obtain p1 run1 segs1 where 1: "parse_char ch (p, run, segs) = (p1, run1, segs1)" by (metis prod_cases3)
  obtain p2 ys zs where 2: "raw_char ch p = (p2, ys)" "raw_parse s p2 = (q', zs)" "xs = ys @ zs"
    using Cons.prems(2) by (auto split: prod.splits)
  from parse_char_raw [OF 1 2(1) Cons.prems(3)] have
    3: "p2 = p1" "flush_run p1 run1 segs1 = foldl push_segment (flush_run p run segs) ys"
      "detect_tag p1 \<longrightarrow> run1 = []" by auto
  from Cons.IH [of p1 run1 segs1 zs] Cons.prems(1) 1 2 3 show ?case by simp
qed simp

lemma tagged_parse_raw: "tagged_parse p s = (merge (snd (raw_parse s p)), fst (raw_parse s p))"
proof -
  obtain q run segs where 1: "fold parse_char s (p, [], []) = (q, run, segs)" by (metis prod_cases3)
  obtain q' xs where 2: "raw_parse s p = (q', xs)" by fastforce
  from fold_parse_char_raw [OF 1 2] have "q' = q" "flush_run q run segs = foldl push_segment [] xs"
    by (auto simp: flush_run_def)
  with 1 2 show ?thesis by (simp add: tagged_parse_def merge_def flush_run_def)
qed

lemma raw_parse_append:
  "raw_parse (s @ t) p = (case raw_parse s p of (p, xs) \<Rightarrow> (case raw_parse t p of (p, ys) \<Rightarrow> (p, xs @ ys)))"
  by (induction s arbitrary: p) (auto split: prod.splits)

fun plan_segment :: "proposed_plan_segment \<Rightarrow> plan_tag tagged_line_segment" where
  "plan_segment (PlanNormal s) = Normal s"
| "plan_segment ProposedPlanStart = TagStart ProposedPlan"
| "plan_segment (ProposedPlanDelta s) = TagDelta ProposedPlan s"
| "plan_segment ProposedPlanEnd = TagEnd ProposedPlan"

lemma plan_segment_map_segment [simp]: "plan_segment (map_segment x) = x"
  by (induction x rule: map_segment.induct) auto

definition plan_flat :: "proposed_plan_segment list \<Rightarrow> plan_tag tagged_line_segment list" where
  "plan_flat xs = merge (map plan_segment xs)"

fun normal_text :: "'t tagged_line_segment \<Rightarrow> rstr" where
  "normal_text (Normal s) = s"
| "normal_text _ = []"

lemma segment_visible_map [simp]: "segment_visible (map_segment x) = normal_text x"
  by (induction x rule: map_segment.induct) auto

lemma normal_text_push: "concat (map normal_text (push_segment segs x)) = concat (map normal_text segs) @ normal_text x"
  by (cases segs rule: rev_cases; cases x)
     (auto simp: push_segment_def split: tagged_line_segment.splits)

lemma normal_text_merge [simp]: "concat (map normal_text (merge segs)) = concat (map normal_text segs)"
  unfolding merge_def by (induction segs rule: rev_induct) (simp_all add: normal_text_push)

lemma map_segments_simps [simp]:
  "visible_text (map_segments segs) = concat (map normal_text segs)"
  "plan_flat (extracted (map_segments segs)) = merge segs"
  "plan_flat (extracted (map_segments xs) @ extracted (map_segments ys)) = merge (xs @ ys)"
  by (simp_all add: map_segments_def plan_flat_def comp_def)

interpretation plan: stream_text_parser plan_push_str "\<lambda>p. True" plan_flat
proof unfold_locales
  fix p s t c q d r
  assume "plan_push_str p s = Some (c, q)" "plan_push_str q t = Some (d, r)"
  then show "\<exists>e. plan_push_str p (s @ t) = Some (e, r) \<and> visible_text e = visible_text c @ visible_text d
      \<and> plan_flat (extracted e) = plan_flat (extracted c @ extracted d)"
    by (auto simp: plan_push_str_def tagged_parse_raw raw_parse_append merge_append_merge split: prod.splits)
next
  fix xs xs' ys ys'
  assume "plan_flat xs = plan_flat xs'" "plan_flat ys = plan_flat ys'"
  then show "plan_flat (xs @ ys) = plan_flat (xs' @ ys')"
    using merge_append_cong by (simp add: plan_flat_def)
qed (auto simp: plan_push_str_def tagged_parse_raw map_segments_def chunk_default_def merge_def split: prod.splits)

section \<open>A reference that reads whole lines\<close>

definition split_inclusive :: "rstr \<Rightarrow> rstr list" where
  "split_inclusive s =
     (let ps = split_on nl s
      in map (\<lambda>l. l @ [nl]) (butlast ps) @ (if last ps = [] then [] else [last ps]))"

definition ref_line :: "'t tag_spec list \<Rightarrow> 't option \<Rightarrow> rstr \<Rightarrow> 't option \<times> 't tagged_line_segment list" where
  "ref_line specs active l =
     (case line_tag specs active (trim l) of
        Some seg \<Rightarrow> (active_after seg, [seg])
      | None \<Rightarrow> (active, [text_segment active l]))"

fun ref_lines :: "'t tag_spec list \<Rightarrow> 't option \<Rightarrow> rstr list \<Rightarrow> 't option \<times> 't tagged_line_segment list" where
  "ref_lines specs active [] = (active, [])"
| "ref_lines specs active (l # ls) =
     (case ref_line specs active l of (active, xs) \<Rightarrow>
        (case ref_lines specs active ls of (active, ys) \<Rightarrow> (active, xs @ ys)))"

definition line_reference :: "'t tag_spec list \<Rightarrow> rstr \<Rightarrow> 't tagged_line_segment list" where
  "line_reference specs s =
     (case ref_lines specs None (split_inclusive s) of (active, xs) \<Rightarrow>
        xs @ (case active of Some tag \<Rightarrow> [TagEnd tag] | None \<Rightarrow> []))"

lemma trim_nl [simp]: "trim (l @ [nl]) = trim l"
proof (cases "trim_start l = []")
  case True
  then have "trim_start (l @ [nl]) = []" by (auto simp: trim_start_empty is_whitespace_def)
  with True show ?thesis by (simp add: trim_def)
next
  case False
  then have "trim_start (l @ [nl]) = trim_start l @ [nl]" by (auto simp: trim_start_def)
  then show ?thesis by (simp add: trim_def trim_end_def is_whitespace_def)
qed

lemma prefix_trim_end: "prefix (trim_end v) (trim_end (v @ r))"
proof (cases "\<forall>c \<in> set r. is_whitespace c")
  case True
  then have "dropWhile is_whitespace (rev r @ rev v) = dropWhile is_whitespace (rev v)"
    by (intro dropWhile_append2) auto
  then show ?thesis by (simp add: trim_end_def)
next
  case False
  then obtain c where "c \<in> set (rev r)" "\<not> is_whitespace c" by auto
  then have "trim_end (v @ r) = v @ trim_end r"
    unfolding trim_end_def rev_append by (simp add: dropWhile_append1 [of c])
  moreover have "v = trim_end v @ rev (takeWhile is_whitespace (rev v))"
    unfolding trim_end_def rev_append [symmetric] by simp
  ultimately have "trim_end (v @ r) = trim_end v @ rev (takeWhile is_whitespace (rev v)) @ trim_end r"
    by (metis append.assoc)
  then show ?thesis by (rule prefixI)
qed

lemma prefix_trim: "prefix w u \<Longrightarrow> trim_start w \<noteq> [] \<Longrightarrow> prefix (trim_end (trim_start w)) (trim u)"
proof -
  assume "prefix w u" "trim_start w \<noteq> []"
  then obtain r where "trim_start u = trim_start w @ r"
    by (auto simp: prefix_def trim_start_def dropWhile_append1)
  then show ?thesis by (simp add: trim_def prefix_trim_end)
qed

text \<open>A line is held back as long as every beginning of it may become a tag.\<close>

definition held :: "'t tagged_line_parser \<Rightarrow> rstr \<Rightarrow> bool" where
  "held p u \<longleftrightarrow> (\<forall>w. w \<noteq> [] \<longrightarrow> prefix w u \<longrightarrow> trim_start w = [] \<or> is_tag_prefix p (trim_start w))"

lemma held_Nil [simp]: "held p []"
  by (simp add: held_def)

lemma held_snoc: "held p (u @ [c]) \<longleftrightarrow>
    held p u \<and> (trim_start (u @ [c]) = [] \<or> is_tag_prefix p (trim_start (u @ [c])))"
  by (auto simp: held_def)

lemma find_map_SomeD: "map_option f (find P xs) = Some y \<Longrightarrow> \<exists>x \<in> set xs. P x \<and> f x = y"
  by (auto dest: find_SomeD)

lemma line_tag_held:
  assumes "line_tag (tp_specs p) active (trim u) = Some seg"
  shows "held p u"
proof -
  from assms obtain sp where sp: "sp \<in> set (tp_specs p)" "tl_open sp = trim u \<or> tl_close sp = trim u"
    by (auto simp: line_tag_def match_open_def match_close_def split: option.splits if_splits dest!: find_map_SomeD find_SomeD)
  have "is_tag_prefix p (trim_start w)" if "prefix w u" "trim_start w \<noteq> []" for w
    using prefix_trim [OF that] sp
    by (auto simp: is_tag_prefix_def list_ex_iff starts_with_iff prefix_def intro!: bexI [of _ sp])
  then show ?thesis by (auto simp: held_def)
qed

definition line_start :: "'t tagged_line_parser \<Rightarrow> bool" where
  "line_start p \<longleftrightarrow> detect_tag p \<and> line_buffer p = []"

definition same_text :: "'t tagged_line_segment list \<Rightarrow> 't tagged_line_segment list \<Rightarrow> bool" where
  "same_text xs ys \<longleftrightarrow> (\<forall>acc. foldl push_segment acc xs = foldl push_segment acc ys)"

lemma same_text_refl [simp]: "same_text xs xs"
  by (simp add: same_text_def)

lemma same_text_append: "same_text xs xs' \<Longrightarrow> same_text ys ys' \<Longrightarrow> same_text (xs @ ys) (xs' @ ys')"
  unfolding same_text_def foldl_append by metis

lemma same_text_join: "same_text xs [text_segment a s] \<Longrightarrow> same_text (xs @ [text_segment a t]) [text_segment a (s @ t)]"
  by (simp add: same_text_def push_text_twice)

lemma raw_parse_partial:
  assumes "nl \<notin> set u" "line_start p"
  shows "if held p u then raw_parse u p = (p\<lparr>line_buffer := u\<rparr>, [])
    else \<exists>xs. raw_parse u p = (p\<lparr>detect_tag := False\<rparr>, xs) \<and> same_text xs [text_segment (tp_active p) u]"
  using assms(1)
proof (induction u rule: rev_induct)
  case Nil
  from assms(2) show ?case by (simp add: line_start_def)
next
  case (snoc c u)
  show ?case
  proof (cases "held p u")
    case True
    with snoc have "raw_parse u p = (p\<lparr>line_buffer := u\<rparr>, [])" by simp
    with True snoc.prems assms(2) show ?thesis
      by (auto simp: raw_parse_append raw_char_def held_snoc line_start_def is_tag_prefix_def)
  next
    case False
    with snoc obtain xs where
      "raw_parse u p = (p\<lparr>detect_tag := False\<rparr>, xs)" "same_text xs [text_segment (tp_active p) u]" by auto
    with False snoc.prems show ?thesis
      by (auto simp: raw_parse_append raw_char_def held_snoc intro: same_text_join)
  qed
qed

lemma strip_newline_simps [simp]: "strip_newline (l @ [nl]) = l" "nl \<notin> set l \<Longrightarrow> strip_newline l = l"
  by (auto simp: strip_newline_def strip_suffix_def ends_with_iff)

lemma raw_parse_line:
  assumes "nl \<notin> set l" "line_start p"
  shows "\<exists>xs. raw_parse (l @ [nl]) p = (p\<lparr>tp_active := fst (ref_line (tp_specs p) (tp_active p) (l @ [nl]))\<rparr>, xs)
    \<and> same_text xs (snd (ref_line (tp_specs p) (tp_active p) (l @ [nl])))"
proof (cases "held p l")
  case True
  with raw_parse_partial [OF assms] have "raw_parse l p = (p\<lparr>line_buffer := l\<rparr>, [])" by simp
  moreover have "p\<lparr>line_buffer := [], detect_tag := True\<rparr> = p" using assms(2) by (simp add: line_start_def)
  ultimately show ?thesis using assms(2)
    by (auto simp: raw_parse_append raw_char_def Let_def ref_line_def trim_def [symmetric] line_start_def
        split: option.splits)
next
  case False
  with raw_parse_partial [OF assms] obtain xs where
    xs: "raw_parse l p = (p\<lparr>detect_tag := False\<rparr>, xs)" "same_text xs [text_segment (tp_active p) l]" by auto
  from False line_tag_held have "line_tag (tp_specs p) (tp_active p) (trim l) = None" by fastforce
  moreover have "p\<lparr>detect_tag := True\<rparr> = p" using assms(2) by (simp add: line_start_def)
  ultimately show ?thesis using xs
    by (auto simp: raw_parse_append raw_char_def ref_line_def intro: same_text_join)
qed

lemma line_start_active [simp]: "line_start (p\<lparr>tp_active := a\<rparr>) = line_start p"
  by (simp add: line_start_def)

lemma raw_parse_lines:
  "\<forall>l \<in> set ls. nl \<notin> set l \<Longrightarrow> line_start p \<Longrightarrow>
    \<exists>xs. raw_parse (concat (map (\<lambda>l. l @ [nl]) ls)) p
        = (p\<lparr>tp_active := fst (ref_lines (tp_specs p) (tp_active p) (map (\<lambda>l. l @ [nl]) ls))\<rparr>, xs)
      \<and> same_text xs (snd (ref_lines (tp_specs p) (tp_active p) (map (\<lambda>l. l @ [nl]) ls)))"
proof (induction ls arbitrary: p)
  case Nil
  then show ?case by simp
next
  case (Cons l ls)
  let ?r = "ref_line (tp_specs p) (tp_active p) (l @ [nl])"
  from raw_parse_line [of l p] Cons.prems obtain xs where
    xs: "raw_parse (l @ [nl]) p = (p\<lparr>tp_active := fst ?r\<rparr>, xs)" "same_text xs (snd ?r)" by auto
  from Cons.IH [of "p\<lparr>tp_active := fst ?r\<rparr>"] Cons.prems obtain ys where
    "raw_parse (concat (map (\<lambda>l. l @ [nl]) ls)) (p\<lparr>tp_active := fst ?r\<rparr>)
      = (p\<lparr>tp_active := fst (ref_lines (tp_specs p) (fst ?r) (map (\<lambda>l. l @ [nl]) ls))\<rparr>, ys)"
    "same_text ys (snd (ref_lines (tp_specs p) (fst ?r) (map (\<lambda>l. l @ [nl]) ls)))" by auto
  with xs show ?case
    using raw_parse_append [of "l @ [nl]" "concat (map (\<lambda>l. l @ [nl]) ls)" p]
    by (auto simp: same_text_append split: prod.splits)
qed

definition end_tag :: "'t option \<Rightarrow> 't tagged_line_segment list" where
  "end_tag active = (case active of Some tag \<Rightarrow> [TagEnd tag] | None \<Rightarrow> [])"

definition ref_rest :: "'t tag_spec list \<Rightarrow> 't option \<Rightarrow> rstr \<Rightarrow> 't option \<times> 't tagged_line_segment list" where
  "ref_rest specs active u = (if u = [] then (active, []) else ref_line specs active u)"

definition closed :: "'t option \<times> 't tagged_line_segment list \<Rightarrow> 't tagged_line_segment list" where
  "closed r = snd r @ end_tag (fst r)"

lemma same_text_merge: "same_text (merge xs) xs"
  by (simp add: same_text_def foldl_merge)

lemma tagged_finish_merge:
  assumes "nl \<notin> set (line_buffer q)"
  shows "fst (tagged_finish q) = merge (closed (ref_rest (tp_specs q) (tp_active q) (line_buffer q)))"
proof (cases "line_buffer q = []")
  case True
  then show ?thesis
    by (cases "tp_active q") (simp_all add: tagged_finish_def closed_def ref_rest_def end_tag_def merge_def push_segment_simps)
next
  case False
  then show ?thesis using assms
    by (cases "line_tag (tp_specs q) (tp_active q) (trim (line_buffer q))"; cases "tp_active q";
        simp add: tagged_finish_def closed_def ref_rest_def ref_line_def end_tag_def merge_def push_text_def
          trim_def [symmetric] split: option.splits)
qed

lemma finish_partial:
  assumes "nl \<notin> set u" "line_start p"
  shows "case raw_parse u p of (q, xs) \<Rightarrow>
    same_text (xs @ fst (tagged_finish q)) (closed (ref_rest (tp_specs p) (tp_active p) u))"
proof (cases "held p u")
  case True
  with raw_parse_partial [OF assms] have "raw_parse u p = (p\<lparr>line_buffer := u\<rparr>, [])" by simp
  then show ?thesis using assms by (simp add: tagged_finish_merge same_text_merge)
next
  case False
  with raw_parse_partial [OF assms] obtain xs where
    xs: "raw_parse u p = (p\<lparr>detect_tag := False\<rparr>, xs)" "same_text xs [text_segment (tp_active p) u]" by auto
  from False have "u \<noteq> []" by auto
  from False line_tag_held have "line_tag (tp_specs p) (tp_active p) (trim u) = None" by fastforce
  then have "ref_line (tp_specs p) (tp_active p) u = (tp_active p, [text_segment (tp_active p) u])"
    by (simp add: ref_line_def)
  moreover have "fst (tagged_finish (p\<lparr>detect_tag := False\<rparr>)) = merge (end_tag (tp_active p))"
    using assms(2) by (simp add: tagged_finish_merge line_start_def closed_def ref_rest_def)
  ultimately show ?thesis using xs \<open>u \<noteq> []\<close> same_text_append [OF xs(2) same_text_merge [of "end_tag (tp_active p)"]]
    by (simp add: closed_def ref_rest_def)
qed

lemma split_inclusive_parts:
  "\<exists>ls u. split_inclusive s = map (\<lambda>l. l @ [nl]) ls @ (if u = [] then [] else [u])
    \<and> s = concat (map (\<lambda>l. l @ [nl]) ls) @ u \<and> (\<forall>l \<in> set ls. nl \<notin> set l) \<and> nl \<notin> set u"
proof -
  let ?ps = "split_on nl s"
  have "ps \<noteq> [] \<Longrightarrow> join [nl] ps = concat (map (\<lambda>l. l @ [nl]) (butlast ps)) @ last ps" for ps
    by (induction "[nl]" ps rule: join.induct) auto
  from this [of ?ps] have "s = concat (map (\<lambda>l. l @ [nl]) (butlast ?ps)) @ last ?ps" by simp
  moreover have "\<forall>l \<in> set (butlast ?ps). nl \<notin> set l" "nl \<notin> set (last ?ps)"
    using split_on_no_sep in_set_butlastD last_in_set split_on_neq_Nil by metis+
  ultimately show ?thesis unfolding split_inclusive_def Let_def by blast
qed

lemma ref_lines_append:
  "ref_lines specs a (xs @ ys) =
     (case ref_lines specs a xs of (a, us) \<Rightarrow> (case ref_lines specs a ys of (a, vs) \<Rightarrow> (a, us @ vs)))"
  by (induction xs arbitrary: a) (auto split: prod.splits)

lemma tagged_segments_reference:
  assumes "raw_parse s (tagged_new specs) = (q, xs)"
  shows "same_text (xs @ fst (tagged_finish q)) (line_reference specs s)"
proof -
  let ?p = "tagged_new specs" and ?ls = "\<lambda>ls. map (\<lambda>l. l @ [nl]) ls"
  obtain ls u where s: "split_inclusive s = ?ls ls @ (if u = [] then [] else [u])" "s = concat (?ls ls) @ u"
    "\<forall>l \<in> set ls. nl \<notin> set l" "nl \<notin> set u" using split_inclusive_parts by blast
  have p: "line_start ?p" "tp_specs ?p = specs" "tp_active ?p = None"
    by (simp_all add: tagged_new_def line_start_def)
  let ?r = "ref_lines specs None (?ls ls)" and ?p' = "?p\<lparr>tp_active := fst (ref_lines specs None (?ls ls))\<rparr>"
  from raw_parse_lines [OF s(3) p(1)] p obtain ys where
    ys: "raw_parse (concat (?ls ls)) ?p = (?p', ys)" "same_text ys (snd ?r)" by auto
  obtain zs where zs: "raw_parse u ?p' = (q, zs)" "xs = ys @ zs"
    using assms ys(1) unfolding s(2) raw_parse_append by (auto split: prod.splits)
  have p': "line_start ?p'" "tp_specs ?p' = specs" "tp_active ?p' = fst ?r" using p by simp_all
  have "same_text (zs @ fst (tagged_finish q)) (closed (ref_rest specs (fst ?r) u))"
    using finish_partial [OF s(4) p'(1)] unfolding zs(1) p'(2,3) by simp
  from same_text_append [OF ys(2) this] have
    "same_text (xs @ fst (tagged_finish q)) (snd ?r @ closed (ref_rest specs (fst ?r) u))" using zs(2) by simp
  moreover have "ref_lines specs (fst ?r) (if u = [] then [] else [u]) = ref_rest specs (fst ?r) u"
    by (simp add: ref_rest_def split: prod.splits)
  then have "ref_lines specs None (split_inclusive s)
      = (fst (ref_rest specs (fst ?r) u), snd ?r @ snd (ref_rest specs (fst ?r) u))"
    unfolding s(1) ref_lines_append by (simp add: case_prod_beta)
  then have "line_reference specs s = snd ?r @ closed (ref_rest specs (fst ?r) u)"
    by (simp add: line_reference_def closed_def end_tag_def)
  ultimately show ?thesis by simp
qed

section \<open>Properties of the plan parser\<close>

definition is_start :: "'t tagged_line_segment \<Rightarrow> bool" where
  "is_start x \<longleftrightarrow> (case x of TagStart t \<Rightarrow> True | _ \<Rightarrow> False)"

fun block_text :: "'t tagged_line_segment \<Rightarrow> rstr" where
  "block_text (TagDelta t s) = s"
| "block_text _ = []"

text \<open>The text of the last plan block of a segment list.\<close>

definition last_block :: "'t tagged_line_segment list \<Rightarrow> rstr option" where
  "last_block xs =
     (if list_ex is_start xs
      then Some (concat (map block_text (rev (takeWhile (\<lambda>x. \<not> is_start x) (rev xs))))) else None)"

lemma plan_text_step_push:
  "fold plan_text_step (map map_segment (push_segment xs x)) st
     = plan_text_step (map_segment x) (fold plan_text_step (map map_segment xs) st)"
proof -
  have t: "map_segment (TagDelta t s) = ProposedPlanDelta s" "map_segment (TagStart t) = ProposedPlanStart"
    "map_segment (TagEnd t) = ProposedPlanEnd" for t s by (cases t, simp)+
  show ?thesis
    by (cases xs rule: rev_cases; cases "fold plan_text_step (map map_segment (butlast xs)) st"; cases x)
       (auto simp: push_segment_def t split: tagged_line_segment.splits)
qed

lemma plan_text_step_merge:
  "fold plan_text_step (map map_segment (merge xs)) st = fold plan_text_step (map map_segment xs) st"
  unfolding merge_def by (induction xs rule: rev_induct) (simp_all add: plan_text_step_push)

lemma plan_text_last_block:
  "fold plan_text_step (map map_segment xs) (False, [])
     = (list_ex is_start xs, concat (map block_text (rev (takeWhile (\<lambda>x. \<not> is_start x) (rev xs)))))"
proof (induction xs rule: rev_induct)
  case (snoc x xs)
  then show ?case
    by (induction x rule: map_segment.induct) (simp_all add: is_start_def list_ex_append)
qed simp

lemma plan_segments_merge:
  "\<exists>segs. same_text segs (line_reference plan_specs s) \<and> merge segs = merge (line_reference plan_specs s)
    \<and> plan_segments_of s = \<lparr>visible_text = concat (map normal_text segs), extracted = map map_segment segs\<rparr>"
proof -
  obtain q xs where q: "raw_parse s (tagged_new plan_specs) = (q, xs)" by fastforce
  let ?segs = "merge xs @ fst (tagged_finish q)"
  have "same_text ?segs (xs @ fst (tagged_finish q))"
    by (intro same_text_append same_text_merge same_text_refl)
  with tagged_segments_reference [OF q] have same: "same_text ?segs (line_reference plan_specs s)"
    unfolding same_text_def by metis
  then have "merge ?segs = merge (line_reference plan_specs s)"
    unfolding same_text_def merge_def by blast
  moreover have "plan_segments_of s = \<lparr>visible_text = concat (map normal_text ?segs), extracted = map map_segment ?segs\<rparr>"
    by (simp add: plan_segments_of_def plan_new_def tagged_parse_raw q plan_finish_def map_segments_def
        chunk_append_def comp_def split: prod.splits)
  ultimately show ?thesis using same by blast
qed

text \<open>
  C19. Plan parsing is what a reader of whole lines would do: although the parser decides char by
  char when to let a line go, its segments are, up to joining neighbouring texts, those of the
  reference that splits the text into lines and takes a line as a tag exactly when the line without
  surrounding white space is one. The visible text is the text outside the plan blocks, and the
  extracted plan is the text of the last block.
\<close>

theorem plan_blocks_by_line:
  "strip_proposed_plan_blocks s = concat (map normal_text (line_reference plan_specs s))
    \<and> plan_flat (extracted (plan_segments_of s)) = merge (line_reference plan_specs s)
    \<and> extract_proposed_plan_text s = last_block (line_reference plan_specs s)"
proof -
  obtain segs where segs: "merge segs = merge (line_reference plan_specs s)"
    "plan_segments_of s = \<lparr>visible_text = concat (map normal_text segs), extracted = map map_segment segs\<rparr>"
    using plan_segments_merge by blast
  have "strip_proposed_plan_blocks s = concat (map normal_text (merge (line_reference plan_specs s)))"
    unfolding strip_proposed_plan_blocks_def segs(2) segs(1) [symmetric] by simp
  moreover have "fold plan_text_step (extracted (plan_segments_of s)) (False, [])
      = fold plan_text_step (map map_segment (line_reference plan_specs s)) (False, [])"
    using plan_text_step_merge [of segs] plan_text_step_merge [of "line_reference plan_specs s"]
    by (simp add: segs)
  ultimately show ?thesis using segs
    by (simp add: plan_flat_def comp_def extract_proposed_plan_text_def plan_text_last_block last_block_def)
qed

end
