(* ===== verification/Stream_Assistant.thy ===== *)
theory Stream_Assistant
  imports Stream_Plan
begin

text \<open>
  The two compositions of codex-rs/utils/stream-parser: the parser for assistant text, which strips
  citations and then plan blocks (assistant_text.rs), and the wrapper that feeds raw bytes to any
  text parser (utf8_stream.rs).
\<close>

section \<open>Assistant text\<close>

record assistant_text_chunk =
  at_visible :: rstr
  at_citations :: "rstr list"
  at_plan_segments :: "proposed_plan_segment list"

definition assistant_chunk_default :: assistant_text_chunk where
  "assistant_chunk_default = \<lparr>at_visible = [], at_citations = [], at_plan_segments = []\<rparr>"

record assistant_text_parser =
  as_plan_mode :: bool
  as_citations :: citation_stream_parser
  as_plan :: proposed_plan_parser

definition assistant_new :: "bool \<Rightarrow> assistant_text_parser option" where
  "assistant_new plan_mode =
     map_option (\<lambda>c. \<lparr>as_plan_mode = plan_mode, as_citations = c, as_plan = plan_new\<rparr>) citation_new"

definition parse_visible_text ::
  "assistant_text_parser \<Rightarrow> rstr \<Rightarrow> (assistant_text_chunk \<times> assistant_text_parser) option" where
  "parse_visible_text p visible =
     (if \<not> as_plan_mode p then Some (assistant_chunk_default\<lparr>at_visible := visible\<rparr>, p)
      else map_option (\<lambda>(chunk, plan).
        (assistant_chunk_default\<lparr>at_visible := visible_text chunk, at_plan_segments := extracted chunk\<rparr>,
         p\<lparr>as_plan := plan\<rparr>)) (plan_push_str (as_plan p) visible))"

definition assistant_push_str ::
  "assistant_text_parser \<Rightarrow> rstr \<Rightarrow> (assistant_text_chunk \<times> assistant_text_parser) option" where
  "assistant_push_str p chunk =
     (case citation_push_str (as_citations p) chunk of
        None \<Rightarrow> None
      | Some (cc, cit) \<Rightarrow>
          map_option (\<lambda>(out, p). (out\<lparr>at_citations := extracted cc\<rparr>, p))
            (parse_visible_text (p\<lparr>as_citations := cit\<rparr>) (visible_text cc)))"

definition assistant_finish ::
  "assistant_text_parser \<Rightarrow> (assistant_text_chunk \<times> assistant_text_parser) option" where
  "assistant_finish p =
     (case citation_finish (as_citations p) of (cc, cit) \<Rightarrow>
        (case parse_visible_text (p\<lparr>as_citations := cit\<rparr>) (visible_text cc) of
           None \<Rightarrow> None
         | Some (out, p) \<Rightarrow>
             (let (out, p) =
                (if as_plan_mode p then
                   case plan_finish (as_plan p) of (tail, plan) \<Rightarrow>
                     (if \<not> chunk_is_empty tail
                      then out\<lparr>at_visible := at_visible out @ visible_text tail,
                               at_plan_segments := at_plan_segments out @ extracted tail\<rparr>
                      else out, p\<lparr>as_plan := plan\<rparr>)
                 else (out, p))
              in Some (out\<lparr>at_citations := extracted cc\<rparr>, p))))"

definition assistant_append :: "assistant_text_chunk \<Rightarrow> assistant_text_chunk \<Rightarrow> assistant_text_chunk" where
  "assistant_append c d =
     \<lparr>at_visible = at_visible c @ at_visible d, at_citations = at_citations c @ at_citations d,
      at_plan_segments = at_plan_segments c @ at_plan_segments d\<rparr>"

text \<open>Everything a stream of chunks gives, to its end.\<close>

fun assistant_push_all ::
  "assistant_text_parser \<Rightarrow> rstr list \<Rightarrow> (assistant_text_chunk \<times> assistant_text_parser) option" where
  "assistant_push_all p [] = Some (assistant_chunk_default, p)"
| "assistant_push_all p (s # ss) =
     (case assistant_push_str p s of
        None \<Rightarrow> None
      | Some (c, p) \<Rightarrow> map_option (\<lambda>(d, p). (assistant_append c d, p)) (assistant_push_all p ss))"

definition assistant_collect :: "bool \<Rightarrow> rstr list \<Rightarrow> assistant_text_chunk option" where
  "assistant_collect plan_mode ss =
     (case assistant_new plan_mode of
        None \<Rightarrow> None
      | Some p \<Rightarrow>
          (case assistant_push_all p ss of
             None \<Rightarrow> None
           | Some (c, p) \<Rightarrow> map_option (\<lambda>(d, p). assistant_append c d) (assistant_finish p)))"

lemma assistant_simps [simp]:
  "at_visible assistant_chunk_default = []" "at_citations assistant_chunk_default = []"
  "at_plan_segments assistant_chunk_default = []"
  "at_visible (assistant_append c d) = at_visible c @ at_visible d"
  "at_citations (assistant_append c d) = at_citations c @ at_citations d"
  "at_plan_segments (assistant_append c d) = at_plan_segments c @ at_plan_segments d"
  by (simp_all add: assistant_chunk_default_def assistant_append_def)

lemma plan_push_str_returns: "\<exists>c q. plan_push_str p s = Some (c, q)"
  using plan.push_returns [of p s] by simp

text \<open>
  The chunks of the assistant parser are those of the citation parser, whose visible texts go to
  the plan parser one after the other.
\<close>

lemma assistant_push_all_split:
  assumes "inline_ok (as_citations p)"
  shows "\<exists>cc cit d q c. push_all citation_push_str (as_citations p) ss = Some (cc, cit)
    \<and> assistant_push_all p ss = Some (c, p\<lparr>as_citations := cit, as_plan := q\<rparr>)
    \<and> at_citations c = extracted cc
    \<and> (if as_plan_mode p
       then plan_push_str (as_plan p) (visible_text cc) = Some (d, q) \<and> at_visible c = visible_text d
         \<and> plan_flat (at_plan_segments c) = plan_flat (extracted d)
       else q = as_plan p \<and> at_visible c = visible_text cc \<and> at_plan_segments c = [])"
  using assms
proof (induction ss arbitrary: p)
  case Nil
  show ?case
    by (simp add: plan.push_empty, intro exI [of _ chunk_default] exI [of _ "as_plan p"]) simp
next
  case (Cons s ss)
  obtain c1 cit1 where 1: "citation_push_str (as_citations p) s = Some (c1, cit1)" "inline_ok cit1"
    using cit.push_returns [OF Cons.prems] by blast
  obtain d1 q1 where d1: "plan_push_str (as_plan p) (visible_text c1) = Some (d1, q1)"
    using plan_push_str_returns by blast
  show ?case
  proof (cases "as_plan_mode p")
    case False
    from Cons.IH [of "p\<lparr>as_citations := cit1\<rparr>"] 1(2) False obtain cc cit c where
      "push_all citation_push_str cit1 ss = Some (cc, cit)"
      "assistant_push_all (p\<lparr>as_citations := cit1\<rparr>) ss = Some (c, p\<lparr>as_citations := cit\<rparr>)"
      "at_citations c = extracted cc" "at_visible c = visible_text cc" "at_plan_segments c = []" by auto
    with 1(1) False show ?thesis by (simp add: assistant_push_str_def parse_visible_text_def)
  next
    case True
    let ?p = "p\<lparr>as_citations := cit1, as_plan := q1\<rparr>"
    from Cons.IH [of ?p] 1(2) True obtain cc cit d q c where
      2: "push_all citation_push_str cit1 ss = Some (cc, cit)"
      "assistant_push_all ?p ss = Some (c, p\<lparr>as_citations := cit, as_plan := q\<rparr>)"
      "at_citations c = extracted cc" "plan_push_str q1 (visible_text cc) = Some (d, q)"
      "at_visible c = visible_text d" "plan_flat (at_plan_segments c) = plan_flat (extracted d)" by auto
    from plan.push_twice [OF TrueI d1 2(4)] obtain e where
      "plan_push_str (as_plan p) (visible_text c1 @ visible_text cc) = Some (e, q)"
      "visible_text e = visible_text d1 @ visible_text d"
      "plan_flat (extracted e) = plan_flat (extracted d1 @ extracted d)" by blast
    moreover have "plan_flat (extracted d1 @ at_plan_segments c) = plan_flat (extracted d1 @ extracted d)"
      by (rule plan.flat_append [OF refl 2(6)])
    ultimately show ?thesis using 1(1) 2 d1 True
      by (simp add: assistant_push_str_def parse_visible_text_def)
  qed
qed

text \<open>What the stream is worth as a whole text.\<close>

definition assistant_whole :: "bool \<Rightarrow> rstr \<Rightarrow> (rstr \<times> rstr list \<times> plan_tag tagged_line_segment list) option" where
  "assistant_whole plan_mode s =
     (case strip_citations s of
        None \<Rightarrow> None
      | Some (visible, cited) \<Rightarrow>
          if plan_mode
          then Some (strip_proposed_plan_blocks visible, cited, merge (line_reference plan_specs visible))
          else Some (visible, cited, []))"

lemma plan_push_then_finish:
  assumes "plan_push_str plan_new s = Some (d, q)" "plan_push_str q t = Some (e, r)"
    and "plan_flat segs = plan_flat (extracted d)"
  shows "visible_text d @ visible_text e @ visible_text (fst (plan_finish r)) = strip_proposed_plan_blocks (s @ t)
    \<and> plan_flat (segs @ extracted e @ extracted (fst (plan_finish r))) = merge (line_reference plan_specs (s @ t))"
proof -
  from plan.push_twice [OF TrueI assms(1,2)] obtain f where
    f: "plan_push_str plan_new (s @ t) = Some (f, r)" "visible_text f = visible_text d @ visible_text e"
      "plan_flat (extracted f) = plan_flat (extracted d @ extracted e)" by blast
  obtain segs' where whole: "merge segs' = merge (line_reference plan_specs (s @ t))"
    "plan_segments_of (s @ t) = \<lparr>visible_text = concat (map normal_text segs'), extracted = map map_segment segs'\<rparr>"
    using plan_segments_merge by blast
  have w: "plan_segments_of (s @ t) = chunk_append f (fst (plan_finish r))"
    using f(1) by (simp add: plan_segments_of_def plan_push_str_def split: prod.splits)
  have "plan_flat (segs @ extracted e) = plan_flat (extracted f)"
    using f(3) plan.flat_append [OF assms(3), of "extracted e" "extracted e"] by simp
  from plan.flat_append [OF this, of "extracted (fst (plan_finish r))"]
  have "plan_flat (segs @ extracted e @ extracted (fst (plan_finish r))) = plan_flat (extracted (plan_segments_of (s @ t)))"
    by (simp add: w)
  also have "\<dots> = merge (line_reference plan_specs (s @ t))"
    by (simp add: whole plan_flat_def comp_def)
  finally show ?thesis using f(2) by (simp add: strip_proposed_plan_blocks_def w)
qed

text \<open>
  C11. The assistant parser composes its two parts for every cutting of the stream: it returns, its
  visible text is the text without citations and, in plan mode, without plan blocks, the citations
  are all citations in order, and the plan segments are, up to joining neighbouring texts, those of
  the text without citations. So a plan tag that only appears once a citation is removed is seen.
\<close>

theorem assistant_stream_composes:
  "\<exists>c w. assistant_collect plan_mode ss = Some c \<and> assistant_whole plan_mode (concat ss) = Some w
    \<and> w = (at_visible c, at_citations c, plan_flat (at_plan_segments c))"
proof -
  obtain p where p: "citation_new = Some p" "inline_ok p" using citation_new_ok by blast
  let ?a = "\<lparr>as_plan_mode = plan_mode, as_citations = p, as_plan = plan_new\<rparr>"
  from assistant_push_all_split [of ?a ss, unfolded assistant_text_parser.select_convs
      assistant_text_parser.update_convs, OF p(2)] obtain cc cit d q c where
    a: "push_all citation_push_str p ss = Some (cc, cit)"
      "assistant_push_all ?a ss = Some (c, \<lparr>as_plan_mode = plan_mode, as_citations = cit, as_plan = q\<rparr>)"
      "at_citations c = extracted cc"
      "if plan_mode
       then plan_push_str plan_new (visible_text cc) = Some (d, q) \<and> at_visible c = visible_text d
         \<and> plan_flat (at_plan_segments c) = plan_flat (extracted d)
       else q = plan_new \<and> at_visible c = visible_text cc \<and> at_plan_segments c = []"
    by blast
  from cit.push_all_joined [OF p(2), of ss] a(1) obtain e where
    e: "citation_push_str p (concat ss) = Some (e, cit)" "visible_text e = visible_text cc"
      "extracted e = extracted cc" by auto
  obtain tail cit' where t: "citation_finish cit = (tail, cit')" by fastforce
  have strip: "strip_citations (concat ss)
      = Some (visible_text cc @ visible_text tail, extracted cc @ extracted tail)"
    unfolding strip_citations_def p(1) by (simp add: e t Let_def)
  show ?thesis
  proof (cases plan_mode)
    case False
    with a t strip show ?thesis
      by (simp add: assistant_collect_def assistant_new_def p(1) assistant_finish_def parse_visible_text_def
          assistant_whole_def plan_flat_def merge_def)
  next
    case True
    obtain f r where f: "plan_push_str q (visible_text tail) = Some (f, r)" using plan_push_str_returns by blast
    obtain g r' where g: "plan_finish r = (g, r')" by fastforce
    from plan_push_then_finish [of "visible_text cc" d q "visible_text tail" f r "at_plan_segments c"] a(4) True f g
    have "visible_text d @ visible_text f @ visible_text g
        = strip_proposed_plan_blocks (visible_text cc @ visible_text tail)"
      "plan_flat (at_plan_segments c @ extracted f @ extracted g)
        = merge (line_reference plan_specs (visible_text cc @ visible_text tail))" by auto
    with True a t f g strip show ?thesis
      by (auto simp: assistant_collect_def assistant_new_def p(1) assistant_finish_def parse_visible_text_def
          assistant_whole_def chunk_is_empty_def)
  qed
qed

section \<open>Raw bytes\<close>

text \<open>
  \<open>str::from_utf8\<close> with the details of its error: the valid prefix, the bytes after it, and
  whether these are an unfinished code point (\<open>error_len\<close> is \<open>None\<close>) or start with an invalid
  sequence of the given length.
\<close>

datatype utf8_step = Decoded rchar "byte list" | Truncated | Malformed nat

definition second_ok :: "byte \<Rightarrow> byte \<Rightarrow> bool" where
  "second_ok a b \<longleftrightarrow>
     is_cont b \<and> (a = 224 \<longrightarrow> 160 \<le> b) \<and> (a = 237 \<longrightarrow> b < 160) \<and> (a = 240 \<longrightarrow> 144 \<le> b) \<and> (a = 244 \<longrightarrow> b < 144)"

fun utf8_next :: "byte \<Rightarrow> byte list \<Rightarrow> utf8_step" where
  "utf8_next a bs =
     (if a < 128 then Decoded a bs
      else if 194 \<le> a \<and> a < 224 then
        (case bs of
           b # bs \<Rightarrow> if is_cont b then Decoded ((a - 192) * 64 + (b - 128)) bs else Malformed 1
         | [] \<Rightarrow> Truncated)
      else if 224 \<le> a \<and> a < 240 then
        (case bs of
           b # bs \<Rightarrow>
             if \<not> second_ok a b then Malformed 1
             else (case bs of
                c # bs \<Rightarrow>
                  if is_cont c then Decoded ((a - 224) * 4096 + (b - 128) * 64 + (c - 128)) bs else Malformed 2
              | [] \<Rightarrow> Truncated)
         | [] \<Rightarrow> Truncated)
      else if 240 \<le> a \<and> a < 245 then
        (case bs of
           b # bs \<Rightarrow>
             if \<not> second_ok a b then Malformed 1
             else (case bs of
                c # bs \<Rightarrow>
                  if \<not> is_cont c then Malformed 2
                  else (case bs of
                     d # bs \<Rightarrow>
                       if is_cont d
                       then Decoded ((a - 240) * 262144 + (b - 128) * 4096 + (c - 128) * 64 + (d - 128)) bs
                       else Malformed 3
                   | [] \<Rightarrow> Truncated)
              | [] \<Rightarrow> Truncated)
         | [] \<Rightarrow> Truncated)
      else Malformed 1)"

declare utf8_next.simps [simp del]

lemma utf8_next_shorter: "utf8_next a bs = Decoded c cs \<Longrightarrow> length cs \<le> length bs"
  by (auto simp: utf8_next.simps split: if_splits list.splits)

datatype utf8_status = Utf8Ok | Utf8Truncated | Utf8Malformed nat

function utf8_scan :: "byte list \<Rightarrow> rstr \<times> byte list \<times> utf8_status" where
  "utf8_scan [] = ([], [], Utf8Ok)"
| "utf8_scan (a # bs) =
     (case utf8_next a bs of
        Decoded c cs \<Rightarrow> (case utf8_scan cs of (s, r, st) \<Rightarrow> (c # s, r, st))
      | Truncated \<Rightarrow> ([], a # bs, Utf8Truncated)
      | Malformed n \<Rightarrow> ([], a # bs, Utf8Malformed n))"
  by pat_completeness auto
termination
  by (relation "measure length") (auto dest: utf8_next_shorter)

datatype utf8_stream_parser_error = InvalidUtf8 nat nat | IncompleteUtf8AtEof

record 'p utf8_stream_parser =
  u_inner :: 'p
  pending_utf8 :: "byte list"

definition utf8_new :: "'p \<Rightarrow> 'p utf8_stream_parser" where
  "utf8_new inner = \<lparr>u_inner = inner, pending_utf8 = []\<rparr>"

definition utf8_push_bytes ::
  "('p \<Rightarrow> rstr \<Rightarrow> ('e stream_text_chunk \<times> 'p) option) \<Rightarrow> 'p utf8_stream_parser \<Rightarrow> byte list
     \<Rightarrow> ((utf8_stream_parser_error, 'e stream_text_chunk) result \<times> 'p utf8_stream_parser) option" where
  "utf8_push_bytes push p chunk =
     (let pending = pending_utf8 p @ chunk in
      case utf8_scan pending of
        (s, r, Utf8Ok) \<Rightarrow>
          map_option (\<lambda>(out, inner). (Ok out, \<lparr>u_inner = inner, pending_utf8 = []\<rparr>)) (push (u_inner p) s)
      | (s, r, Utf8Malformed n) \<Rightarrow> Some (Err (InvalidUtf8 (length pending - length r) n), p)
      | (s, r, Utf8Truncated) \<Rightarrow>
          (let valid_up_to = length pending - length r in
           if valid_up_to = 0 then Some (Ok chunk_default, p\<lparr>pending_utf8 := pending\<rparr>)
           else (case utf8_scan (take valid_up_to pending) of
               (t, _, Utf8Ok) \<Rightarrow>
                 map_option (\<lambda>(out, inner).
                   (Ok out, \<lparr>u_inner = inner, pending_utf8 = drop valid_up_to pending\<rparr>)) (push (u_inner p) t)
             | (t, r', Utf8Malformed n) \<Rightarrow> Some (Err (InvalidUtf8 (valid_up_to - length r') n), p)
             | (t, r', Utf8Truncated) \<Rightarrow> Some (Err (InvalidUtf8 (valid_up_to - length r') 0), p))))"

definition utf8_finish ::
  "('p \<Rightarrow> rstr \<Rightarrow> ('e stream_text_chunk \<times> 'p) option) \<Rightarrow> ('p \<Rightarrow> 'e stream_text_chunk \<times> 'p)
     \<Rightarrow> 'p utf8_stream_parser
     \<Rightarrow> ((utf8_stream_parser_error, 'e stream_text_chunk) result \<times> 'p utf8_stream_parser) option" where
  "utf8_finish push fin p =
     (let flush = (\<lambda>out inner. case fin inner of
            (tail, inner) \<Rightarrow> (Ok (chunk_append out tail), \<lparr>u_inner = inner, pending_utf8 = []\<rparr>))
      in if pending_utf8 p = [] then Some (flush chunk_default (u_inner p))
         else case utf8_scan (pending_utf8 p) of
                (s, r, Utf8Ok) \<Rightarrow> map_option (\<lambda>(out, inner). flush out inner) (push (u_inner p) s)
              | (s, r, Utf8Malformed n) \<Rightarrow> Some (Err (InvalidUtf8 (length (pending_utf8 p) - length r) n), p)
              | (s, r, Utf8Truncated) \<Rightarrow> Some (Err IncompleteUtf8AtEof, p))"

definition into_inner :: "'p utf8_stream_parser \<Rightarrow> (utf8_stream_parser_error, 'p) result" where
  "into_inner p =
     (if pending_utf8 p = [] then Ok (u_inner p)
      else case utf8_scan (pending_utf8 p) of
             (s, r, Utf8Ok) \<Rightarrow> Ok (u_inner p)
           | (s, r, Utf8Malformed n) \<Rightarrow> Err (InvalidUtf8 (length (pending_utf8 p) - length r) n)
           | (s, r, Utf8Truncated) \<Rightarrow> Err IncompleteUtf8AtEof)"

definition into_inner_lossy :: "'p utf8_stream_parser \<Rightarrow> 'p" where
  "into_inner_lossy p = u_inner p"

fun utf8_push_all ::
  "('p \<Rightarrow> rstr \<Rightarrow> ('e stream_text_chunk \<times> 'p) option) \<Rightarrow> 'p utf8_stream_parser \<Rightarrow> byte list list
     \<Rightarrow> ((utf8_stream_parser_error, 'e stream_text_chunk) result \<times> 'p utf8_stream_parser) option" where
  "utf8_push_all push p [] = Some (Ok chunk_default, p)"
| "utf8_push_all push p (bs # bss) =
     (case utf8_push_bytes push p bs of
        None \<Rightarrow> None
      | Some (Inl e, p) \<Rightarrow> Some (Inl e, p)
      | Some (Inr c, p) \<Rightarrow> map_option (\<lambda>(d, p). (and_then d (\<lambda>d. Ok (chunk_append c d)), p)) (utf8_push_all push p bss))"

section \<open>Decoding across chunk boundaries\<close>

lemma utf8_next_lead:
  "2 \<le> h \<Longrightarrow> h < 32 \<Longrightarrow> utf8_next (192 + h) [] = Truncated"
  "h < 16 \<Longrightarrow> utf8_next (224 + h) [] = Truncated"
  "h < 16 \<Longrightarrow> second_ok (224 + h) b \<Longrightarrow> utf8_next (224 + h) [b] = Truncated"
  "h < 5 \<Longrightarrow> utf8_next (240 + h) [] = Truncated"
  "h < 5 \<Longrightarrow> second_ok (240 + h) b \<Longrightarrow> utf8_next (240 + h) [b] = Truncated"
  "h < 5 \<Longrightarrow> second_ok (240 + h) b \<Longrightarrow> is_cont d \<Longrightarrow> utf8_next (240 + h) [b, d] = Truncated"
  by (simp_all add: utf8_next.simps)

lemma utf8_next_full:
  "2 \<le> h \<Longrightarrow> h < 32 \<Longrightarrow> l < 64 \<Longrightarrow> utf8_next (192 + h) ((128 + l) # bs) = Decoded (64 * h + l) bs"
  "h < 16 \<Longrightarrow> l < 64 \<Longrightarrow> second_ok (224 + h) (128 + m) \<Longrightarrow>
    utf8_next (224 + h) ((128 + m) # (128 + l) # bs) = Decoded (4096 * h + 64 * m + l) bs"
  "h < 5 \<Longrightarrow> m < 64 \<Longrightarrow> l < 64 \<Longrightarrow> second_ok (240 + h) (128 + k) \<Longrightarrow>
    utf8_next (240 + h) ((128 + k) # (128 + m) # (128 + l) # bs)
      = Decoded (262144 * h + 4096 * k + 64 * m + l) bs"
  by (simp_all add: utf8_next.simps is_cont_def mult.commute)

text \<open>The bytes of a char by its length.\<close>

lemma utf8_char_cases:
  assumes "scalar c"
  obtains (one) "c < 128" "utf8_char c = [c]"
  | (two) h l where "2 \<le> h" "h < 32" "l < 64" "c = 64 * h + l" "utf8_char c = [192 + h, 128 + l]"
  | (three) h m l where "h < 16" "m < 64" "l < 64" "second_ok (224 + h) (128 + m)"
      "c = 4096 * h + 64 * m + l" "utf8_char c = [224 + h, 128 + m, 128 + l]"
  | (four) h k m l where "h < 5" "k < 64" "m < 64" "l < 64" "second_ok (240 + h) (128 + k)"
      "c = 262144 * h + 4096 * k + 64 * m + l" "utf8_char c = [240 + h, 128 + k, 128 + m, 128 + l]"
proof -
  consider "c < 128" | "128 \<le> c" "c < 2048" | "2048 \<le> c" "c < 65536" | "65536 \<le> c" "c < 1114112"
    using assms by (force simp: scalar_def)
  then show ?thesis
  proof cases
    case 1
    with one show ?thesis by (simp add: utf8_char_def)
  next
    case 2
    then have "2 \<le> c div 64" "c div 64 < 32" by auto
    with 2 two [of "c div 64" "c mod 64"] show ?thesis by (simp add: utf8_char_def)
  next
    case 3
    define h m l where "h = c div 4096" and "m = c div 64 mod 64" and "l = c mod 64"
    have c: "c = 4096 * h + 64 * m + l" using split3 [of c] by (simp add: h_def m_def l_def)
    have b: "h < 16" "m < 64" "l < 64" using 3 by (auto simp: h_def m_def l_def)
    have "(h = 0 \<longrightarrow> 32 \<le> m) \<and> (h = 13 \<longrightarrow> m < 32)" using 3 c b assms by (auto simp: scalar_def)
    with b have "second_ok (224 + h) (128 + m)" by (auto simp: second_ok_def is_cont_def)
    moreover have "utf8_char c = [224 + h, 128 + m, 128 + l]"
      using 3 by (simp add: utf8_char_def h_def m_def l_def)
    ultimately show ?thesis using three b c by blast
  next
    case 4
    define h k m l where "h = c div 262144" and "k = c div 4096 mod 64" and "m = c div 64 mod 64" and "l = c mod 64"
    have c: "c = 262144 * h + 4096 * k + 64 * m + l" using split4 [of c] by (simp add: h_def k_def m_def l_def)
    have b: "h < 5" "k < 64" "m < 64" "l < 64" using 4 by (auto simp: h_def k_def m_def l_def)
    have "(h = 0 \<longrightarrow> 16 \<le> k) \<and> (h = 4 \<longrightarrow> k < 16)" using 4 c b by auto
    with b have "second_ok (240 + h) (128 + k)" by (auto simp: second_ok_def is_cont_def)
    moreover have "utf8_char c = [240 + h, 128 + k, 128 + m, 128 + l]"
      using 4 by (simp add: utf8_char_def h_def k_def m_def l_def)
    ultimately show ?thesis using four b c by blast
  qed
qed

lemma utf8_next_char: "scalar c \<Longrightarrow> utf8_char c = a # bs \<Longrightarrow> utf8_next a (bs @ r) = Decoded c r"
  by (erule utf8_char_cases) (auto simp: utf8_next_full utf8_next.simps [of _ r])

lemma utf8_next_truncated:
  "scalar c \<Longrightarrow> utf8_char c = (a # p) @ q \<Longrightarrow> q \<noteq> [] \<Longrightarrow> utf8_next a p = Truncated"
  by (erule utf8_char_cases) (auto simp: Cons_eq_append_conv append_eq_Cons_conv utf8_next_lead is_cont_def)

lemma utf8_char_Cons: "\<exists>a bs. utf8_char c = a # bs"
  by (simp add: utf8_char_def)

lemma utf8_scan_char: "scalar c \<Longrightarrow> utf8_scan (utf8_char c @ r) = (case utf8_scan r of (s, t, st) \<Rightarrow> (c # s, t, st))"
  using utf8_char_Cons [of c] utf8_next_char [of c] by auto

text \<open>The rest of a valid text that was cut inside a code point.\<close>

definition partial_char :: "byte list \<Rightarrow> bool" where
  "partial_char r \<longleftrightarrow> (\<exists>c q. scalar c \<and> utf8_char c = r @ q \<and> r \<noteq> [] \<and> q \<noteq> [])"

lemma utf8_scan_text:
  assumes "\<forall>c \<in> set s. scalar c" "r = [] \<or> partial_char r"
  shows "utf8_scan (as_bytes s @ r) = (s, r, if r = [] then Utf8Ok else Utf8Truncated)"
  using assms(1)
proof (induction s)
  case Nil
  show ?case
  proof (cases r)
    case (Cons a p)
    with assms(2) have "utf8_next a p = Truncated" by (auto simp: partial_char_def intro: utf8_next_truncated)
    with Cons show ?thesis by (simp add: as_bytes_def)
  qed (simp add: as_bytes_def)
next
  case (Cons c s)
  then show ?case by (simp add: as_bytes_def utf8_scan_char)
qed

lemma cut_as_bytes:
  assumes "\<forall>c \<in> set s. scalar c" "bs @ ds = as_bytes s"
  shows "\<exists>s1 s2 r. s = s1 @ s2 \<and> bs = as_bytes s1 @ r \<and> r @ ds = as_bytes s2 \<and> (r = [] \<or> partial_char r)"
  using assms
proof (induction s arbitrary: bs)
  case Nil
  then show ?case by (auto simp: as_bytes_def)
next
  case (Cons c s)
  then have e: "bs @ ds = utf8_char c @ as_bytes s" by (simp add: as_bytes_def)
  show ?case
  proof (cases "length (utf8_char c) \<le> length bs")
    case True
    from append_eq_split [OF e [symmetric] True] obtain u where
      u: "bs = utf8_char c @ u" "u @ ds = as_bytes s" by auto
    from Cons.IH [OF _ u(2)] Cons.prems(1) obtain s1 s2 r where
      "s = s1 @ s2" "u = as_bytes s1 @ r" "r @ ds = as_bytes s2" "r = [] \<or> partial_char r" by auto
    with u(1) show ?thesis by (intro exI [of _ "c # s1"] exI [of _ s2] exI [of _ r]) (simp add: as_bytes_def)
  next
    case False
    from append_eq_split [OF e] False obtain q where q: "utf8_char c = bs @ q" by auto
    with False have "q \<noteq> []" by auto
    with q Cons.prems(1) have "bs = [] \<or> partial_char bs" unfolding partial_char_def by auto
    with Cons.prems(2) show ?thesis
      by (intro exI [of _ "[]"] exI [of _ "c # s"] exI [of _ bs]) (simp add: as_bytes_def)
  qed
qed

context stream_text_parser
begin

lemma utf8_push_cut:
  assumes "parser_ok p" "push_str p s = Some (c, q)" "\<forall>x \<in> set s. scalar x"
    and b: "r @ b = as_bytes s @ r'" and r': "r' = [] \<or> partial_char r'"
  shows "utf8_push_bytes push_str \<lparr>u_inner = p, pending_utf8 = r\<rparr> b
    = Some (Ok c, \<lparr>u_inner = q, pending_utf8 = r'\<rparr>)"
proof (cases "r' = []")
  case True
  with utf8_scan_text [OF assms(3) r'] b assms(2) show ?thesis by (simp add: utf8_push_bytes_def)
next
  case False
  have scan: "utf8_scan (r @ b) = (s, r', Utf8Truncated)" using utf8_scan_text [OF assms(3) r'] b False by simp
  have v: "length (r @ b) - length r' = length (as_bytes s)" using b by simp
  show ?thesis
  proof (cases "s = []")
    case True
    with scan b v push_empty [OF assms(1)] assms(2) show ?thesis
      by (simp add: utf8_push_bytes_def as_bytes_def)
  next
    case s: False
    have "utf8_scan (take (length (as_bytes s)) (r @ b)) = (s, [], Utf8Ok)"
      using utf8_scan_text [OF assms(3), of "[]"] b by simp
    moreover have "drop (length (as_bytes s)) (r @ b) = r'" using b by simp
    moreover have "length (as_bytes s) \<noteq> 0" using s by simp
    ultimately show ?thesis using scan v assms(2)
      unfolding utf8_push_bytes_def Let_def utf8_stream_parser.select_convs scan prod.case utf8_status.case v
      by simp
  qed
qed

lemma utf8_pushes:
  assumes "parser_ok p" "\<forall>x \<in> set s. scalar x" "r @ concat bss = as_bytes s" "r = [] \<or> partial_char r"
  shows "\<exists>c q e. utf8_push_all push_str \<lparr>u_inner = p, pending_utf8 = r\<rparr> bss
        = Some (Ok c, \<lparr>u_inner = q, pending_utf8 = []\<rparr>)
    \<and> push_str p s = Some (e, q) \<and> visible_text e = visible_text c \<and> flat (extracted e) = flat (extracted c)"
  using assms
proof (induction bss arbitrary: p s r)
  case Nil
  have "r = []"
  proof (rule ccontr)
    assume "r \<noteq> []"
    with Nil utf8_scan_text [of "[]" r] have "snd (snd (utf8_scan r)) = Utf8Truncated" by (simp add: as_bytes_def)
    with Nil utf8_scan_text [of s "[]"] show False by simp
  qed
  with Nil have "s = []" by (metis append_Nil concat.simps(1) length_0_conv length_as_bytes len_0_iff)
  with \<open>r = []\<close> Nil push_empty show ?case by simp
next
  case (Cons b bss)
  from Cons.prems(3) have e: "(r @ b) @ concat bss = as_bytes s" by simp
  from cut_as_bytes [OF Cons.prems(2) e] obtain s1 s2 r' where
    cut: "s = s1 @ s2" "r @ b = as_bytes s1 @ r'" "r' @ concat bss = as_bytes s2" "r' = [] \<or> partial_char r'"
    by blast
  obtain c1 p1 where p1: "push_str p s1 = Some (c1, p1)" "parser_ok p1" using push_returns [OF Cons.prems(1)] by blast
  have step: "utf8_push_bytes push_str \<lparr>u_inner = p, pending_utf8 = r\<rparr> b
      = Some (Ok c1, \<lparr>u_inner = p1, pending_utf8 = r'\<rparr>)"
    by (rule utf8_push_cut [OF Cons.prems(1) p1(1) _ cut(2,4)]) (use Cons.prems(2) cut(1) in auto)
  from Cons.IH [OF p1(2) _ cut(3,4)] Cons.prems(2) cut(1) obtain c2 q e2 where
    2: "utf8_push_all push_str \<lparr>u_inner = p1, pending_utf8 = r'\<rparr> bss
        = Some (Ok c2, \<lparr>u_inner = q, pending_utf8 = []\<rparr>)" "push_str p1 s2 = Some (e2, q)"
      "visible_text e2 = visible_text c2" "flat (extracted e2) = flat (extracted c2)" by auto
  from push_twice [OF Cons.prems(1) p1(1) 2(2)] obtain e where
    "push_str p (s1 @ s2) = Some (e, q)" "visible_text e = visible_text c1 @ visible_text e2"
    "flat (extracted e) = flat (extracted c1 @ extracted e2)" by blast
  with step 2 cut(1) flat_append [OF refl 2(4), of "extracted c1"] show ?case by simp
qed

end

definition utf8_citations :: "byte list list \<Rightarrow> (utf8_stream_parser_error, rstr \<times> rstr list) result option" where
  "utf8_citations bss =
     (case citation_new of
        None \<Rightarrow> None
      | Some p \<Rightarrow>
          (case utf8_push_all citation_push_str (utf8_new p) bss of
             None \<Rightarrow> None
           | Some (Inl e, _) \<Rightarrow> Some (Err e)
           | Some (Inr c, p) \<Rightarrow>
               map_option (\<lambda>(d, _). and_then d (\<lambda>d. Ok (visible_text c @ visible_text d, extracted c @ extracted d)))
                 (utf8_finish citation_push_str citation_finish p)))"

text \<open>
  C24. Bytes may be cut anywhere, also inside a code point: for every cutting of the UTF-8 encoding
  of a text the byte wrapper around the citation parser reports no error and gives the visible text
  and the citations of the text itself.
\<close>

theorem utf8_cut_anywhere:
  assumes "\<forall>x \<in> set s. scalar x" "concat bss = as_bytes s"
  shows "\<exists>r. utf8_citations bss = Some (Ok r) \<and> strip_citations s = Some r"
proof -
  obtain p where p: "citation_new = Some p" "inline_ok p" using citation_new_ok by blast
  from cit.utf8_pushes [OF p(2) assms(1), of "[]" bss] assms(2) obtain c q e where
    "utf8_push_all citation_push_str (utf8_new p) bss = Some (Ok c, \<lparr>u_inner = q, pending_utf8 = []\<rparr>)"
    "citation_push_str p s = Some (e, q)" "visible_text e = visible_text c" "extracted e = extracted c"
    by (auto simp: utf8_new_def)
  then show ?thesis unfolding utf8_citations_def strip_citations_def p(1)
    by (simp add: utf8_finish_def Let_def split: prod.splits)
qed

theorem utf8_cut_anywhere_witness:
  "\<exists>r. utf8_citations [[104, 195], [169]] = Some (Ok r) \<and> strip_citations [104, 233] = Some r"
  by (rule utf8_cut_anywhere) (simp_all add: scalar_def as_bytes_def utf8_char_def)

end
