(* ===== verification/Exec_Buffer.thy ===== *)
theory Exec_Buffer
  imports Rust_Text
begin

text \<open>
  The capped output buffer of unified exec sessions
  (codex-rs/core/src/unified_exec/head_tail_buffer.rs): the first half of the capacity keeps the
  beginning of the output, the second half its end. Counters are \<open>usize\<close> with saturating
  arithmetic; the theorem relates the buffer to the whole output that was pushed.
\<close>

record head_tail_buffer =
  max_bytes :: nat
  head_budget :: nat
  tail_budget :: nat
  head_chunks :: "byte list list"
  tail_chunks :: "byte list list"
  head_bytes :: nat
  tail_bytes :: nat
  omitted_bytes :: nat

definition buffer_new :: "nat \<Rightarrow> head_tail_buffer" where
  "buffer_new m =
     (let h = m div 2
      in \<lparr>max_bytes = m, head_budget = h, tail_budget = m - h, head_chunks = [], tail_chunks = [],
          head_bytes = 0, tail_bytes = 0, omitted_bytes = 0\<rparr>)"

definition UNIFIED_EXEC_OUTPUT_MAX_BYTES :: nat where "UNIFIED_EXEC_OUTPUT_MAX_BYTES = 1024 * 1024"

definition buffer_default :: head_tail_buffer where
  "buffer_default = buffer_new UNIFIED_EXEC_OUTPUT_MAX_BYTES"

definition retained_bytes :: "head_tail_buffer \<Rightarrow> nat" where
  "retained_bytes b = saturating_add (head_bytes b) (tail_bytes b)"

fun trim_tail :: "nat \<Rightarrow> byte list list \<Rightarrow> nat \<Rightarrow> nat \<Rightarrow> byte list list \<times> nat \<times> nat" where
  "trim_tail excess [] tb om = ([], tb, om)"
| "trim_tail excess (front # rest) tb om =
     (if excess = 0 then (front # rest, tb, om)
      else if length front \<le> excess
      then trim_tail (excess - length front) rest (tb - length front) (saturating_add om (length front))
      else (drop excess front # rest, tb - excess, saturating_add om excess))"

definition trim_tail_to_budget :: "head_tail_buffer \<Rightarrow> head_tail_buffer" where
  "trim_tail_to_budget b =
     (case trim_tail (tail_bytes b - tail_budget b) (tail_chunks b) (tail_bytes b) (omitted_bytes b) of
        (tail, tb, om) \<Rightarrow> b\<lparr>tail_chunks := tail, tail_bytes := tb, omitted_bytes := om\<rparr>)"

definition push_to_tail :: "byte list \<Rightarrow> head_tail_buffer \<Rightarrow> head_tail_buffer" where
  "push_to_tail chunk b =
     (if tail_budget b = 0 then b\<lparr>omitted_bytes := saturating_add (omitted_bytes b) (length chunk)\<rparr>
      else if tail_budget b \<le> length chunk
      then (let kept = drop (length chunk - tail_budget b) chunk;
                dropped = length chunk - length kept
            in b\<lparr>omitted_bytes := saturating_add (saturating_add (omitted_bytes b) (tail_bytes b)) dropped,
                 tail_bytes := length kept, tail_chunks := [kept]\<rparr>)
      else trim_tail_to_budget
        (b\<lparr>tail_bytes := saturating_add (tail_bytes b) (length chunk), tail_chunks := tail_chunks b @ [chunk]\<rparr>))"

definition buffer_push_chunk :: "byte list \<Rightarrow> head_tail_buffer \<Rightarrow> head_tail_buffer" where
  "buffer_push_chunk chunk b =
     (if max_bytes b = 0 then b\<lparr>omitted_bytes := saturating_add (omitted_bytes b) (length chunk)\<rparr>
      else if head_bytes b < head_budget b
      then (let remaining = head_budget b - head_bytes b
            in if length chunk \<le> remaining
               then b\<lparr>head_bytes := saturating_add (head_bytes b) (length chunk), head_chunks := head_chunks b @ [chunk]\<rparr>
               else (let head_part = take remaining chunk; tail_part = drop remaining chunk;
                         b = (if head_part \<noteq> []
                              then b\<lparr>head_bytes := saturating_add (head_bytes b) (length head_part),
                                     head_chunks := head_chunks b @ [head_part]\<rparr>
                              else b)
                     in push_to_tail tail_part b))
      else push_to_tail chunk b)"

definition snapshot_chunks :: "head_tail_buffer \<Rightarrow> byte list list" where
  "snapshot_chunks b = head_chunks b @ tail_chunks b"

definition to_bytes :: "head_tail_buffer \<Rightarrow> byte list" where
  "to_bytes b = concat (head_chunks b) @ concat (tail_chunks b)"

definition drain_chunks :: "head_tail_buffer \<Rightarrow> byte list list \<times> head_tail_buffer" where
  "drain_chunks b =
     (head_chunks b @ tail_chunks b,
      b\<lparr>head_chunks := [], tail_chunks := [], head_bytes := 0, tail_bytes := 0, omitted_bytes := 0\<rparr>)"

section \<open>The buffer as a view of the whole output\<close>

definition last_n :: "nat \<Rightarrow> 'a list \<Rightarrow> 'a list" where
  "last_n n xs = drop (length xs - n) xs"

text \<open>What the buffer holds after the output \<open>out\<close> was pushed since it was created or drained.\<close>

definition buffer_holds :: "head_tail_buffer \<Rightarrow> byte list \<Rightarrow> bool" where
  "buffer_holds b out \<longleftrightarrow>
     head_budget b = max_bytes b div 2 \<and> tail_budget b = max_bytes b - max_bytes b div 2
     \<and> concat (head_chunks b) = take (head_budget b) out
     \<and> concat (tail_chunks b) = last_n (tail_budget b) (drop (head_budget b) out)
     \<and> head_bytes b = length (concat (head_chunks b)) \<and> tail_bytes b = length (concat (tail_chunks b))
     \<and> omitted_bytes b = min (length out - head_bytes b - tail_bytes b) USIZE_MAX"

lemma saturating_add_add:
  "saturating_add (saturating_add a b) c = saturating_add a (b + c)"
  "saturating_add (min a USIZE_MAX) b = min (a + b) USIZE_MAX"
  by (auto simp: saturating_add_def)

lemma trim_tail_eq:
  "excess \<le> length (concat tail) \<Longrightarrow> om \<le> USIZE_MAX \<Longrightarrow> trim_tail excess tail tb om = (tail', tb', om') \<Longrightarrow>
    concat tail' = drop excess (concat tail) \<and> tb' = tb - excess \<and> om' = saturating_add om excess"
proof (induction excess tail tb om arbitrary: tail' tb' om' rule: trim_tail.induct)
  case (1 excess tb om)
  then show ?case by (simp add: saturating_add_def)
next
  case (2 excess front rest tb om)
  show ?case
  proof (cases "excess = 0 \<or> excess < length front")
    case True
    with 2 show ?thesis by (auto simp: saturating_add_def split: if_splits)
  next
    case False
    have "saturating_add om (length front) \<le> USIZE_MAX" by (simp add: saturating_add_def)
    with 2 False show ?thesis by (auto simp: saturating_add_add)
  qed
qed

lemma last_n_append: "last_n n (xs @ ys) = (if n \<le> length ys then last_n n ys else last_n (n - length ys) xs @ ys)"
  by (auto simp: last_n_def)

lemma last_n_last_n: "m \<le> n \<Longrightarrow> last_n m (last_n n xs) = last_n m xs"
proof -
  assume "m \<le> n"
  then have "length xs - (length xs - n + m) + (length xs - n) = length xs - m" by arith
  then show ?thesis by (simp add: last_n_def)
qed

lemma length_last_n [simp]: "length (last_n n xs) = min n (length xs)"
  by (simp add: last_n_def)

definition tail_holds :: "head_tail_buffer \<Rightarrow> byte list \<Rightarrow> bool" where
  "tail_holds b rest \<longleftrightarrow>
     concat (tail_chunks b) = last_n (tail_budget b) rest \<and> tail_bytes b = length (concat (tail_chunks b))
     \<and> omitted_bytes b = min (length rest - tail_bytes b) USIZE_MAX"

definition same_head :: "head_tail_buffer \<Rightarrow> head_tail_buffer \<Rightarrow> bool" where
  "same_head b c \<longleftrightarrow>
     max_bytes c = max_bytes b \<and> head_budget c = head_budget b \<and> tail_budget c = tail_budget b
     \<and> head_chunks c = head_chunks b \<and> head_bytes c = head_bytes b"

lemma push_to_tail_holds:
  assumes "tail_holds b rest" "2 * tail_budget b \<le> Suc USIZE_MAX"
  shows "tail_holds (push_to_tail chunk b) (rest @ chunk) \<and> same_head b (push_to_tail chunk b)"
proof -
  from assms(1) have tb: "tail_bytes b = min (tail_budget b) (length rest)"
    and om: "omitted_bytes b = min (length rest - tail_bytes b) USIZE_MAX"
    and cc: "concat (tail_chunks b) = last_n (tail_budget b) rest" by (auto simp: tail_holds_def)
  consider (none) "tail_budget b = 0" | (big) "0 < tail_budget b" "tail_budget b \<le> length chunk"
    | (small) "length chunk < tail_budget b" by linarith
  then show ?thesis
  proof cases
    case none
    with tb om cc show ?thesis
      by (auto simp: tail_holds_def same_head_def push_to_tail_def last_n_def saturating_add_add)
  next
    case big
    have kept: "drop (length chunk - tail_budget b) chunk = last_n (tail_budget b) (rest @ chunk)"
      using big by (simp add: last_n_append) (simp add: last_n_def)
    have "tail_bytes b \<le> length rest" by (simp add: tb)
    with big have "saturating_add (saturating_add (omitted_bytes b) (tail_bytes b)) (length chunk - tail_budget b)
        = min (length (rest @ chunk) - tail_budget b) USIZE_MAX"
      by (simp add: om saturating_add_add)
    with big show ?thesis
      by (simp add: tail_holds_def same_head_def push_to_tail_def Let_def kept)
  next
    case small
    let ?tb = "tail_bytes b + length chunk"
    have sat: "saturating_add (tail_bytes b) (length chunk) = ?tb"
      using small tb assms(2) by (auto simp: saturating_add_def)
    obtain tail tb' om' where t: "trim_tail (?tb - tail_budget b) (tail_chunks b @ [chunk]) ?tb (omitted_bytes b)
        = (tail, tb', om')" by (metis prod_cases3)
    have len: "length (concat (tail_chunks b @ [chunk])) = ?tb" using cc tb by simp
    have "omitted_bytes b \<le> USIZE_MAX" by (simp add: om)
    from trim_tail_eq [OF _ this t] len have
      r: "concat tail = drop (?tb - tail_budget b) (last_n (tail_budget b) rest @ chunk)"
        "tb' = ?tb - (?tb - tail_budget b)" "om' = saturating_add (omitted_bytes b) (?tb - tail_budget b)"
      using cc by auto
    have "concat tail = last_n (tail_budget b) (last_n (tail_budget b) rest @ chunk)"
      using r(1) tb by (simp add: last_n_def [of "tail_budget b" "last_n (tail_budget b) rest @ chunk"])
    also have "\<dots> = last_n (tail_budget b) (rest @ chunk)"
      using small by (simp add: last_n_append last_n_last_n)
    finally have tail: "concat tail = last_n (tail_budget b) (rest @ chunk)" .
    have "tb' = min (tail_budget b) (length (rest @ chunk))" using r(2) tb small by (simp add: min_def)
    moreover have "om' = min (length (rest @ chunk) - min (tail_budget b) (length (rest @ chunk))) USIZE_MAX"
      using small unfolding r(3) om saturating_add_add tb by (intro arg_cong2 [where f = min]) (auto simp: min_def)
    ultimately show ?thesis using small t tail
      by (simp add: tail_holds_def same_head_def push_to_tail_def trim_tail_to_budget_def sat)
  qed
qed

lemma buffer_holds_split:
  assumes "buffer_holds b out" "\<not> length out < head_budget b"
  shows "tail_holds b (drop (head_budget b) out) \<and> head_bytes b = head_budget b"
  using assms by (auto simp: buffer_holds_def tail_holds_def)

lemma buffer_holds_join:
  assumes "same_head b c" "tail_holds c (drop (head_budget b) out)" "head_budget b \<le> length out"
    and "head_budget b = max_bytes b div 2" "tail_budget b = max_bytes b - max_bytes b div 2"
    and "concat (head_chunks b) = take (head_budget b) out" "head_bytes b = head_budget b"
  shows "buffer_holds c out"
  using assms by (auto simp: buffer_holds_def tail_holds_def same_head_def)

lemma budget_bound: "buffer_holds b out \<Longrightarrow> max_bytes b \<le> USIZE_MAX \<Longrightarrow> 2 * tail_budget b \<le> Suc USIZE_MAX"
  by (auto simp: buffer_holds_def)

lemma buffer_push_full:
  assumes "buffer_holds b out" "max_bytes b \<le> USIZE_MAX" "head_budget b \<le> length out"
  shows "buffer_holds (push_to_tail chunk b) (out @ chunk) \<and> max_bytes (push_to_tail chunk b) = max_bytes b"
proof -
  from buffer_holds_split [OF assms(1)] assms(3)
  have t: "tail_holds b (drop (head_budget b) out)" "head_bytes b = head_budget b" by auto
  from push_to_tail_holds [OF t(1) budget_bound [OF assms(1,2)], of chunk]
  have p: "tail_holds (push_to_tail chunk b) (drop (head_budget b) (out @ chunk))" "same_head b (push_to_tail chunk b)"
    using assms(3) by auto
  have "buffer_holds (push_to_tail chunk b) (out @ chunk)"
    by (rule buffer_holds_join [OF p(2,1)]) (use assms t in \<open>auto simp: buffer_holds_def\<close>)
  with p(2) show ?thesis by (simp add: same_head_def)
qed

lemma head_fills:
  assumes "buffer_holds b out" "max_bytes b \<le> USIZE_MAX" "length out + length part \<le> head_budget b"
  shows "buffer_holds (b\<lparr>head_bytes := saturating_add (head_bytes b) (length part),
      head_chunks := head_chunks b @ [part]\<rparr>) (out @ part)"
proof -
  have "head_bytes b = length out" using assms by (simp add: buffer_holds_def)
  moreover have "length out + length part \<le> USIZE_MAX" using assms by (auto simp: buffer_holds_def)
  ultimately have "saturating_add (head_bytes b) (length part) = length (out @ part)"
    by (simp add: saturating_add_def)
  with assms show ?thesis by (simp add: buffer_holds_def last_n_def)
qed

lemma buffer_push_chunk_holds:
  assumes b: "buffer_holds b out" "max_bytes b \<le> USIZE_MAX"
  shows "buffer_holds (buffer_push_chunk chunk b) (out @ chunk) \<and> max_bytes (buffer_push_chunk chunk b) = max_bytes b"
proof (cases "max_bytes b = 0")
  case True
  with b(1) show ?thesis
    by (simp add: buffer_push_chunk_def buffer_holds_def last_n_def saturating_add_add)
next
  case False
  show ?thesis
  proof (cases "head_bytes b < head_budget b")
    case full: False
    with b(1) have "head_budget b \<le> length out" by (simp add: buffer_holds_def)
    with buffer_push_full [OF b this] False full show ?thesis by (simp add: buffer_push_chunk_def)
  next
    case room: True
    have "head_bytes b = min (head_budget b) (length out)" using b(1) by (simp add: buffer_holds_def)
    with room have hb: "head_bytes b = length out" by (simp add: min_def split: if_splits)
    let ?r = "head_budget b - length out"
    show ?thesis
    proof (cases "length chunk \<le> ?r")
      case fits: True
      with room hb have "length out + length chunk \<le> head_budget b" by simp
      with head_fills [OF b this] False room fits hb show ?thesis by (simp add: buffer_push_chunk_def)
    next
      case over: False
      let ?c = "b\<lparr>head_bytes := saturating_add (head_bytes b) (length (take ?r chunk)), head_chunks := head_chunks b @ [take ?r chunk]\<rparr>"
      have "buffer_holds ?c (out @ take ?r chunk)"
        by (rule head_fills [OF b]) (use room hb in auto)
      from buffer_push_full [OF this, of "drop ?r chunk"] b(2) room hb over
      have "buffer_holds (push_to_tail (drop ?r chunk) ?c) (out @ chunk)"
        "max_bytes (push_to_tail (drop ?r chunk) ?c) = max_bytes b" by auto
      moreover have "take ?r chunk \<noteq> []" using room hb over by auto
      ultimately show ?thesis using False room over hb by (simp add: buffer_push_chunk_def Let_def)
    qed
  qed
qed

datatype buffer_event = PushChunk "byte list" | DrainChunks

fun buffer_step :: "buffer_event \<Rightarrow> head_tail_buffer \<Rightarrow> head_tail_buffer" where
  "buffer_step (PushChunk c) b = buffer_push_chunk c b"
| "buffer_step DrainChunks b = snd (drain_chunks b)"

text \<open>The output pushed since the last drain.\<close>

fun output_since :: "buffer_event list \<Rightarrow> byte list \<Rightarrow> byte list" where
  "output_since [] out = out"
| "output_since (PushChunk c # es) out = output_since es (out @ c)"
| "output_since (DrainChunks # es) out = output_since es []"

lemma drain_holds: "buffer_holds b out \<Longrightarrow> buffer_holds (snd (drain_chunks b)) [] \<and> max_bytes (snd (drain_chunks b)) = max_bytes b"
  by (simp add: buffer_holds_def drain_chunks_def last_n_def)

lemma buffer_run_holds:
  "buffer_holds b out \<Longrightarrow> max_bytes b \<le> USIZE_MAX \<Longrightarrow>
    buffer_holds (fold buffer_step es b) (output_since es out) \<and> max_bytes (fold buffer_step es b) = max_bytes b"
proof (induction es out arbitrary: b rule: output_since.induct)
  case (2 c es out)
  with buffer_push_chunk_holds [OF 2(2,3), of c] show ?case by simp
next
  case (3 es out)
  with drain_holds [OF 3(2)] show ?case by simp
qed simp

text \<open>
  C17. After any sequence of pushes and drains the buffer shows the beginning and the end of the
  output since the last drain: all of it while it fits, else its first half-capacity bytes followed
  by its last bytes, never more than the capacity; the number of omitted bytes is exact up to
  saturation.
\<close>

theorem buffer_keeps_both_ends:
  assumes "m \<le> USIZE_MAX"
  shows "let b = fold buffer_step es (buffer_new m); out = output_since es [] in
    to_bytes b = (if length out \<le> m then out
                  else take (m div 2) out @ last_n (m - m div 2) out)
    \<and> concat (snapshot_chunks b) = to_bytes b
    \<and> retained_bytes b = min m (length out) \<and> omitted_bytes b = min (length out - m) USIZE_MAX"
proof -
  let ?b = "fold buffer_step es (buffer_new m)" and ?out = "output_since es []"
  have "buffer_holds (buffer_new m) [] \<and> max_bytes (buffer_new m) = m"
    by (simp add: buffer_holds_def buffer_new_def Let_def last_n_def)
  with buffer_run_holds [of "buffer_new m" "[]" es] assms
  have b: "buffer_holds ?b ?out" "max_bytes ?b = m" by auto
  have "to_bytes ?b = take (m div 2) ?out @ last_n (m - m div 2) (drop (m div 2) ?out)"
    using b by (simp add: to_bytes_def buffer_holds_def)
  also have "\<dots> = (if length ?out \<le> m then ?out else take (m div 2) ?out @ last_n (m - m div 2) ?out)"
    by (auto simp: last_n_def)
  finally have t: "to_bytes ?b = (if length ?out \<le> m then ?out else take (m div 2) ?out @ last_n (m - m div 2) ?out)" .
  have "head_bytes ?b + tail_bytes ?b = length (to_bytes ?b)"
    using b(1) by (simp add: buffer_holds_def to_bytes_def)
  also have "\<dots> = min m (length ?out)" using t by (auto simp: min_def)
  finally have n: "head_bytes ?b + tail_bytes ?b = min m (length ?out)" .
  then have "retained_bytes ?b = min m (length ?out)"
    using assms by (simp add: retained_bytes_def saturating_add_def)
  moreover have "omitted_bytes ?b = min (length ?out - m) USIZE_MAX"
  proof -
    have "omitted_bytes ?b = min (length ?out - (head_bytes ?b + tail_bytes ?b)) USIZE_MAX"
      using b(1) by (simp add: buffer_holds_def)
    also have "length ?out - (head_bytes ?b + tail_bytes ?b) = length ?out - m" unfolding n by (simp add: min_def)
    finally show ?thesis .
  qed
  ultimately show ?thesis using t by (simp add: Let_def snapshot_chunks_def to_bytes_def)
qed

theorem buffer_keeps_both_ends_witness:
  "to_bytes (fold buffer_step [PushChunk [1], DrainChunks, PushChunk [2, 3, 4], PushChunk [5, 6, 7, 8]] (buffer_new 4))
    = [2, 3, 7, 8]"
  using buffer_keeps_both_ends [of 4 "[PushChunk [1], DrainChunks, PushChunk [2, 3, 4], PushChunk [5, 6, 7, 8]]"]
  by (simp add: USIZE_MAX_def Let_def last_n_def)

end
