(* ===== verification/Abs_Path.thy ===== *)
theory Abs_Path
  imports Rust_Text
begin

text \<open>
  Absolute, lexically normalised paths (codex-rs/utils/absolute-path, on a platform other than
  Windows). A path is its text; \<open>components\<close> and \<open>file_name\<close> are the methods of \<open>std::path::Path\<close>.
  The current and the home directory come from the environment and may be unavailable.
\<close>

datatype path_component = RootDir | CurDir | ParentDir | NormalComp rstr

abbreviation (input) slash :: rchar where "slash \<equiv> 47"

definition is_absolute :: "rstr \<Rightarrow> bool" where
  "is_absolute p \<longleftrightarrow> starts_with p [slash]"

definition name_component :: "rstr \<Rightarrow> path_component" where
  "name_component x = (if x = lit ''..'' then ParentDir else NormalComp x)"

definition components :: "rstr \<Rightarrow> path_component list" where
  "components p =
     (if is_absolute p then [RootDir] else if hd (split_on slash p) = lit ''.'' then [CurDir] else [])
     @ map name_component (filter (\<lambda>x. x \<noteq> [] \<and> x \<noteq> lit ''.'') (split_on slash p))"

definition file_name :: "rstr \<Rightarrow> rstr option" where
  "file_name p = (case rev (components p) of NormalComp n # _ \<Rightarrow> Some n | _ \<Rightarrow> None)"

text \<open>A path under construction: whether it is rooted, and its names.\<close>

fun push_component :: "path_component \<Rightarrow> bool \<times> rstr list \<Rightarrow> bool \<times> rstr list" where
  "push_component CurDir (r, ns) = (r, ns)"
| "push_component ParentDir (r, ns) = (r, butlast ns)"
| "push_component RootDir (r, ns) = (True, [])"
| "push_component (NormalComp n) (r, ns) = (r, ns @ [n])"

definition render_path :: "bool \<times> rstr list \<Rightarrow> rstr" where
  "render_path p = (case p of (r, ns) \<Rightarrow> (if r then [slash] else []) @ join [slash] ns)"

definition normalize_path :: "rstr \<Rightarrow> rstr" where
  "normalize_path p =
     (let q = render_path (fold push_component (components p) (False, []))
      in if q = [] then lit ''.'' else q)"

definition path_with_base :: "rstr \<Rightarrow> rstr \<Rightarrow> rstr" where
  "path_with_base p base = (if is_absolute p then p else path_join base p)"

definition absolutize_from :: "rstr \<Rightarrow> rstr \<Rightarrow> rstr" where
  "absolutize_from p base = normalize_path (path_with_base p base)"

record path_env =
  current_dir :: "rstr option"
  home_dir :: "rstr option"

definition absolutize :: "path_env \<Rightarrow> rstr \<Rightarrow> rstr option" where
  "absolutize env p =
     (if is_absolute p then Some (normalize_path p)
      else map_option (absolutize_from p) (current_dir env))"

definition maybe_expand_home_directory :: "path_env \<Rightarrow> rstr \<Rightarrow> rstr" where
  "maybe_expand_home_directory env p =
     (case (home_dir env, strip_prefix p (lit ''~'')) of
        (Some home, Some rest) \<Rightarrow>
          if rest = [] then home
          else (case strip_prefix rest [slash] of
                  Some rest \<Rightarrow> path_join home (trim_start_matches rest slash)
                | None \<Rightarrow> p)
      | _ \<Rightarrow> p)"

definition resolve_path_against_base :: "path_env \<Rightarrow> rstr \<Rightarrow> rstr \<Rightarrow> rstr" where
  "resolve_path_against_base env p base = absolutize_from (maybe_expand_home_directory env p) base"

definition from_absolute_path :: "path_env \<Rightarrow> rstr \<Rightarrow> rstr option" where
  "from_absolute_path env p = absolutize env (maybe_expand_home_directory env p)"

definition from_absolute_path_checked :: "path_env \<Rightarrow> rstr \<Rightarrow> rstr option" where
  "from_absolute_path_checked env p =
     (let expanded = maybe_expand_home_directory env p
      in if \<not> is_absolute expanded then None else Some (absolutize_from expanded [slash]))"

section \<open>Canonical paths\<close>

definition plain_name :: "rstr \<Rightarrow> bool" where
  "plain_name n \<longleftrightarrow> n \<noteq> [] \<and> slash \<notin> set n \<and> n \<noteq> lit ''.'' \<and> n \<noteq> lit ''..''"

definition canonical :: "rstr \<Rightarrow> bool" where
  "canonical p \<longleftrightarrow> (\<exists>ns. list_all plain_name ns \<and> p = render_path (True, ns))"

lemma is_absolute_Cons: "is_absolute p \<longleftrightarrow> (\<exists>q. p = slash # q)"
  by (cases p) (auto simp: is_absolute_def starts_with_def)

lemma filter_plain: "list_all plain_name ns \<Longrightarrow> filter (\<lambda>x. x \<noteq> [] \<and> x \<noteq> lit ''.'') ns = ns"
  by (induction ns) (auto simp: plain_name_def)

lemma map_plain: "list_all plain_name ns \<Longrightarrow> map name_component ns = map NormalComp ns"
  by (induction ns) (auto simp: plain_name_def name_component_def)

lemma components_render:
  assumes "list_all plain_name ns"
  shows "components (render_path (True, ns)) = RootDir # map NormalComp ns"
proof (cases "ns = []")
  case True
  then show ?thesis by (simp add: components_def render_path_def is_absolute_Cons)
next
  case False
  have "split_on slash (join [slash] ns) = ns"
    by (rule split_on_join) (use False assms in \<open>auto simp: list_all_iff plain_name_def\<close>)
  then have "split_on slash (render_path (True, ns)) = [] # ns" by (simp add: render_path_def)
  then show ?thesis
    using assms by (simp add: components_def filter_plain map_plain) (simp add: render_path_def is_absolute_Cons)
qed

lemma fold_push_normal: "fold push_component (map NormalComp ns) (r, ms) = (r, ms @ ns)"
  by (induction ns arbitrary: ms) auto

lemma normalize_canonical: "canonical p \<Longrightarrow> normalize_path p = p"
  by (auto simp: canonical_def normalize_path_def components_render fold_push_normal)
     (auto simp: render_path_def)

lemma push_component_plain:
  "(\<And>n. c = NormalComp n \<Longrightarrow> plain_name n) \<Longrightarrow> c \<noteq> RootDir \<Longrightarrow> list_all plain_name ns \<Longrightarrow>
    \<exists>ms. push_component c (True, ns) = (True, ms) \<and> list_all plain_name ms"
  by (cases c) (auto simp: list_all_iff dest: in_set_butlastD)

lemma fold_push_plain:
  "\<forall>c \<in> set cs. (\<forall>n. c = NormalComp n \<longrightarrow> plain_name n) \<and> c \<noteq> RootDir \<Longrightarrow> list_all plain_name ns \<Longrightarrow>
    \<exists>ms. fold push_component cs (True, ns) = (True, ms) \<and> list_all plain_name ms"
proof (induction cs arbitrary: ns)
  case (Cons c cs)
  then obtain ms where "push_component c (True, ns) = (True, ms)" "list_all plain_name ms"
    using push_component_plain [of c ns] by auto
  with Cons show ?case by simp
qed simp

lemma normalize_absolute: "is_absolute p \<Longrightarrow> canonical (normalize_path p)"
proof -
  assume p: "is_absolute p"
  let ?cs = "map name_component (filter (\<lambda>x. x \<noteq> [] \<and> x \<noteq> lit ''.'') (split_on slash p))"
  have "\<forall>c \<in> set ?cs. (\<forall>n. c = NormalComp n \<longrightarrow> plain_name n) \<and> c \<noteq> RootDir"
    using split_on_no_sep by (fastforce simp: name_component_def plain_name_def split: if_splits)
  from fold_push_plain [OF this, of "[]"] obtain ms where
    "fold push_component ?cs (True, []) = (True, ms)" "list_all plain_name ms" by auto
  then show ?thesis using p
    by (auto simp: normalize_path_def components_def canonical_def render_path_def Let_def)
qed

lemma path_join_absolute: "is_absolute d \<Longrightarrow> is_absolute (path_join d f)"
  by (auto simp: path_join_def is_absolute_def starts_with_iff lit_def)

lemma canonical_is_absolute: "canonical p \<Longrightarrow> is_absolute p"
  by (auto simp: canonical_def render_path_def is_absolute_Cons)

lemma file_name_render: "list_all plain_name ns \<Longrightarrow> file_name (render_path (True, ns)) = (if ns = [] then None else Some (last ns))"
  by (cases ns rule: rev_cases) (auto simp: file_name_def components_render)

definition env_absolute :: "path_env \<Rightarrow> bool" where
  "env_absolute env \<longleftrightarrow> pred_option is_absolute (current_dir env) \<and> pred_option is_absolute (home_dir env)"

lemma from_absolute_path_canonical:
  assumes "env_absolute env" "from_absolute_path env p = Some q"
  shows "canonical q"
  using assms
  by (auto simp: from_absolute_path_def absolutize_def absolutize_from_def path_with_base_def env_absolute_def
      intro!: normalize_absolute path_join_absolute split: if_splits)


definition env_sample :: path_env where
  "env_sample = \<lparr>current_dir = Some (lit ''/w''), home_dir = Some (lit ''/h'')\<rparr>"


end
