(* ===== verification/Exec_Policy.thy ===== *)
theory Exec_Policy
  imports Abs_Path "HOL-Library.List_Lexorder" "HOL-Library.DAList"
begin

text \<open>
  The command policy (codex-rs/execpolicy/src: decision.rs, rule.rs, policy.rs, executable_name.rs,
  on a platform other than Windows). The rules are kept in a \<open>MultiMap\<close> of the \<open>multimap\<close> package:
  its operations are an argument, a record, and the locale \<open>multimap\<close> states what the code relies
  on. Errors of the code that only abort are \<open>None\<close>.
\<close>

section \<open>Decisions\<close>

datatype decision = Allow | Prompt | Forbidden

instantiation decision :: linorder
begin

definition less_eq_decision :: "decision \<Rightarrow> decision \<Rightarrow> bool" where
  "less_eq_decision a b \<longleftrightarrow> a = Allow \<or> b = Forbidden \<or> a = b"

definition less_decision :: "decision \<Rightarrow> decision \<Rightarrow> bool" where
  "less_decision a b \<longleftrightarrow> a \<le> b \<and> a \<noteq> b"

instance
  by intro_classes (auto simp: less_eq_decision_def less_decision_def, (metis decision.exhaust)+)

end

datatype policy_error = InvalidDecision rstr | InvalidPattern rstr | InvalidExample rstr | InvalidRule rstr

definition decision_parse :: "rstr \<Rightarrow> (policy_error, decision) result" where
  "decision_parse raw =
     (if raw = lit ''allow'' then Ok Allow
      else if raw = lit ''prompt'' then Ok Prompt
      else if raw = lit ''forbidden'' then Ok Forbidden
      else Err (InvalidDecision raw))"

section \<open>Rules\<close>

datatype pattern_token = Single rstr | Alts "rstr list"

fun token_matches :: "pattern_token \<Rightarrow> rstr \<Rightarrow> bool" where
  "token_matches (Single expected) token \<longleftrightarrow> expected = token"
| "token_matches (Alts alternatives) token \<longleftrightarrow> list_ex (\<lambda>alt. alt = token) alternatives"

fun alternatives :: "pattern_token \<Rightarrow> rstr list" where
  "alternatives (Single expected) = [expected]"
| "alternatives (Alts alts) = alts"

record prefix_pattern =
  pat_first :: rstr
  pat_rest :: "pattern_token list"

definition matches_prefix :: "prefix_pattern \<Rightarrow> rstr list \<Rightarrow> rstr list option" where
  "matches_prefix pat cmd =
     (let pattern_length = length (pat_rest pat) + 1
      in if length cmd < pattern_length \<or> cmd ! 0 \<noteq> pat_first pat then None
         else if list_all (\<lambda>(p, c). token_matches p c) (zip (pat_rest pat) (drop 1 (take pattern_length cmd)))
         then Some (take pattern_length cmd) else None)"

datatype rule_match =
    PrefixRuleMatch "rstr list" decision "rstr option" "rstr option"
  | HeuristicsRuleMatch "rstr list" decision

fun match_decision :: "rule_match \<Rightarrow> decision" where
  "match_decision (PrefixRuleMatch pfx d resolved justification) = d"
| "match_decision (HeuristicsRuleMatch command d) = d"

fun with_resolved_program :: "rstr \<Rightarrow> rule_match \<Rightarrow> rule_match" where
  "with_resolved_program program (PrefixRuleMatch pfx d resolved justification)
     = PrefixRuleMatch pfx d (Some program) justification"
| "with_resolved_program program other = other"

record prefix_rule =
  rule_pattern :: prefix_pattern
  rule_decision :: decision
  rule_justification :: "rstr option"

definition rule_program :: "prefix_rule \<Rightarrow> rstr" where
  "rule_program r = pat_first (rule_pattern r)"

definition rule_matches :: "prefix_rule \<Rightarrow> rstr list \<Rightarrow> rule_match option" where
  "rule_matches r cmd =
     map_option (\<lambda>pfx. PrefixRuleMatch pfx (rule_decision r) None (rule_justification r))
       (matches_prefix (rule_pattern r) cmd)"

datatype network_rule_protocol = Http | Https | Socks5Tcp | Socks5Udp

definition protocol_parse :: "rstr \<Rightarrow> (policy_error, network_rule_protocol) result" where
  "protocol_parse raw =
     (if raw = lit ''http'' then Ok Http
      else if raw = lit ''https'' \<or> raw = lit ''https_connect'' \<or> raw = lit ''http-connect'' then Ok Https
      else if raw = lit ''socks5_tcp'' then Ok Socks5Tcp
      else if raw = lit ''socks5_udp'' then Ok Socks5Udp
      else Err (InvalidRule (lit ''network_rule protocol must be one of http, https, socks5_tcp, socks5_udp (got ''
        @ raw @ lit '')'')))"

fun as_policy_string :: "network_rule_protocol \<Rightarrow> rstr" where
  "as_policy_string Http = lit ''http''"
| "as_policy_string Https = lit ''https''"
| "as_policy_string Socks5Tcp = lit ''socks5_tcp''"
| "as_policy_string Socks5Udp = lit ''socks5_udp''"

record network_rule =
  net_host :: rstr
  net_protocol :: network_rule_protocol
  net_decision :: decision
  net_justification :: "rstr option"

text \<open>The host without brackets and port, or the error for a bad suffix.\<close>

definition strip_port :: "rstr \<Rightarrow> rstr \<Rightarrow> (policy_error, rstr) result" where
  "strip_port raw host =
     (let port_digits = (\<lambda>port. port \<noteq> [] \<and> list_all is_ascii_digit port)
      in case strip_prefix host (lit ''['') of
           Some stripped \<Rightarrow>
             (case split_once stripped 93 of
                None \<Rightarrow> Err (InvalidRule (lit ''network_rule host has an invalid bracketed IPv6 literal''))
              | Some (inside, rest) \<Rightarrow>
                  (let port_ok = (case strip_prefix rest (lit '':'') of Some port \<Rightarrow> port_digits port | None \<Rightarrow> False)
                   in if rest \<noteq> [] \<and> \<not> port_ok
                      then Err (InvalidRule (lit ''network_rule host contains an unsupported suffix: '' @ raw))
                      else Ok inside))
         | None \<Rightarrow>
             (case rsplit_once host 58 of
                Some (candidate, port) \<Rightarrow>
                  if count_list host 58 = 1 \<and> candidate \<noteq> [] \<and> port_digits port then Ok candidate else Ok host
              | None \<Rightarrow> Ok host))"

definition normalize_network_rule_host :: "rstr \<Rightarrow> (policy_error, rstr) result" where
  "normalize_network_rule_host raw =
     (let host = trim raw in
      if host = [] then Err (InvalidRule (lit ''network_rule host cannot be empty''))
      else if contains host (lit ''://'') \<or> contains host (lit ''/'') \<or> contains host (lit ''?'') \<or> contains host (lit ''#'')
      then Err (InvalidRule (lit ''network_rule host must be a hostname or IP literal (without scheme or path)''))
      else and_then (strip_port raw host) (\<lambda>host.
        let normalized = to_ascii_lowercase (trim (trim_end_matches host 46)) in
        if normalized = [] then Err (InvalidRule (lit ''network_rule host cannot be empty''))
        else if contains normalized (lit ''*'')
        then Err (InvalidRule (lit ''network_rule host must be a specific host; wildcards are not allowed''))
        else if list_ex is_whitespace normalized
        then Err (InvalidRule (lit ''network_rule host cannot contain whitespace''))
        else Ok normalized))"

section \<open>Policies\<close>

record 'm multimap_ops =
  mm_new :: 'm
  mm_insert :: "rstr \<Rightarrow> prefix_rule \<Rightarrow> 'm \<Rightarrow> 'm"
  mm_get_vec :: "rstr \<Rightarrow> 'm \<Rightarrow> prefix_rule list option"
  mm_iter_all :: "'m \<Rightarrow> (rstr \<times> prefix_rule list) list"

record 'm policy =
  rules_by_program :: 'm
  network_rules :: "network_rule list"
  host_executables_by_name :: "rstr \<rightharpoonup> rstr list"

definition from_parts :: "'m \<Rightarrow> network_rule list \<Rightarrow> (rstr \<rightharpoonup> rstr list) \<Rightarrow> 'm policy" where
  "from_parts rules net hosts = \<lparr>rules_by_program = rules, network_rules = net, host_executables_by_name = hosts\<rparr>"

definition policy_new :: "'m \<Rightarrow> 'm policy" where
  "policy_new rules = from_parts rules [] Map.empty"

definition policy_empty :: "'m multimap_ops \<Rightarrow> 'm policy" where
  "policy_empty ops = policy_new (mm_new ops)"

fun render_pattern_token :: "pattern_token \<Rightarrow> rstr" where
  "render_pattern_token (Single v) = v"
| "render_pattern_token (Alts alts) = lit ''['' @ join (lit ''|'') alts @ lit '']''"

definition get_allowed_prefixes :: "'m multimap_ops \<Rightarrow> 'm policy \<Rightarrow> rstr list list" where
  "get_allowed_prefixes ops p =
     (let prefixes = [pat_first (rule_pattern r) # map render_pattern_token (pat_rest (rule_pattern r)).
            (program, rules) \<leftarrow> mm_iter_all ops (rules_by_program p), r \<leftarrow> rules, rule_decision r = Allow]
      in remdups_adj (sort prefixes))"

definition add_prefix_rule ::
  "'m multimap_ops \<Rightarrow> rstr list \<Rightarrow> decision \<Rightarrow> 'm policy \<Rightarrow> (policy_error, 'm policy) result" where
  "add_prefix_rule ops pfx d p =
     (case pfx of
        [] \<Rightarrow> Err (InvalidPattern (lit ''prefix cannot be empty''))
      | first # rest \<Rightarrow>
          (let rule = \<lparr>rule_pattern = \<lparr>pat_first = first, pat_rest = map Single rest\<rparr>,
                       rule_decision = d, rule_justification = None\<rparr>
           in Ok (p\<lparr>rules_by_program := mm_insert ops first rule (rules_by_program p)\<rparr>)))"

definition add_network_rule ::
  "rstr \<Rightarrow> network_rule_protocol \<Rightarrow> decision \<Rightarrow> rstr option \<Rightarrow> 'm policy \<Rightarrow> (policy_error, 'm policy) result" where
  "add_network_rule host protocol d justification p =
     and_then (normalize_network_rule_host host) (\<lambda>host.
       case justification of
         Some raw \<Rightarrow>
           if trim raw = [] then Err (InvalidRule (lit ''justification cannot be empty''))
           else Ok (p\<lparr>network_rules := network_rules p @ [\<lparr>net_host = host, net_protocol = protocol,
             net_decision = d, net_justification = justification\<rparr>]\<rparr>)
       | None \<Rightarrow> Ok (p\<lparr>network_rules := network_rules p @ [\<lparr>net_host = host, net_protocol = protocol,
             net_decision = d, net_justification = justification\<rparr>]\<rparr>))"

definition set_host_executable_paths :: "rstr \<Rightarrow> rstr list \<Rightarrow> 'm policy \<Rightarrow> 'm policy" where
  "set_host_executable_paths name paths p =
     p\<lparr>host_executables_by_name := (host_executables_by_name p)(name \<mapsto> paths)\<rparr>"

definition insert_all :: "'m multimap_ops \<Rightarrow> (rstr \<times> prefix_rule list) list \<Rightarrow> 'm \<Rightarrow> 'm" where
  "insert_all ops entries m = fold (\<lambda>(program, rules) m. fold (mm_insert ops program) rules m) entries m"

definition merge_overlay :: "'m multimap_ops \<Rightarrow> 'm policy \<Rightarrow> 'm policy \<Rightarrow> 'm policy" where
  "merge_overlay ops p overlay =
     from_parts (insert_all ops (mm_iter_all ops (rules_by_program overlay)) (rules_by_program p))
       (network_rules p @ network_rules overlay)
       (host_executables_by_name p ++ host_executables_by_name overlay)"

definition upsert_domain :: "rstr \<Rightarrow> rstr list \<Rightarrow> rstr list" where
  "upsert_domain host entries = filter (\<lambda>e. e \<noteq> host) entries @ [host]"

definition domain_step :: "network_rule \<Rightarrow> rstr list \<times> rstr list \<Rightarrow> rstr list \<times> rstr list" where
  "domain_step r st =
     (case st of (allowed, denied) \<Rightarrow>
        (case net_decision r of
           Allow \<Rightarrow> (upsert_domain (net_host r) allowed, filter (\<lambda>e. e \<noteq> net_host r) denied)
         | Forbidden \<Rightarrow> (filter (\<lambda>e. e \<noteq> net_host r) allowed, upsert_domain (net_host r) denied)
         | Prompt \<Rightarrow> (allowed, denied)))"

definition compiled_network_domains :: "'m policy \<Rightarrow> rstr list \<times> rstr list" where
  "compiled_network_domains p = fold domain_step (network_rules p) ([], [])"

section \<open>Checking commands\<close>

definition executable_lookup_key :: "rstr \<Rightarrow> rstr" where
  "executable_lookup_key raw = raw"

definition executable_path_lookup_key :: "rstr \<Rightarrow> rstr option" where
  "executable_path_lookup_key path = map_option executable_lookup_key (file_name path)"

definition match_exact_rules :: "'m multimap_ops \<Rightarrow> 'm policy \<Rightarrow> rstr list \<Rightarrow> rule_match list option" where
  "match_exact_rules ops p cmd =
     (case cmd of
        [] \<Rightarrow> None
      | first # _ \<Rightarrow>
          Some (case mm_get_vec ops first (rules_by_program p) of
                  Some rules \<Rightarrow> List.map_filter (\<lambda>r. rule_matches r cmd) rules
                | None \<Rightarrow> []))"

definition match_host_executable_rules ::
  "'m multimap_ops \<Rightarrow> path_env \<Rightarrow> 'm policy \<Rightarrow> rstr list \<Rightarrow> rule_match list" where
  "match_host_executable_rules ops env p cmd =
     (case cmd of
        [] \<Rightarrow> []
      | first # args \<Rightarrow>
          (case from_absolute_path env first of
             None \<Rightarrow> []
           | Some program \<Rightarrow>
               (case executable_path_lookup_key program of
                  None \<Rightarrow> []
                | Some basename \<Rightarrow>
                    (case mm_get_vec ops basename (rules_by_program p) of
                       None \<Rightarrow> []
                     | Some rules \<Rightarrow>
                         if (case host_executables_by_name p basename of
                               Some paths \<Rightarrow> \<not> list_ex (\<lambda>path. path = program) paths
                             | None \<Rightarrow> False)
                         then []
                         else map (with_resolved_program program)
                           (List.map_filter (\<lambda>r. rule_matches r (basename # args)) rules)))))"

text \<open>\<open>resolve\<close> is the field \<open>resolve_host_executables\<close> of the match options.\<close>

definition matches_for_command_with_options ::
  "'m multimap_ops \<Rightarrow> path_env \<Rightarrow> 'm policy \<Rightarrow> rstr list \<Rightarrow> (rstr list \<Rightarrow> decision) option \<Rightarrow> bool \<Rightarrow> rule_match list" where
  "matches_for_command_with_options ops env p cmd fallback resolve =
     (let matched =
        (case match_exact_rules ops p cmd of
           Some (m # ms) \<Rightarrow> m # ms
         | _ \<Rightarrow> if resolve then match_host_executable_rules ops env p cmd else [])
      in case (matched, fallback) of
           ([], Some f) \<Rightarrow> [HeuristicsRuleMatch cmd (f cmd)]
         | _ \<Rightarrow> matched)"

definition matches_for_command ::
  "'m multimap_ops \<Rightarrow> path_env \<Rightarrow> 'm policy \<Rightarrow> rstr list \<Rightarrow> (rstr list \<Rightarrow> decision) option \<Rightarrow> rule_match list" where
  "matches_for_command ops env p cmd fallback = matches_for_command_with_options ops env p cmd fallback False"

record evaluation =
  ev_decision :: decision
  matched_rules :: "rule_match list"

definition is_match :: "evaluation \<Rightarrow> bool" where
  "is_match ev = list_ex (\<lambda>m. case m of HeuristicsRuleMatch _ _ \<Rightarrow> False | _ \<Rightarrow> True) (matched_rules ev)"

text \<open>The \<open>expect\<close> on an empty list of matches is the \<open>None\<close> case.\<close>

definition from_matches :: "rule_match list \<Rightarrow> evaluation option" where
  "from_matches ms =
     (case map match_decision ms of
        [] \<Rightarrow> None
      | d # ds \<Rightarrow> Some \<lparr>ev_decision = fold max ds d, matched_rules = ms\<rparr>)"

definition check_with_options ::
  "'m multimap_ops \<Rightarrow> path_env \<Rightarrow> 'm policy \<Rightarrow> rstr list \<Rightarrow> (rstr list \<Rightarrow> decision) \<Rightarrow> bool \<Rightarrow> evaluation option" where
  "check_with_options ops env p cmd fallback resolve =
     from_matches (matches_for_command_with_options ops env p cmd (Some fallback) resolve)"

definition check ::
  "'m multimap_ops \<Rightarrow> path_env \<Rightarrow> 'm policy \<Rightarrow> rstr list \<Rightarrow> (rstr list \<Rightarrow> decision) \<Rightarrow> evaluation option" where
  "check ops env p cmd fallback = check_with_options ops env p cmd fallback False"

definition check_multiple_with_options ::
  "'m multimap_ops \<Rightarrow> path_env \<Rightarrow> 'm policy \<Rightarrow> rstr list list \<Rightarrow> (rstr list \<Rightarrow> decision) \<Rightarrow> bool \<Rightarrow> evaluation option" where
  "check_multiple_with_options ops env p cmds fallback resolve =
     from_matches (concat (map (\<lambda>cmd. matches_for_command_with_options ops env p cmd (Some fallback) resolve) cmds))"

definition check_multiple ::
  "'m multimap_ops \<Rightarrow> path_env \<Rightarrow> 'm policy \<Rightarrow> rstr list list \<Rightarrow> (rstr list \<Rightarrow> decision) \<Rightarrow> evaluation option" where
  "check_multiple ops env p cmds fallback = check_multiple_with_options ops env p cmds fallback False"

section \<open>The rule table\<close>

definition rules_for :: "'m multimap_ops \<Rightarrow> rstr \<Rightarrow> 'm \<Rightarrow> prefix_rule list" where
  "rules_for ops program m = (case mm_get_vec ops program m of Some rules \<Rightarrow> rules | None \<Rightarrow> [])"

text \<open>
  The documented behaviour of \<open>MultiMap\<close>: insertion appends to the vector of the key, and the
  iteration visits every key once with its vector.
\<close>

locale multimap =
  fixes ops :: "'m multimap_ops"
  assumes get_new: "mm_get_vec ops k (mm_new ops) = None"
    and get_insert: "mm_get_vec ops k (mm_insert ops k' r m)
      = (if k = k' then Some (rules_for ops k m @ [r]) else mm_get_vec ops k m)"
    and iter_distinct: "distinct (map fst (mm_iter_all ops m))"
    and iter_get: "map_of (mm_iter_all ops m) k = mm_get_vec ops k m"
begin

lemma rules_for_new [simp]: "rules_for ops k (mm_new ops) = []"
  by (simp add: rules_for_def get_new)

lemma rules_for_insert [simp]:
  "rules_for ops k (mm_insert ops k' r m) = rules_for ops k m @ (if k = k' then [r] else [])"
  by (simp add: rules_for_def get_insert)

lemma rules_for_insert_fold [simp]:
  "rules_for ops k (fold (mm_insert ops k') rs m) = rules_for ops k m @ (if k = k' then rs else [])"
  by (induction rs arbitrary: m) auto

lemma rules_for_insert_all:
  "distinct (map fst es) \<Longrightarrow>
    rules_for ops k (insert_all ops es m)
      = rules_for ops k m @ (case map_of es k of Some rs \<Rightarrow> rs | None \<Rightarrow> [])"
  unfolding insert_all_def
proof (induction es arbitrary: m)
  case (Cons e es)
  obtain k' rs where e: "e = (k', rs)" by (cases e)
  have "k = k' \<Longrightarrow> map_of es k = None" using Cons.prems e by (auto simp: map_of_eq_None_iff)
  with Cons e show ?case by auto
qed simp

lemma merged_rules:
  "rules_for ops k (rules_by_program (merge_overlay ops p q))
    = rules_for ops k (rules_by_program p) @ rules_for ops k (rules_by_program q)"
  using rules_for_insert_all [OF iter_distinct [of "rules_by_program q"], of k "rules_by_program p"]
  by (simp add: merge_overlay_def from_parts_def iter_get rules_for_def [of ops k "rules_by_program q"])

end

definition alist_ops :: "(rstr, prefix_rule list) alist multimap_ops" where
  "alist_ops =
     \<lparr>mm_new = DAList.empty,
      mm_insert = (\<lambda>k r m. DAList.update k ((case DAList.lookup m k of Some rs \<Rightarrow> rs | None \<Rightarrow> []) @ [r]) m),
      mm_get_vec = (\<lambda>k m. DAList.lookup m k),
      mm_iter_all = DAList.impl_of\<rparr>"

interpretation alist: multimap alist_ops
proof unfold_locales
  fix k k' r m
  show "mm_get_vec alist_ops k (mm_insert alist_ops k' r m)
      = (if k = k' then Some (rules_for alist_ops k m @ [r]) else mm_get_vec alist_ops k m)"
    by (simp add: alist_ops_def rules_for_def lookup_update)
qed (simp_all add: alist_ops_def lookup.rep_eq empty.rep_eq impl_of_distinct)

section \<open>What decides about a command\<close>

definition covers :: "prefix_rule \<Rightarrow> rstr list \<Rightarrow> bool" where
  "covers r cmd \<longleftrightarrow>
     (\<exists>ts rest. cmd = pat_first (rule_pattern r) # ts @ rest
        \<and> list_all2 token_matches (pat_rest (rule_pattern r)) ts)"

lemma matches_prefix_covers: "matches_prefix (rule_pattern r) cmd \<noteq> None \<longleftrightarrow> covers r cmd"
proof (cases cmd)
  case (Cons c cs)
  let ?ps = "pat_rest (rule_pattern r)"
  have "(\<exists>ts rest. cs = ts @ rest \<and> list_all2 token_matches ?ps ts)
      \<longleftrightarrow> length ?ps \<le> length cs \<and> list_all2 token_matches ?ps (take (length ?ps) cs)"
    by (metis append_eq_conv_conj append_take_drop_id le_cases length_append list_all2_lengthD take_all_iff le_add1)
  then show ?thesis using Cons
    by (auto simp: matches_prefix_def covers_def Let_def list_all2_iff list_all_iff)
qed (simp add: matches_prefix_def covers_def)

lemma map_filter_rules:
  "map match_decision (List.map_filter (\<lambda>r. rule_matches r cmd) rs) = map rule_decision (filter (\<lambda>r. covers r cmd) rs)"
proof (induction rs)
  case (Cons r rs)
  then show ?case using matches_prefix_covers [of r cmd]
    by (cases "matches_prefix (rule_pattern r) cmd") (auto simp: List.map_filter_simps rule_matches_def)
qed (simp add: List.map_filter_simps)

lemma map_filter_no_heuristics:
  "\<forall>m \<in> set (List.map_filter (\<lambda>r. rule_matches r cmd) rs). \<exists>a b c d. m = PrefixRuleMatch a b c d"
  by (induction rs) (auto simp: List.map_filter_simps rule_matches_def split: option.splits)

text \<open>
  The rules that govern a command: those that cover it as it is written; only if there are none
  and host resolution is on, those for the base name of its resolved program, when the policy does
  not restrict the paths of that base name or lists the program.
\<close>

definition exact_rules :: "'m multimap_ops \<Rightarrow> 'm policy \<Rightarrow> rstr list \<Rightarrow> prefix_rule list" where
  "exact_rules ops p cmd =
     (case cmd of [] \<Rightarrow> []
      | first # _ \<Rightarrow> filter (\<lambda>r. covers r cmd) (rules_for ops first (rules_by_program p)))"

definition host_rules :: "'m multimap_ops \<Rightarrow> path_env \<Rightarrow> 'm policy \<Rightarrow> rstr list \<Rightarrow> prefix_rule list" where
  "host_rules ops env p cmd =
     (case cmd of [] \<Rightarrow> []
      | first # args \<Rightarrow>
          (case from_absolute_path env first of
             None \<Rightarrow> []
           | Some program \<Rightarrow>
               (case file_name program of
                  None \<Rightarrow> []
                | Some base \<Rightarrow>
                    if pred_option (\<lambda>paths. program \<in> set paths) (host_executables_by_name p base)
                    then filter (\<lambda>r. covers r (base # args)) (rules_for ops base (rules_by_program p)) else [])))"

definition governing :: "'m multimap_ops \<Rightarrow> path_env \<Rightarrow> 'm policy \<Rightarrow> bool \<Rightarrow> rstr list \<Rightarrow> prefix_rule list" where
  "governing ops env p resolve cmd =
     (if exact_rules ops p cmd \<noteq> [] then exact_rules ops p cmd
      else if resolve then host_rules ops env p cmd else [])"

lemma match_exact_decisions:
  "(case match_exact_rules ops p cmd of Some ms \<Rightarrow> map match_decision ms | None \<Rightarrow> [])
    = map rule_decision (exact_rules ops p cmd)"
  by (cases cmd) (auto simp: match_exact_rules_def exact_rules_def rules_for_def map_filter_rules split: option.splits)

lemma with_resolved_decision [simp]: "match_decision (with_resolved_program program m) = match_decision m"
  by (cases m) auto

lemma match_host_decisions:
  "map match_decision (match_host_executable_rules ops env p cmd) = map rule_decision (host_rules ops env p cmd)"
proof (cases cmd)
  case (Cons first args)
  have c: "match_decision \<circ> with_resolved_program program = match_decision" for program by auto
  show ?thesis unfolding Cons
    by (auto simp: match_host_executable_rules_def host_rules_def executable_path_lookup_key_def
        executable_lookup_key_def rules_for_def c map_filter_rules list_ex_iff option.map_ident
        split: option.splits)
qed (simp add: match_host_executable_rules_def host_rules_def)

lemma fold_max_Max: "fold max ds d = Max (insert d (set ds))" for d :: "'a :: linorder"
  using Max.set_eq_fold [of d ds] by simp

lemma matched_decisions:
  "map match_decision (matches_for_command_with_options ops env p cmd (Some f) resolve)
    = (if governing ops env p resolve cmd = [] then [f cmd] else map rule_decision (governing ops env p resolve cmd))"
proof -
  have e: "(case match_exact_rules ops p cmd of Some ms \<Rightarrow> map match_decision ms | None \<Rightarrow> [])
      = map rule_decision (exact_rules ops p cmd)" by (rule match_exact_decisions)
  have h: "map match_decision (match_host_executable_rules ops env p cmd) = map rule_decision (host_rules ops env p cmd)"
    by (rule match_host_decisions)
  show ?thesis
  proof (cases "exact_rules ops p cmd = []")
    case True
    with e have "match_exact_rules ops p cmd = None \<or> match_exact_rules ops p cmd = Some []"
      by (auto split: option.splits)
    with True h show ?thesis
      by (cases "match_host_executable_rules ops env p cmd")
         (auto simp: matches_for_command_with_options_def governing_def)
  next
    case False
    with e obtain m ms where "match_exact_rules ops p cmd = Some (m # ms)"
      "map match_decision (m # ms) = map rule_decision (exact_rules ops p cmd)"
      by (auto simp: neq_Nil_conv split: option.splits)
    with False show ?thesis by (simp add: matches_for_command_with_options_def governing_def)
  qed
qed

lemma from_matches_eq:
  "from_matches ms = (if ms = [] then None
     else Some \<lparr>ev_decision = Max (set (map match_decision ms)), matched_rules = ms\<rparr>)"
  by (cases ms) (simp_all add: from_matches_def fold_max_Max)

lemma policy_decision:
  "check_with_options ops env p cmd f resolve = Some \<lparr>ev_decision =
      (if governing ops env p resolve cmd = [] then f cmd else Max (rule_decision ` set (governing ops env p resolve cmd))),
    matched_rules = matches_for_command_with_options ops env p cmd (Some f) resolve\<rparr>"
proof -
  let ?ms = "matches_for_command_with_options ops env p cmd (Some f) resolve"
  have "?ms \<noteq> []" using matched_decisions [of ops env p cmd f resolve] by (auto split: if_splits)
  moreover have "set (map match_decision ?ms) = (if governing ops env p resolve cmd = [] then {f cmd}
      else rule_decision ` set (governing ops env p resolve cmd))"
    unfolding matched_decisions by simp
  ultimately show ?thesis by (simp add: check_with_options_def from_matches_eq del: set_map)
qed

definition from_rule :: "rule_match \<Rightarrow> bool" where
  "from_rule m \<longleftrightarrow> (case m of HeuristicsRuleMatch _ _ \<Rightarrow> False | _ \<Rightarrow> True)"

lemma map_filter_from_rule: "\<forall>m \<in> set (List.map_filter (\<lambda>r. rule_matches r cmd) rs). from_rule m"
  using map_filter_no_heuristics [of cmd rs] by (fastforce simp: from_rule_def)

lemma exact_from_rule: "match_exact_rules ops p cmd = Some ms \<Longrightarrow> \<forall>m \<in> set ms. from_rule m"
  using map_filter_from_rule by (fastforce simp: match_exact_rules_def split: list.splits option.splits)

lemma resolved_from_rule: "from_rule (with_resolved_program program m) = from_rule m"
  by (cases m) (auto simp: from_rule_def)

lemma host_from_rule: "\<forall>m \<in> set (match_host_executable_rules ops env p cmd). from_rule m"
  using map_filter_from_rule
  by (auto simp: match_host_executable_rules_def resolved_from_rule split: list.splits option.splits)

lemma is_match_governing:
  "list_ex from_rule (matches_for_command_with_options ops env p cmd (Some f) resolve)
    \<longleftrightarrow> governing ops env p resolve cmd \<noteq> []"
proof -
  let ?ms = "matches_for_command_with_options ops env p cmd (Some f) resolve"
  have "?ms = [HeuristicsRuleMatch cmd (f cmd)] \<or> (?ms \<noteq> [] \<and> (\<forall>m \<in> set ?ms. from_rule m))"
    using exact_from_rule [of ops p cmd] host_from_rule [of ops env p cmd]
    by (auto simp: matches_for_command_with_options_def Let_def split: option.splits list.splits)
  moreover have "?ms = [HeuristicsRuleMatch cmd (f cmd)] \<longleftrightarrow> governing ops env p resolve cmd = []"
  proof (cases "exact_rules ops p cmd = []")
    case True
    with match_exact_decisions [of ops p cmd] have
      "match_exact_rules ops p cmd = None \<or> match_exact_rules ops p cmd = Some []" by (auto split: option.splits)
    then show ?thesis using True match_host_decisions [of ops env p cmd] host_from_rule [of ops env p cmd]
      by (auto simp: matches_for_command_with_options_def governing_def from_rule_def Let_def split: list.splits)
  next
    case False
    with match_exact_decisions [of ops p cmd] obtain m ms where "match_exact_rules ops p cmd = Some (m # ms)"
      by (auto simp: neq_Nil_conv split: option.splits)
    with False exact_from_rule [of ops p cmd] show ?thesis
      by (auto simp: matches_for_command_with_options_def governing_def from_rule_def)
  qed
  ultimately have "governing ops env p resolve cmd = [] \<and> ?ms = [HeuristicsRuleMatch cmd (f cmd)]
      \<or> governing ops env p resolve cmd \<noteq> [] \<and> ?ms \<noteq> [] \<and> (\<forall>m \<in> set ?ms. from_rule m)" by blast
  then show ?thesis
  proof (elim disjE conjE)
    assume "governing ops env p resolve cmd \<noteq> []" "?ms \<noteq> []" "\<forall>m \<in> set ?ms. from_rule m"
    then show ?thesis by (cases ?ms) auto
  qed (simp add: from_rule_def)
qed

section \<open>Properties of the policy\<close>

text \<open>
  C3. The verdict on a command is the strictest decision of the rules that govern it, and the
  heuristic verdict exactly when no rule does; the check never runs into its panic. Governing are
  the rules whose token pattern covers the command as written or, only if there are none and host
  resolution is on, the rules for the base name of the resolved program, unless the policy lists
  paths for that name and the program is not among them.
\<close>

theorem check_strictest_rule:
  "\<exists>ev. check_with_options ops env p cmd f resolve = Some ev
    \<and> ev_decision ev = (if governing ops env p resolve cmd = [] then f cmd
        else Max (rule_decision ` set (governing ops env p resolve cmd)))
    \<and> (is_match ev \<longleftrightarrow> governing ops env p resolve cmd \<noteq> [])"
proof -
  have "is_match ev \<longleftrightarrow> list_ex from_rule (matched_rules ev)" for ev
    by (simp add: is_match_def from_rule_def [abs_def])
  then show ?thesis using is_match_governing [of ops env p cmd f resolve]
    by (simp add: policy_decision)
qed

text \<open>
  C21. An overlay policy cannot soften a rule that applies to a command as written: whenever some
  base rule covers the command, the merged policy decides at least as strictly as the base.
\<close>

theorem overlay_never_softens:
  assumes "multimap ops" and "exact_rules ops p cmd \<noteq> []"
  shows "\<exists>ev ev'. check_with_options ops env p cmd f resolve = Some ev
    \<and> check_with_options ops env' (merge_overlay ops p q) cmd f' resolve' = Some ev'
    \<and> ev_decision ev \<le> ev_decision ev'"
proof -
  have "set (exact_rules ops p cmd) \<subseteq> set (exact_rules ops (merge_overlay ops p q) cmd)"
    using multimap.merged_rules [OF assms(1)] by (auto simp: exact_rules_def split: list.splits)
  then have "rule_decision ` set (exact_rules ops p cmd)
      \<subseteq> rule_decision ` set (exact_rules ops (merge_overlay ops p q) cmd)"
    and "exact_rules ops (merge_overlay ops p q) cmd \<noteq> []" using assms(2) by auto
  moreover from calculation(1) have "Max (rule_decision ` set (exact_rules ops p cmd))
      \<le> Max (rule_decision ` set (exact_rules ops (merge_overlay ops p q) cmd))"
    by (rule Max_mono) (use assms(2) in auto)
  ultimately show ?thesis using assms(2) by (simp add: policy_decision governing_def del: Max_le_iff)
qed

definition rule_sample :: "rstr list \<Rightarrow> decision \<Rightarrow> prefix_rule" where
  "rule_sample ts d =
     \<lparr>rule_pattern = \<lparr>pat_first = hd ts, pat_rest = map Single (tl ts)\<rparr>, rule_decision = d, rule_justification = None\<rparr>"

definition policy_sample :: "rstr list \<Rightarrow> decision \<Rightarrow> (rstr, prefix_rule list) alist policy" where
  "policy_sample ts d = policy_new (mm_insert alist_ops (hd ts) (rule_sample ts d) (mm_new alist_ops))"

lemma policy_sample_exact:
  "exact_rules alist_ops (policy_sample [c] d) (c # cs) = [rule_sample [c] d]"
proof -
  have "covers (rule_sample [c] d) (c # cs)" by (auto simp: covers_def rule_sample_def)
  then show ?thesis
    by (simp add: exact_rules_def policy_sample_def policy_new_def from_parts_def)
qed

theorem overlay_never_softens_witness:
  "\<exists>ev ev'. check_with_options alist_ops env_sample (policy_sample [lit ''git''] Prompt)
        [lit ''git'', lit ''push''] (\<lambda>_. Allow) True = Some ev
    \<and> check_with_options alist_ops env_sample
        (merge_overlay alist_ops (policy_sample [lit ''git''] Prompt) (policy_sample [lit ''git'', lit ''push''] Allow))
        [lit ''git'', lit ''push''] (\<lambda>_. Allow) True = Some ev'
    \<and> ev_decision ev \<le> ev_decision ev'"
  by (rule overlay_never_softens [OF alist.multimap_axioms]) (simp add: policy_sample_exact)

text \<open>The last allowing or denying network rule for a host.\<close>

definition last_verdict :: "network_rule list \<Rightarrow> rstr \<Rightarrow> decision option" where
  "last_verdict rs host =
     (let xs = filter (\<lambda>r. net_host r = host \<and> net_decision r \<noteq> Prompt) rs
      in if xs = [] then None else Some (net_decision (last xs)))"

lemma last_verdict_snoc:
  "last_verdict (rs @ [r]) host =
     (if net_host r = host \<and> net_decision r \<noteq> Prompt then Some (net_decision r) else last_verdict rs host)"
  by (simp add: last_verdict_def)

text \<open>
  C39. Of several network rules for one host the last allowing or denying one wins: the compiled
  lists contain a host exactly when its last such rule allows or forbids it, prompts have no
  effect, and no host occurs twice or in both lists.
\<close>

theorem network_last_rule_wins:
  "case compiled_network_domains p of (allowed, denied) \<Rightarrow>
     (\<forall>host. (host \<in> set allowed \<longleftrightarrow> last_verdict (network_rules p) host = Some Allow)
        \<and> (host \<in> set denied \<longleftrightarrow> last_verdict (network_rules p) host = Some Forbidden))
     \<and> distinct allowed \<and> distinct denied \<and> set allowed \<inter> set denied = {}"
proof -
  have "case fold domain_step rs ([], []) of (allowed, denied) \<Rightarrow>
      (\<forall>host. (host \<in> set allowed \<longleftrightarrow> last_verdict rs host = Some Allow)
        \<and> (host \<in> set denied \<longleftrightarrow> last_verdict rs host = Some Forbidden)) \<and> distinct allowed \<and> distinct denied" for rs
  proof (induction rs rule: rev_induct)
    case Nil
    show ?case by (simp add: last_verdict_def)
  next
    case (snoc r rs)
    obtain al de where f: "fold domain_step rs ([], []) = (al, de)" by fastforce
    with snoc have ih: "set al = {h. last_verdict rs h = Some Allow}" "set de = {h. last_verdict rs h = Some Forbidden}"
      "distinct al" "distinct de" by auto
    then show ?case
      by (cases "net_decision r") (auto simp: f domain_step_def [of r "(al, de)"] upsert_domain_def last_verdict_snoc)
  qed
  from this [of "network_rules p"] show ?thesis
    by (auto simp: compiled_network_domains_def split: prod.splits)
qed

end
