(* ===== verification/Policy_Parse.thy ===== *)
theory Policy_Parse
  imports Exec_Policy
begin

text \<open>
  Building a policy from a rules file (codex-rs/execpolicy/src/parser.rs and the example checks of
  rule.rs). A rules file is a Starlark script that calls three functions; the Starlark evaluator is
  an external package. As the functions return nothing and an error in one of them ends the
  script, a script is for the parser the sequence of its calls with evaluated arguments: this is
  the parameter \<open>starlark\<close>, and \<open>shlex\<close> is the parameter \<open>shlex_split\<close>.
\<close>

section \<open>Scripts\<close>

datatype svalue = SStr rstr | SList "svalue list" | SOther rstr

fun get_type :: "svalue \<Rightarrow> rstr" where
  "get_type (SStr _) = lit ''string''"
| "get_type (SList _) = lit ''list''"
| "get_type (SOther t) = t"

record file_span =
  span_file :: rstr
  span_begin :: "nat \<times> nat"
  span_end :: "nat \<times> nat"

datatype builtin_call =
    PrefixRuleCall "svalue list" "rstr option" "svalue list option" "svalue list option" "rstr option" "file_span option"
  | NetworkRuleCall rstr rstr rstr "rstr option"
  | HostExecutableCall rstr "svalue list"

text \<open>
  \<open>starlark\<close> gives for the identifier and the text of a file a syntax error, or the calls of the
  script with the error it ends with, if any. \<open>cwd_error\<close> is the text of the I/O error when there
  is no current directory.
\<close>

record policy_ext =
  starlark :: "rstr \<Rightarrow> rstr \<Rightarrow> (rstr, builtin_call list \<times> rstr option) result"
  shlex_split :: "rstr \<Rightarrow> rstr list option"
  cwd_error :: rstr

section \<open>Errors\<close>

record error_location =
  loc_path :: rstr
  loc_start :: "nat \<times> nat"
  loc_end :: "nat \<times> nat"

definition error_location_from_file_span :: "file_span \<Rightarrow> error_location" where
  "error_location_from_file_span fspan =
     \<lparr>loc_path = span_file fspan,
      loc_start = (fst (span_begin fspan) + 1, snd (span_begin fspan) + 1),
      loc_end = (fst (span_end fspan) + 1, snd (span_end fspan) + 1)\<rparr>"

text \<open>
  The errors of a parse. Rules and examples are kept as values; the code renders them for display.
  An error of a called function reaches the caller inside a Starlark error.
\<close>

datatype parse_failure =
    StarlarkSyntax rstr
  | StarlarkError rstr
  | BuiltinError policy_error
  | ExampleDidNotMatch "prefix_rule list" "rstr list list" "error_location option"
  | ExampleDidMatch rule_match "rstr list" "error_location option"

fun with_location :: "parse_failure \<Rightarrow> error_location \<Rightarrow> parse_failure" where
  "with_location (ExampleDidNotMatch rules examples None) l = ExampleDidNotMatch rules examples (Some l)"
| "with_location (ExampleDidMatch rule example None) l = ExampleDidMatch rule example (Some l)"
| "with_location other l = other"

definition attach_validation_location :: "parse_failure \<Rightarrow> error_location option \<Rightarrow> parse_failure" where
  "attach_validation_location e l = (case l of Some l \<Rightarrow> with_location e l | None \<Rightarrow> e)"

section \<open>Arguments\<close>

fun unpack_strings :: "(svalue \<Rightarrow> policy_error) \<Rightarrow> svalue list \<Rightarrow> (policy_error, rstr list) result" where
  "unpack_strings err [] = Ok []"
| "unpack_strings err (SStr s # vs) = and_then (unpack_strings err vs) (\<lambda>ss. Ok (s # ss))"
| "unpack_strings err (v # vs) = Err (err v)"

fun parse_pattern_token :: "svalue \<Rightarrow> (policy_error, pattern_token) result" where
  "parse_pattern_token (SStr s) = Ok (Single s)"
| "parse_pattern_token (SList vs) =
     and_then (unpack_strings (\<lambda>v. InvalidPattern (lit ''pattern alternative must be a string (got ''
         @ get_type v @ lit '')'')) vs) (\<lambda>tokens.
       case tokens of
         [] \<Rightarrow> Err (InvalidPattern (lit ''pattern alternatives cannot be empty''))
       | [single] \<Rightarrow> Ok (Single single)
       | _ \<Rightarrow> Ok (Alts tokens))"
| "parse_pattern_token v = Err (InvalidPattern (lit ''pattern element must be a string or list of strings (got ''
     @ get_type v @ lit '')''))"

definition parse_pattern :: "svalue list \<Rightarrow> (policy_error, pattern_token list) result" where
  "parse_pattern vs =
     and_then (map_result parse_pattern_token vs) (\<lambda>tokens.
       if tokens = [] then Err (InvalidPattern (lit ''pattern cannot be empty'')) else Ok tokens)"

definition parse_string_example :: "policy_ext \<Rightarrow> rstr \<Rightarrow> (policy_error, rstr list) result" where
  "parse_string_example x raw =
     (case shlex_split x raw of
        None \<Rightarrow> Err (InvalidExample (lit ''example string has invalid shell syntax''))
      | Some tokens \<Rightarrow>
          if tokens = [] then Err (InvalidExample (lit ''example cannot be an empty string'')) else Ok tokens)"

definition parse_list_example :: "svalue list \<Rightarrow> (policy_error, rstr list) result" where
  "parse_list_example vs =
     and_then (unpack_strings (\<lambda>v. InvalidExample (lit ''example tokens must be strings (got ''
         @ get_type v @ lit '')'')) vs) (\<lambda>tokens.
       if tokens = [] then Err (InvalidExample (lit ''example cannot be an empty list'')) else Ok tokens)"

fun parse_example :: "policy_ext \<Rightarrow> svalue \<Rightarrow> (policy_error, rstr list) result" where
  "parse_example x (SStr raw) = parse_string_example x raw"
| "parse_example x (SList vs) = parse_list_example vs"
| "parse_example x v = Err (InvalidExample (lit ''example must be a string or list of strings (got ''
     @ get_type v @ lit '')''))"

definition parse_examples :: "policy_ext \<Rightarrow> svalue list \<Rightarrow> (policy_error, rstr list list) result" where
  "parse_examples x vs = map_result (parse_example x) vs"

definition parse_justification :: "rstr option \<Rightarrow> (policy_error, rstr option) result" where
  "parse_justification j =
     (case j of
        Some raw \<Rightarrow> if trim raw = [] then Err (InvalidRule (lit ''justification cannot be empty'')) else Ok (Some raw)
      | None \<Rightarrow> Ok None)"

definition parse_literal_absolute_path :: "policy_ext \<Rightarrow> path_env \<Rightarrow> rstr \<Rightarrow> (policy_error, rstr) result" where
  "parse_literal_absolute_path x env raw =
     (if \<not> is_absolute raw then Err (InvalidRule (lit ''host_executable paths must be absolute (got '' @ raw @ lit '')''))
      else case from_absolute_path env raw of
             Some path \<Rightarrow> Ok path
           | None \<Rightarrow> Err (InvalidRule (lit ''invalid absolute path `'' @ raw @ lit ''`: '' @ cwd_error x)))"

definition validate_host_executable_name :: "rstr \<Rightarrow> (policy_error, unit) result" where
  "validate_host_executable_name name =
     (if name = [] then Err (InvalidRule (lit ''host_executable name cannot be empty''))
      else if length (components name) \<noteq> 1 \<or> file_name name \<noteq> Some name
      then Err (InvalidRule (lit ''host_executable name must be a bare executable name (got '' @ name @ lit '')''))
      else Ok ())"

definition parse_network_rule_decision :: "rstr \<Rightarrow> (policy_error, decision) result" where
  "parse_network_rule_decision raw = (if raw = lit ''deny'' then Ok Forbidden else decision_parse raw)"

section \<open>The builder\<close>

record pending_example_validation =
  pe_rules :: "prefix_rule list"
  pe_matches :: "rstr list list"
  pe_not_matches :: "rstr list list"
  pe_location :: "error_location option"

record 'm policy_builder =
  pb_rules :: 'm
  pb_network :: "network_rule list"
  pb_hosts :: "rstr \<rightharpoonup> rstr list"
  pb_pending :: "pending_example_validation list"

definition builder_new :: "'m multimap_ops \<Rightarrow> 'm policy_builder" where
  "builder_new ops = \<lparr>pb_rules = mm_new ops, pb_network = [], pb_hosts = Map.empty, pb_pending = []\<rparr>"

definition add_rule :: "'m multimap_ops \<Rightarrow> prefix_rule \<Rightarrow> 'm \<Rightarrow> 'm" where
  "add_rule ops rule m = mm_insert ops (rule_program rule) rule m"

definition builder_build :: "'m policy_builder \<Rightarrow> 'm policy" where
  "builder_build b = from_parts (pb_rules b) (pb_network b) (pb_hosts b)"

definition prefix_rule_call ::
  "'m multimap_ops \<Rightarrow> policy_ext \<Rightarrow> svalue list \<Rightarrow> rstr option \<Rightarrow> svalue list option \<Rightarrow> svalue list option
     \<Rightarrow> rstr option \<Rightarrow> file_span option \<Rightarrow> 'm policy_builder \<Rightarrow> (policy_error, 'm policy_builder) result" where
  "prefix_rule_call ops x pattern d matches not_matches justification fspan b =
     and_then (case d of Some raw \<Rightarrow> decision_parse raw | None \<Rightarrow> Ok Allow) (\<lambda>d.
     and_then (parse_justification justification) (\<lambda>justification.
     and_then (parse_pattern pattern) (\<lambda>pattern_tokens.
     and_then (case matches of Some vs \<Rightarrow> parse_examples x vs | None \<Rightarrow> Ok []) (\<lambda>matches.
     and_then (case not_matches of Some vs \<Rightarrow> parse_examples x vs | None \<Rightarrow> Ok []) (\<lambda>not_matches.
       case pattern_tokens of
         [] \<Rightarrow> Err (InvalidPattern (lit ''pattern cannot be empty''))
       | first_token # rest \<Rightarrow>
           let rules = map (\<lambda>h. \<lparr>rule_pattern = \<lparr>pat_first = h, pat_rest = rest\<rparr>,
                 rule_decision = d, rule_justification = justification\<rparr>) (alternatives first_token)
           in Ok (b\<lparr>pb_pending := pb_pending b @ [\<lparr>pe_rules = rules, pe_matches = matches,
                      pe_not_matches = not_matches, pe_location = map_option error_location_from_file_span fspan\<rparr>],
                    pb_rules := fold (add_rule ops) rules (pb_rules b)\<rparr>))))))"

definition network_rule_call ::
  "rstr \<Rightarrow> rstr \<Rightarrow> rstr \<Rightarrow> rstr option \<Rightarrow> 'm policy_builder \<Rightarrow> (policy_error, 'm policy_builder) result" where
  "network_rule_call host protocol d justification b =
     and_then (protocol_parse protocol) (\<lambda>protocol.
     and_then (parse_network_rule_decision d) (\<lambda>d.
     and_then (parse_justification justification) (\<lambda>justification.
     and_then (normalize_network_rule_host host) (\<lambda>host.
       Ok (b\<lparr>pb_network := pb_network b @ [\<lparr>net_host = host, net_protocol = protocol, net_decision = d,
              net_justification = justification\<rparr>]\<rparr>)))))"

fun parse_host_paths ::
  "policy_ext \<Rightarrow> path_env \<Rightarrow> rstr \<Rightarrow> svalue list \<Rightarrow> rstr list \<Rightarrow> (policy_error, rstr list) result" where
  "parse_host_paths x env name [] parsed = Ok parsed"
| "parse_host_paths x env name (SStr raw # vs) parsed =
     and_then (parse_literal_absolute_path x env raw) (\<lambda>path.
       if executable_path_lookup_key path \<noteq> Some (executable_lookup_key name)
       then Err (InvalidRule (lit ''host_executable path `'' @ raw @ lit ''` must have basename `'' @ name @ lit ''`''))
       else parse_host_paths x env name vs (if path \<in> set parsed then parsed else parsed @ [path]))"
| "parse_host_paths x env name (v # vs) parsed =
     Err (InvalidRule (lit ''host_executable paths must be strings (got '' @ get_type v @ lit '')''))"

definition host_executable_call ::
  "policy_ext \<Rightarrow> path_env \<Rightarrow> rstr \<Rightarrow> svalue list \<Rightarrow> 'm policy_builder \<Rightarrow> (policy_error, 'm policy_builder) result" where
  "host_executable_call x env name paths b =
     and_then (validate_host_executable_name name) (\<lambda>_.
     and_then (parse_host_paths x env name paths []) (\<lambda>parsed.
       Ok (b\<lparr>pb_hosts := (pb_hosts b)(executable_lookup_key name \<mapsto> parsed)\<rparr>)))"

fun builtin_step ::
  "'m multimap_ops \<Rightarrow> policy_ext \<Rightarrow> path_env \<Rightarrow> builtin_call \<Rightarrow> 'm policy_builder \<Rightarrow> (policy_error, 'm policy_builder) result" where
  "builtin_step ops x env (PrefixRuleCall pattern d ms ns j fspan) b = prefix_rule_call ops x pattern d ms ns j fspan b"
| "builtin_step ops x env (NetworkRuleCall host protocol d j) b = network_rule_call host protocol d j b"
| "builtin_step ops x env (HostExecutableCall name paths) b = host_executable_call x env name paths b"

text \<open>The evaluation of a script: the builder keeps what was added before an error.\<close>

fun eval_calls ::
  "'m multimap_ops \<Rightarrow> policy_ext \<Rightarrow> path_env \<Rightarrow> builtin_call list \<Rightarrow> 'm policy_builder
     \<Rightarrow> (policy_error, unit) result \<times> 'm policy_builder" where
  "eval_calls ops x env [] b = (Ok (), b)"
| "eval_calls ops x env (c # cs) b =
     (case builtin_step ops x env c b of Inl e \<Rightarrow> (Err e, b) | Inr b \<Rightarrow> eval_calls ops x env cs b)"

section \<open>Examples\<close>

definition validate_match_examples ::
  "'m multimap_ops \<Rightarrow> path_env \<Rightarrow> 'm policy \<Rightarrow> prefix_rule list \<Rightarrow> rstr list list \<Rightarrow> (parse_failure, unit) result" where
  "validate_match_examples ops env p rules matches =
     (let unmatched = filter (\<lambda>ex. matches_for_command_with_options ops env p ex None True = []) matches
      in if unmatched = [] then Ok () else Err (ExampleDidNotMatch rules unmatched None))"

fun validate_not_match_examples ::
  "'m multimap_ops \<Rightarrow> path_env \<Rightarrow> 'm policy \<Rightarrow> rstr list list \<Rightarrow> (parse_failure, unit) result" where
  "validate_not_match_examples ops env p [] = Ok ()"
| "validate_not_match_examples ops env p (ex # exs) =
     (case matches_for_command_with_options ops env p ex None True of
        m # _ \<Rightarrow> Err (ExampleDidMatch m ex None)
      | [] \<Rightarrow> validate_not_match_examples ops env p exs)"

definition map_failure :: "('e \<Rightarrow> 'f) \<Rightarrow> ('e, 'a) result \<Rightarrow> ('f, 'a) result" where
  "map_failure f r = (case r of Inl e \<Rightarrow> Err (f e) | Inr a \<Rightarrow> Ok a)"

definition validate_pending ::
  "'m multimap_ops \<Rightarrow> path_env \<Rightarrow> (rstr \<rightharpoonup> rstr list) \<Rightarrow> pending_example_validation \<Rightarrow> (parse_failure, unit) result" where
  "validate_pending ops env hosts v =
     (let p = from_parts (fold (add_rule ops) (pe_rules v) (mm_new ops)) [] hosts;
          located = map_failure (\<lambda>e. attach_validation_location e (pe_location v))
      in and_then (located (validate_not_match_examples ops env p (pe_not_matches v))) (\<lambda>_.
           located (validate_match_examples ops env p (pe_rules v) (pe_matches v))))"

fun validate_all ::
  "'m multimap_ops \<Rightarrow> path_env \<Rightarrow> (rstr \<rightharpoonup> rstr list) \<Rightarrow> pending_example_validation list \<Rightarrow> (parse_failure, unit) result" where
  "validate_all ops env hosts [] = Ok ()"
| "validate_all ops env hosts (v # vs) = and_then (validate_pending ops env hosts v) (\<lambda>_. validate_all ops env hosts vs)"

definition validate_pending_examples_from ::
  "'m multimap_ops \<Rightarrow> path_env \<Rightarrow> nat \<Rightarrow> 'm policy_builder \<Rightarrow> (parse_failure, unit) result" where
  "validate_pending_examples_from ops env start b = validate_all ops env (pb_hosts b) (drop start (pb_pending b))"

definition policy_parse ::
  "'m multimap_ops \<Rightarrow> policy_ext \<Rightarrow> path_env \<Rightarrow> rstr \<Rightarrow> rstr \<Rightarrow> 'm policy_builder
     \<Rightarrow> (parse_failure, unit) result \<times> 'm policy_builder" where
  "policy_parse ops x env identifier contents b =
     (let pending_validation_count = length (pb_pending b)
      in case starlark x identifier contents of
           Inl e \<Rightarrow> (Err (StarlarkSyntax e), b)
         | Inr (calls, failure) \<Rightarrow>
             (case eval_calls ops x env calls b of
                (Inl e, b) \<Rightarrow> (Err (BuiltinError e), b)
              | (Inr _, b) \<Rightarrow>
                  (case failure of
                     Some e \<Rightarrow> (Err (StarlarkError e), b)
                   | None \<Rightarrow> (validate_pending_examples_from ops env pending_validation_count b, b))))"

section \<open>Loading files\<close>

datatype load_error = ReadFailed rstr | ParseFailed rstr parse_failure

text \<open>\<open>read_file\<close> is the file system: the text of a file, if it can be read.\<close>

fun load_files ::
  "'m multimap_ops \<Rightarrow> policy_ext \<Rightarrow> path_env \<Rightarrow> (rstr \<Rightarrow> rstr option) \<Rightarrow> rstr list \<Rightarrow> 'm policy_builder
     \<Rightarrow> (load_error, 'm policy_builder) result" where
  "load_files ops x env read_file [] b = Ok b"
| "load_files ops x env read_file (path # paths) b =
     (case read_file path of
        None \<Rightarrow> Err (ReadFailed path)
      | Some contents \<Rightarrow>
          (case policy_parse ops x env path contents b of
             (Inl e, _) \<Rightarrow> Err (ParseFailed path e)
           | (Inr _, b) \<Rightarrow> load_files ops x env read_file paths b))"

definition load_policies ::
  "'m multimap_ops \<Rightarrow> policy_ext \<Rightarrow> path_env \<Rightarrow> (rstr \<Rightarrow> rstr option) \<Rightarrow> rstr list \<Rightarrow> (load_error, 'm policy) result" where
  "load_policies ops x env read_file paths =
     and_then (load_files ops x env read_file paths (builder_new ops)) (\<lambda>b. Ok (builder_build b))"

section \<open>What a script adds\<close>

lemma no_fallback_governing:
  "matches_for_command_with_options ops env p cmd None resolve = [] \<longleftrightarrow> governing ops env p resolve cmd = []"
proof -
  have h: "match_host_executable_rules ops env p cmd = [] \<longleftrightarrow> host_rules ops env p cmd = []"
    using match_host_decisions [of ops env p cmd] by (metis map_is_Nil_conv)
  show ?thesis
  proof (cases "exact_rules ops p cmd = []")
    case True
    with match_exact_decisions [of ops p cmd]
    have "match_exact_rules ops p cmd = None \<or> match_exact_rules ops p cmd = Some []" by (auto split: option.splits)
    with True h show ?thesis
      by (cases "match_host_executable_rules ops env p cmd")
         (auto simp: matches_for_command_with_options_def governing_def)
  next
    case False
    with match_exact_decisions [of ops p cmd] obtain m ms where "match_exact_rules ops p cmd = Some (m # ms)"
      by (auto simp: neq_Nil_conv split: option.splits)
    with False show ?thesis by (simp add: matches_for_command_with_options_def governing_def)
  qed
qed

lemma covers_program: "covers r cmd \<Longrightarrow> \<exists>args. cmd = rule_program r # args"
  by (auto simp: covers_def rule_program_def)

text \<open>A policy with more rules and the same host executables governs at least the same commands.\<close>

lemma governing_more_rules:
  assumes "\<And>k. set (rules_for ops k (rules_by_program p)) \<subseteq> set (rules_for ops k (rules_by_program q))"
    and "host_executables_by_name p = host_executables_by_name q"
    and "governing ops env p resolve cmd \<noteq> []"
  shows "governing ops env q resolve cmd \<noteq> []"
proof -
  have "set (exact_rules ops p cmd) \<subseteq> set (exact_rules ops q cmd)"
    using assms(1) by (auto simp: exact_rules_def split: list.splits)
  moreover have "set (host_rules ops env p cmd) \<subseteq> set (host_rules ops env q cmd)"
    using assms(2) unfolding host_rules_def
    by (simp split: list.split option.split) (use assms(1) in blast)
  ultimately show ?thesis using assms(3) by (auto simp: governing_def split: if_splits)
qed

lemma governing_of_own_rule:
  assumes "r \<in> set (governing ops env q resolve cmd)"
    and "r \<in> set (rules_for ops (rule_program r) (rules_by_program p))"
    and "host_executables_by_name p = host_executables_by_name q"
  shows "governing ops env p resolve cmd \<noteq> []"
proof -
  have "r \<in> set (exact_rules ops p cmd) \<or> r \<in> set (host_rules ops env p cmd) \<and> resolve"
    using assms covers_program [of r]
    by (auto simp: governing_def exact_rules_def host_rules_def split: if_splits list.splits option.splits)
  then show ?thesis by (auto simp: governing_def)
qed

lemma prefix_rule_call_adds:
  assumes "prefix_rule_call ops x pattern d ms ns j fspan b = Ok b'"
  shows "\<exists>v. pb_pending b' = pb_pending b @ [v] \<and> pb_rules b' = fold (add_rule ops) (pe_rules v) (pb_rules b)
    \<and> pb_hosts b' = pb_hosts b \<and> pb_network b' = pb_network b"
proof -
  from assms obtain d' j' tokens ms' ns' where tokens: "tokens \<noteq> []" and
    b': "(case tokens of [] \<Rightarrow> Err (InvalidPattern (lit ''pattern cannot be empty''))
       | first_token # rest \<Rightarrow>
           let rules = map (\<lambda>h. \<lparr>rule_pattern = \<lparr>pat_first = h, pat_rest = rest\<rparr>,
                 rule_decision = d', rule_justification = j'\<rparr>) (alternatives first_token)
           in Ok (b\<lparr>pb_pending := pb_pending b @ [\<lparr>pe_rules = rules, pe_matches = ms',
                      pe_not_matches = ns', pe_location = map_option error_location_from_file_span fspan\<rparr>],
                    pb_rules := fold (add_rule ops) rules (pb_rules b)\<rparr>)) = Ok b'"
    by (auto simp: prefix_rule_call_def and_then_Ok_iff parse_pattern_def split: if_splits)
  then show ?thesis by (cases tokens) (auto simp: Let_def)
qed

context multimap
begin

lemma rules_for_add_rules:
  "rules_for ops k (fold (add_rule ops) rs m) = rules_for ops k m @ filter (\<lambda>r. rule_program r = k) rs"
  by (induction rs arbitrary: m) (auto simp: add_rule_def)

text \<open>A step keeps the rules and the pending examples there are.\<close>

lemma builtin_step_keeps:
  assumes "builtin_step ops x env c b = Ok b'"
  shows "\<exists>vs. pb_pending b' = pb_pending b @ vs
    \<and> (\<forall>v \<in> set vs. \<forall>r \<in> set (pe_rules v). r \<in> set (rules_for ops (rule_program r) (pb_rules b')))
    \<and> (\<forall>k. set (rules_for ops k (pb_rules b)) \<subseteq> set (rules_for ops k (pb_rules b')))"
proof (cases c)
  case (PrefixRuleCall pattern d ms ns j fspan)
  with assms have "prefix_rule_call ops x pattern d ms ns j fspan b = Ok b'" by simp
  from prefix_rule_call_adds [OF this] show ?thesis by (auto simp: rules_for_add_rules)
qed (use assms in \<open>auto simp: network_rule_call_def host_executable_call_def and_then_Ok_iff\<close>)

lemma eval_calls_keeps:
  "eval_calls ops x env cs b = (r0, b') \<Longrightarrow>
    \<exists>vs. pb_pending b' = pb_pending b @ vs
    \<and> (\<forall>v \<in> set vs. \<forall>r \<in> set (pe_rules v). r \<in> set (rules_for ops (rule_program r) (pb_rules b')))
    \<and> (\<forall>k. set (rules_for ops k (pb_rules b)) \<subseteq> set (rules_for ops k (pb_rules b')))"
proof (induction cs arbitrary: b)
  case (Cons c cs)
  show ?case
  proof (cases "builtin_step ops x env c b")
    case (Inr b1)
    with Cons.prems have "eval_calls ops x env cs b1 = (r0, b')" by simp
    from Cons.IH [OF this] builtin_step_keeps [OF Inr] show ?thesis by (elim exE conjE) (simp, blast)
  qed (use Cons.prems in auto)
qed simp

end

lemma alternatives_matches: "t \<in> set (alternatives p) \<longleftrightarrow> token_matches p t"
  by (cases p) (auto simp: list_ex_iff)

text \<open>The rules a call adds cover together exactly the commands its pattern describes.\<close>

lemma prefix_rule_covers_pattern:
  assumes "prefix_rule_call ops x pattern d ms ns j fspan b = Ok b'" and "parse_pattern pattern = Ok tokens"
  shows "(\<exists>r \<in> set (pe_rules (last (pb_pending b'))). covers r cmd)
    \<longleftrightarrow> (\<exists>ts rest. cmd = ts @ rest \<and> list_all2 token_matches tokens ts)"
proof -
  from assms(2) obtain p ps where t: "tokens = p # ps"
    by (cases tokens) (auto simp: parse_pattern_def and_then_Ok_iff split: if_splits)
  with assms obtain d' j' where "pe_rules (last (pb_pending b'))
      = map (\<lambda>h. \<lparr>rule_pattern = \<lparr>pat_first = h, pat_rest = ps\<rparr>, rule_decision = d', rule_justification = j'\<rparr>) (alternatives p)"
    by (auto simp: prefix_rule_call_def and_then_Ok_iff Let_def simp del: map_eq_conv)
  then have "(\<exists>r \<in> set (pe_rules (last (pb_pending b'))). covers r cmd)
      \<longleftrightarrow> (\<exists>h ts rest. token_matches p h \<and> cmd = h # ts @ rest \<and> list_all2 token_matches ps ts)"
    by (simp add: covers_def alternatives_matches flip: alternatives_matches) blast
  also have "\<dots> \<longleftrightarrow> (\<exists>ts rest. cmd = ts @ rest \<and> list_all2 token_matches tokens ts)"
    unfolding t list_all2_Cons1 by (metis append_Cons)
  finally show ?thesis .
qed

lemma parse_literal_absolute_path_canonical:
  "parse_literal_absolute_path x env raw = Ok path \<Longrightarrow> canonical path"
  by (auto simp: parse_literal_absolute_path_def from_absolute_path_def maybe_expand_home_directory_def
      absolutize_def normalize_absolute is_absolute_Cons strip_prefix_def starts_with_def lit_def
      split: if_splits option.splits)

text \<open>The paths of a host executable are canonical, named after it and listed once.\<close>

lemma parse_host_paths_named:
  "parse_host_paths x env name vs parsed = Ok paths \<Longrightarrow> distinct parsed \<Longrightarrow>
    list_all (\<lambda>p. canonical p \<and> file_name p = Some name) parsed \<Longrightarrow>
    distinct paths \<and> list_all (\<lambda>p. canonical p \<and> file_name p = Some name) paths"
proof (induction x env name vs parsed arbitrary: paths rule: parse_host_paths.induct)
  case (2 x env name raw vs parsed)
  then obtain path where path: "parse_literal_absolute_path x env raw = Ok path"
    and key: "executable_path_lookup_key path = Some (executable_lookup_key name)"
    and rest: "parse_host_paths x env name vs (if path \<in> set parsed then parsed else parsed @ [path]) = Ok paths"
    by (auto simp: and_then_Ok_iff split: if_splits)
  have "canonical path \<and> file_name path = Some name"
    using parse_literal_absolute_path_canonical [OF path] key
    by (auto simp: executable_path_lookup_key_def executable_lookup_key_def)
  with 2(1) [of path paths] path key rest 2(3,4) show ?case by (auto split: if_splits)
qed auto

section \<open>What validated examples guarantee\<close>

lemma validate_match_examples_Ok:
  "validate_match_examples ops env p rules ms = Ok () \<longleftrightarrow> (\<forall>ex \<in> set ms. governing ops env p True ex \<noteq> [])"
  by (auto simp: validate_match_examples_def Let_def filter_empty_conv no_fallback_governing)

lemma validate_not_match_examples_Ok:
  "validate_not_match_examples ops env p ns = Ok () \<longleftrightarrow> (\<forall>ex \<in> set ns. governing ops env p True ex = [])"
proof (induction ns)
  case (Cons ex ns)
  then show ?case using no_fallback_governing [of ops env p ex True]
    by (cases "matches_for_command_with_options ops env p ex None True") auto
qed simp

lemma map_failure_Ok [simp]: "map_failure f r = Ok a \<longleftrightarrow> r = Ok a"
  by (cases r) (auto simp: map_failure_def)

lemma validate_pending_Ok:
  "validate_pending ops env hosts v = Ok () \<longleftrightarrow>
    (\<forall>ex \<in> set (pe_matches v). governing ops env (from_parts (fold (add_rule ops) (pe_rules v) (mm_new ops)) [] hosts) True ex \<noteq> [])
    \<and> (\<forall>ex \<in> set (pe_not_matches v). governing ops env (from_parts (fold (add_rule ops) (pe_rules v) (mm_new ops)) [] hosts) True ex = [])"
  unfolding validate_pending_def Let_def
  by (auto simp: and_then_Ok_iff validate_match_examples_Ok validate_not_match_examples_Ok)

lemma validate_all_Ok: "validate_all ops env hosts vs = Ok () \<longleftrightarrow> (\<forall>v \<in> set vs. validate_pending ops env hosts v = Ok ())"
  by (induction vs) (auto simp: and_then_Ok_iff)

lemma policy_parse_Ok:
  "policy_parse ops x env identifier contents b0 = (Ok (), b) \<longleftrightarrow>
    (\<exists>calls. starlark x identifier contents = Ok (calls, None) \<and> eval_calls ops x env calls b0 = (Ok (), b)
      \<and> validate_pending_examples_from ops env (length (pb_pending b0)) b = Ok ())"
  by (auto simp: policy_parse_def Let_def split: sum.splits option.splits prod.splits)

lemma builder_build_fields [simp]:
  "rules_by_program (builder_build b) = pb_rules b" "host_executables_by_name (builder_build b) = pb_hosts b"
  by (simp_all add: builder_build_def from_parts_def)

context multimap
begin

lemma parsed_examples:
  assumes "policy_parse ops x env identifier contents b0 = (Ok (), b)"
    and "v \<in> set (drop (length (pb_pending b0)) (pb_pending b))"
  shows "\<forall>ex \<in> set (pe_matches v). governing ops env (builder_build b) True ex \<noteq> []"
    and "\<forall>ex \<in> set (pe_not_matches v). set (pe_rules v) \<inter> set (governing ops env (builder_build b) True ex) = {}"
proof -
  let ?own = "from_parts (fold (add_rule ops) (pe_rules v) (mm_new ops)) [] (pb_hosts b)"
  from assms(1) obtain calls where calls: "eval_calls ops x env calls b0 = (Ok (), b)"
    and valid: "validate_pending_examples_from ops env (length (pb_pending b0)) b = Ok ()"
    unfolding policy_parse_Ok by blast
  from eval_calls_keeps [OF calls] assms(2)
  have mem: "\<forall>r \<in> set (pe_rules v). r \<in> set (rules_for ops (rule_program r) (pb_rules b))" by auto
  have v: "validate_pending ops env (pb_hosts b) v = Ok ()"
    using valid assms(2) by (simp add: validate_pending_examples_from_def validate_all_Ok)
  have own: "rules_for ops k (rules_by_program ?own) = filter (\<lambda>r. rule_program r = k) (pe_rules v)" for k
    by (simp add: from_parts_def rules_for_add_rules)
  have hosts: "host_executables_by_name ?own = host_executables_by_name (builder_build b)"
    by (simp add: from_parts_def)
  show "\<forall>ex \<in> set (pe_matches v). governing ops env (builder_build b) True ex \<noteq> []"
  proof
    fix ex assume "ex \<in> set (pe_matches v)"
    with v have "governing ops env ?own True ex \<noteq> []" by (simp add: validate_pending_Ok)
    moreover have "set (rules_for ops k (rules_by_program ?own)) \<subseteq> set (rules_for ops k (rules_by_program (builder_build b)))" for k
      using mem by (auto simp: own)
    ultimately show "governing ops env (builder_build b) True ex \<noteq> []" using governing_more_rules hosts by blast
  qed
  show "\<forall>ex \<in> set (pe_not_matches v). set (pe_rules v) \<inter> set (governing ops env (builder_build b) True ex) = {}"
    using v by (auto simp: validate_pending_Ok own dest: governing_of_own_rule [OF _ _ hosts])
qed

end

lemma is_match_check:
  "(\<exists>ev. check_with_options ops env p cmd f resolve = Some ev \<and> is_match ev) \<longleftrightarrow> governing ops env p resolve cmd \<noteq> []"
proof -
  have "is_match ev \<longleftrightarrow> list_ex from_rule (matched_rules ev)" for ev
    by (simp add: is_match_def from_rule_def [abs_def])
  then show ?thesis using is_match_governing [of ops env p cmd f resolve] by (simp add: policy_decision)
qed

text \<open>
  C22. When a rules file is accepted, the examples it gives hold in the policy that is built, with
  all the other rules of this and of earlier files in it: every \<open>match\<close> example is matched by a rule
  when host executables are resolved, and for every \<open>not_match\<close> example none of the rules of its
  call is among the rules that decide about it.
\<close>

theorem policy_examples_honoured:
  assumes "multimap ops" and "policy_parse ops x env identifier contents b0 = (Ok (), b)"
    and "v \<in> set (drop (length (pb_pending b0)) (pb_pending b))"
  shows "(\<forall>ex \<in> set (pe_matches v). \<exists>ev. check_with_options ops env (builder_build b) ex f True = Some ev \<and> is_match ev)
    \<and> (\<forall>ex \<in> set (pe_not_matches v). set (pe_rules v) \<inter> set (governing ops env (builder_build b) True ex) = {})"
  using multimap.parsed_examples [OF assms] by (simp add: is_match_check)

text \<open>
  A file with one rule for \<open>git push\<close> and \<open>git fetch\<close> and one example of each kind, given as a string
  and as a list; \<open>shlex\<close> splits plain words at blanks.
\<close>

definition call_sample :: builtin_call where
  "call_sample = PrefixRuleCall [SStr (lit ''git''), SList [SStr (lit ''push''), SStr (lit ''fetch'')]]
     (Some (lit ''prompt'')) (Some [SStr (lit ''git push'')]) (Some [SList [SStr (lit ''git''), SStr (lit ''log'')]]) None None"

definition ext_sample :: policy_ext where
  "ext_sample = \<lparr>starlark = (\<lambda>_ _. Ok ([call_sample], None)), shlex_split = (\<lambda>s. Some (split_on 32 s)),
     cwd_error = lit ''no such directory''\<rparr>"

definition git_rule_sample :: prefix_rule where
  "git_rule_sample = \<lparr>rule_pattern = \<lparr>pat_first = lit ''git'', pat_rest = [Alts [lit ''push'', lit ''fetch'']]\<rparr>,
     rule_decision = Prompt, rule_justification = None\<rparr>"

definition pending_sample :: pending_example_validation where
  "pending_sample = \<lparr>pe_rules = [git_rule_sample], pe_matches = [[lit ''git'', lit ''push'']],
     pe_not_matches = [[lit ''git'', lit ''log'']], pe_location = None\<rparr>"

definition builder_sample :: "(rstr, prefix_rule list) alist policy_builder" where
  "builder_sample = \<lparr>pb_rules = add_rule alist_ops git_rule_sample (mm_new alist_ops), pb_network = [],
     pb_hosts = Map.empty, pb_pending = [pending_sample]\<rparr>"

lemma sample_step: "builtin_step alist_ops ext_sample env call_sample (builder_new alist_ops) = Ok builder_sample"
proof -
  have "decision_parse (lit ''prompt'') = Ok Prompt" "split_on 32 (lit ''git push'') = [lit ''git'', lit ''push'']"
    by code_simp+
  then show ?thesis
    by (simp add: call_sample_def prefix_rule_call_def parse_justification_def parse_pattern_def parse_examples_def
        parse_string_example_def parse_list_example_def ext_sample_def builder_new_def builder_sample_def
        pending_sample_def git_rule_sample_def)
qed

lemma git_rule_sample_covers:
  "covers git_rule_sample [lit ''git'', lit ''push'']" "\<not> covers git_rule_sample [c, lit ''log'']"
proof -
  have "lit ''log'' \<noteq> lit ''push''" "lit ''log'' \<noteq> lit ''fetch''" by code_simp+
  then show "covers git_rule_sample [lit ''git'', lit ''push'']" "\<not> covers git_rule_sample [c, lit ''log'']"
    by (auto simp: covers_def git_rule_sample_def list_all2_Cons1)
qed

lemma sample_valid: "validate_pending_examples_from alist_ops env 0 builder_sample = Ok ()"
proof -
  have "rule_program git_rule_sample = lit ''git''" by (simp add: rule_program_def git_rule_sample_def)
  then show ?thesis
    using git_rule_sample_covers
    by (auto simp: validate_pending_examples_from_def builder_sample_def and_then_Ok_iff validate_pending_Ok
        pending_sample_def governing_def exact_rules_def host_rules_def from_parts_def add_rule_def
        split: option.split)
qed

theorem policy_examples_honoured_witness:
  "(\<exists>ev. check_with_options alist_ops env_sample (builder_build builder_sample) [lit ''git'', lit ''push''] (\<lambda>_. Allow) True
      = Some ev \<and> is_match ev)
    \<and> git_rule_sample \<notin> set (governing alist_ops env_sample (builder_build builder_sample) True [lit ''git'', lit ''log''])"
proof -
  have "policy_parse alist_ops ext_sample env_sample (lit ''default.rules'') [] (builder_new alist_ops) = (Ok (), builder_sample)"
    unfolding policy_parse_Ok using sample_step sample_valid
    by (auto simp: ext_sample_def builder_new_def)
  moreover have "pending_sample \<in> set (drop (length (pb_pending (builder_new alist_ops))) (pb_pending builder_sample))"
    by (simp add: builder_sample_def builder_new_def)
  ultimately show ?thesis
    using policy_examples_honoured [OF alist.multimap_axioms, of ext_sample env_sample "lit ''default.rules''" "[]"
        "builder_new alist_ops" builder_sample pending_sample "\<lambda>_. Allow"]
    by (simp add: pending_sample_def)
qed

end
