(* ===== verification/Policy_Amend.thy ===== *)
theory Policy_Amend
  imports Policy_Parse
begin

text \<open>
  Adding a rule to a rules file (codex-rs/execpolicy/src/amend.rs), as a function from the text of
  the file, empty if there is none, to its text afterwards; that the file and its directory can be
  created, locked, read and written is taken for granted. \<open>quote\<close> is \<open>serde_json::to_string\<close> on
  strings, which does not fail there.
\<close>

datatype amend_error = EmptyPrefix | InvalidNetworkRule policy_error

definition append_locked_line :: "rstr \<Rightarrow> rstr \<Rightarrow> rstr" where
  "append_locked_line contents line =
     (if list_ex (\<lambda>existing. existing = line) (lines contents) then contents
      else contents @ (if contents \<noteq> [] \<and> \<not> ends_with contents [nl] then [nl] else []) @ line @ [nl])"

definition prefix_rule_line :: "(rstr \<Rightarrow> rstr) \<Rightarrow> rstr list \<Rightarrow> rstr" where
  "prefix_rule_line quote pfx =
     lit ''prefix_rule(pattern=['' @ join (lit '', '') (map quote pfx) @ lit ''], decision='' @ [34] @ lit ''allow'' @ [34] @ lit '')''"

definition blocking_append_allow_prefix_rule ::
  "(rstr \<Rightarrow> rstr) \<Rightarrow> rstr list \<Rightarrow> rstr \<Rightarrow> (amend_error, rstr) result" where
  "blocking_append_allow_prefix_rule quote pfx contents =
     (if pfx = [] then Err EmptyPrefix else Ok (append_locked_line contents (prefix_rule_line quote pfx)))"

definition network_rule_line ::
  "(rstr \<Rightarrow> rstr) \<Rightarrow> rstr \<Rightarrow> network_rule_protocol \<Rightarrow> decision \<Rightarrow> rstr option \<Rightarrow> rstr" where
  "network_rule_line quote host protocol d justification =
     (let args = [lit ''host='' @ quote host,
            lit ''protocol='' @ quote (as_policy_string protocol),
            lit ''decision='' @ quote (case d of Allow \<Rightarrow> lit ''allow'' | Prompt \<Rightarrow> lit ''prompt'' | Forbidden \<Rightarrow> lit ''deny'')]
          @ (case justification of Some j \<Rightarrow> [lit ''justification='' @ quote j] | None \<Rightarrow> [])
      in lit ''network_rule('' @ join (lit '', '') args @ lit '')'')"

definition blocking_append_network_rule ::
  "(rstr \<Rightarrow> rstr) \<Rightarrow> rstr \<Rightarrow> network_rule_protocol \<Rightarrow> decision \<Rightarrow> rstr option \<Rightarrow> rstr \<Rightarrow> (amend_error, rstr) result" where
  "blocking_append_network_rule quote host protocol d justification contents =
     (case normalize_network_rule_host host of
        Inl e \<Rightarrow> Err (InvalidNetworkRule e)
      | Inr host \<Rightarrow>
          if pred_option (\<lambda>raw. trim raw \<noteq> []) justification
          then Ok (append_locked_line contents (network_rule_line quote host protocol d justification))
          else Err (InvalidNetworkRule (InvalidRule (lit ''justification cannot be empty''))))"

section \<open>The lines of an amended file\<close>

lemma split_on_append_sep_split: "split_on d (s @ d # t) = split_on d s @ split_on d t"
proof (induction s)
  case (Cons c s)
  obtain l ls where "split_on d s = l # ls" using split_on_nonempty by blast
  with Cons show ?case by simp
qed simp

lemma ends_with_snoc [simp]: "ends_with (s @ [c]) [d] \<longleftrightarrow> c = d"
  by (auto simp: ends_with_def)

lemma ends_with_last: "ends_with s [d] \<longleftrightarrow> s \<noteq> [] \<and> last s = d"
  by (cases s rule: rev_cases) (auto simp: ends_with_def)

lemma strip_cr_id: "\<not> ends_with l [cr] \<Longrightarrow> strip_cr l = l"
  by (simp add: strip_cr_def strip_suffix_def)

lemma last_split_on_snoc: "c \<noteq> d \<Longrightarrow> \<exists>l. last (split_on d (s @ [c])) = l @ [c]"
proof (induction s)
  case (Cons a s)
  obtain l ls where s: "split_on d (s @ [c]) = l # ls" using split_on_nonempty by blast
  show ?case
  proof (cases "ls = []")
    case True
    with Cons s obtain l' where "l = l' @ [c]" by auto
    with s True show ?thesis by auto
  qed (use Cons s in auto)
qed simp

lemma lines_snoc_nl: "lines (s @ [nl]) = map strip_cr (split_on nl s)"
  using split_on_append_sep_split [of nl s "[]"] by (simp add: lines_def)

lemma lines_append_line:
  assumes "nl \<notin> set line" "\<not> ends_with line [cr]" "\<not> ends_with contents [cr]"
  shows "lines (append_locked_line contents line)
    = lines contents @ (if line \<in> set (lines contents) then [] else [line])"
proof (cases "line \<in> set (lines contents)")
  case False
  have line: "map strip_cr (split_on nl line) = [line]" using assms(1,2) by (simp add: split_on_single strip_cr_id)
  show ?thesis
  proof (cases contents rule: rev_cases)
    case Nil
    then show ?thesis using False line lines_snoc_nl [of line]
      by (simp add: append_locked_line_def list_ex_iff) (simp add: lines_def)
  next
    case (snoc s c)
    let ?s = "if c = nl then s else contents"
    have "append_locked_line contents line = (?s @ nl # line) @ [nl]"
      using False snoc by (auto simp: append_locked_line_def list_ex_iff)
    then have after: "lines (append_locked_line contents line) = map strip_cr (split_on nl ?s) @ [line]"
      using line by (simp only: lines_snoc_nl split_on_append_sep_split map_append)
    have "lines contents = map strip_cr (split_on nl ?s)"
    proof (cases "c = nl")
      case False
      from last_split_on_snoc [OF this, of s] snoc obtain l where l: "last (split_on nl contents) = l @ [c]" by auto
      then have "strip_cr (last (split_on nl contents)) = last (split_on nl contents)"
        using assms(3) snoc by (simp add: strip_cr_id)
      with l False show ?thesis
        by (simp add: lines_def flip: map_append) (metis append_butlast_last_id list.simps(8,9) map_append split_on_neq_Nil)
    qed (use snoc lines_snoc_nl in simp)
    with after False show ?thesis by simp
  qed
qed (simp add: append_locked_line_def list_ex_iff)

lemma nl_join: "nl \<notin> set sep \<Longrightarrow> \<forall>x \<in> set xs. nl \<notin> set x \<Longrightarrow> nl \<notin> set (join sep xs)"
  by (induction sep xs rule: join.induct) auto

lemma rule_line_ok:
  assumes "\<And>s. nl \<notin> set (quote s)"
  shows "nl \<notin> set (prefix_rule_line quote pfx)" "\<not> ends_with (prefix_rule_line quote pfx) [cr]"
    and "nl \<notin> set (network_rule_line quote host protocol d j)" "\<not> ends_with (network_rule_line quote host protocol d j) [cr]"
proof -
  have sep: "nl \<notin> set (lit '', '')" by (simp add: lit_def)
  show "nl \<notin> set (prefix_rule_line quote pfx)" "\<not> ends_with (prefix_rule_line quote pfx) [cr]"
    using assms nl_join [OF sep, of "map quote pfx"] by (auto simp: prefix_rule_line_def lit_def ends_with_last)
  show "nl \<notin> set (network_rule_line quote host protocol d j)" "\<not> ends_with (network_rule_line quote host protocol d j) [cr]"
    using assms by (auto simp: network_rule_line_def Let_def lit_def ends_with_last split: option.split)
qed

text \<open>
  Amending keeps every line of the file and adds the rule at the end, on a line of its own, unless
  it is there already; doing it again changes nothing.
\<close>

lemma amended_file_lists_rule:
  assumes quote: "\<And>s. nl \<notin> set (quote s)" and "\<not> ends_with contents [cr]"
  shows "blocking_append_allow_prefix_rule quote pfx contents = Ok contents' \<Longrightarrow>
      lines contents' = lines contents
        @ (if prefix_rule_line quote pfx \<in> set (lines contents) then [] else [prefix_rule_line quote pfx])
      \<and> blocking_append_allow_prefix_rule quote pfx contents' = Ok contents'"
    and "blocking_append_network_rule quote host protocol d j contents = Ok contents' \<Longrightarrow>
      (\<exists>h. normalize_network_rule_host host = Ok h
        \<and> lines contents' = lines contents @ (if network_rule_line quote h protocol d j \<in> set (lines contents) then []
             else [network_rule_line quote h protocol d j]))
      \<and> blocking_append_network_rule quote host protocol d j contents' = Ok contents'"
proof -
  have twice: "append_locked_line (append_locked_line contents line) line = append_locked_line contents line"
    if "nl \<notin> set line" "\<not> ends_with line [cr]" for line
    using lines_append_line [OF that assms(2)]
    by (simp add: append_locked_line_def [of "append_locked_line contents line"] list_ex_iff)
  note ok = rule_line_ok [OF quote]
  show "blocking_append_allow_prefix_rule quote pfx contents = Ok contents' \<Longrightarrow>
      lines contents' = lines contents
        @ (if prefix_rule_line quote pfx \<in> set (lines contents) then [] else [prefix_rule_line quote pfx])
      \<and> blocking_append_allow_prefix_rule quote pfx contents' = Ok contents'"
    using lines_append_line [OF ok(1,2) assms(2)] twice [OF ok(1,2)]
    by (auto simp: blocking_append_allow_prefix_rule_def split: if_splits)
  show "blocking_append_network_rule quote host protocol d j contents = Ok contents' \<Longrightarrow>
      (\<exists>h. normalize_network_rule_host host = Ok h
        \<and> lines contents' = lines contents @ (if network_rule_line quote h protocol d j \<in> set (lines contents) then []
             else [network_rule_line quote h protocol d j]))
      \<and> blocking_append_network_rule quote host protocol d j contents' = Ok contents'"
    using lines_append_line [OF ok(3,4) assms(2)] twice [OF ok(3,4)]
    by (auto simp: blocking_append_network_rule_def split: if_splits sum.splits)
qed

end
