(* ===== verification/Text_Truncate.thy ===== *)
theory Text_Truncate
  imports Protocol
begin

text \<open>
  Middle truncation of tool output: utils/string/src/truncate.rs (byte budgets, prefix and suffix
  on char boundaries, marker), \<open>TruncationPolicy\<close> (protocol/src/protocol.rs) and
  utils/output-truncation/src/lib.rs. Byte positions are kept as in the code: a slice at a position
  that is no char boundary is a panic, here \<open>None\<close>, and the theorem shows that none occurs.
\<close>

definition APPROX_BYTES_PER_TOKEN :: nat where "APPROX_BYTES_PER_TOKEN = 4"

definition approx_bytes_for_tokens :: "nat \<Rightarrow> nat" where
  "approx_bytes_for_tokens tokens = saturating_mul tokens APPROX_BYTES_PER_TOKEN"

definition approx_tokens_from_byte_count :: "nat \<Rightarrow> nat" where
  "approx_tokens_from_byte_count bytes =
     saturating_add bytes (APPROX_BYTES_PER_TOKEN - 1) div APPROX_BYTES_PER_TOKEN"

definition approx_token_count :: "rstr \<Rightarrow> nat" where
  "approx_token_count text =
     saturating_add (len text) (APPROX_BYTES_PER_TOKEN - 1) div APPROX_BYTES_PER_TOKEN"

text \<open>\<open>str::split_at\<close>: both slices at a byte position, a panic off the char boundaries.\<close>

fun split_at :: "nat \<Rightarrow> rstr \<Rightarrow> (rstr \<times> rstr) option" where
  "split_at n s =
     (if n = 0 then Some ([], s)
      else case s of [] \<Rightarrow> None
        | c # r \<Rightarrow> if len_utf8 c \<le> n then map_option (\<lambda>(a, b). (c # a, b)) (split_at (n - len_utf8 c) r) else None)"

declare split_at.simps [simp del]

text \<open>
  The loop of \<open>split_string\<close> over \<open>char_indices\<close>, with its mutable variables \<open>prefix_end\<close>,
  \<open>suffix_start\<close>, \<open>removed_chars\<close> and \<open>suffix_started\<close>.
\<close>

fun split_loop :: "nat \<Rightarrow> nat \<Rightarrow> nat \<Rightarrow> rstr \<Rightarrow> nat \<times> nat \<times> nat \<times> bool \<Rightarrow> nat \<times> nat \<times> nat \<times> bool" where
  "split_loop beginning target idx [] st = st"
| "split_loop beginning target idx (c # s) (pe, ss, removed, started) =
     (let char_end = idx + len_utf8 c
      in split_loop beginning target char_end s
           (if char_end \<le> beginning then (char_end, ss, removed, started)
            else if target \<le> idx then (pe, if started then ss else idx, removed, True)
            else (pe, ss, saturating_add removed 1, started)))"

definition split_string :: "rstr \<Rightarrow> nat \<Rightarrow> nat \<Rightarrow> (nat \<times> rstr \<times> rstr) option" where
  "split_string s beginning_bytes end_bytes =
     (if s = [] then Some (0, [], [])
      else case split_loop beginning_bytes (len s - end_bytes) 0 s (0, len s, 0, False) of
        (pe, ss, removed, _) \<Rightarrow>
          let ss = (if ss < pe then pe else ss)
          in Option.bind (split_at pe s) (\<lambda>(before, _).
               map_option (\<lambda>(_, after). (removed, before, after)) (split_at ss s)))"

definition split_budget :: "nat \<Rightarrow> nat \<times> nat" where
  "split_budget budget = (let left = budget div 2 in (left, budget - left))"

definition ellipsis :: rstr where "ellipsis = [8230]"

definition format_truncation_marker :: "bool \<Rightarrow> nat \<Rightarrow> rstr" where
  "format_truncation_marker use_tokens removed =
     ellipsis @ show_nat removed @ lit (if use_tokens then '' tokens truncated'' else '' chars truncated'') @ ellipsis"

definition removed_units :: "bool \<Rightarrow> nat \<Rightarrow> nat \<Rightarrow> nat" where
  "removed_units use_tokens removed_bytes removed_chars =
     (if use_tokens then approx_tokens_from_byte_count removed_bytes else removed_chars)"

definition truncate_with_byte_estimate :: "rstr \<Rightarrow> nat \<Rightarrow> bool \<Rightarrow> rstr option" where
  "truncate_with_byte_estimate s max_bytes use_tokens =
     (if s = [] then Some []
      else if max_bytes = 0
      then Some (format_truncation_marker use_tokens (removed_units use_tokens (len s) (length s)))
      else if len s \<le> max_bytes then Some s
      else case split_budget max_bytes of (left_budget, right_budget) \<Rightarrow>
        map_option (\<lambda>(removed_chars, left, right).
            left @ format_truncation_marker use_tokens
                     (removed_units use_tokens (len s - max_bytes) removed_chars) @ right)
          (split_string s left_budget right_budget))"

definition truncate_middle_chars :: "rstr \<Rightarrow> nat \<Rightarrow> rstr option" where
  "truncate_middle_chars s max_bytes = truncate_with_byte_estimate s max_bytes False"

definition truncate_middle_with_token_budget :: "rstr \<Rightarrow> nat \<Rightarrow> (rstr \<times> nat option) option" where
  "truncate_middle_with_token_budget s max_tokens =
     (if s = [] then Some ([], None)
      else if 0 < max_tokens \<and> len s \<le> approx_bytes_for_tokens max_tokens then Some (s, None)
      else map_option (\<lambda>truncated. if truncated = s then (truncated, None)
                                   else (truncated, Some (approx_token_count s)))
             (truncate_with_byte_estimate s (approx_bytes_for_tokens max_tokens) True))"

datatype truncation_policy = Bytes nat | Tokens nat

fun token_budget :: "truncation_policy \<Rightarrow> nat" where
  "token_budget (Bytes bytes) = approx_tokens_from_byte_count bytes"
| "token_budget (Tokens tokens) = tokens"

fun byte_budget :: "truncation_policy \<Rightarrow> nat" where
  "byte_budget (Bytes bytes) = bytes"
| "byte_budget (Tokens tokens) = approx_bytes_for_tokens tokens"

fun truncate_text :: "rstr \<Rightarrow> truncation_policy \<Rightarrow> rstr option" where
  "truncate_text content (Bytes bytes) = truncate_middle_chars content bytes"
| "truncate_text content (Tokens tokens) = map_option fst (truncate_middle_with_token_budget content tokens)"

definition formatted_truncate_text :: "rstr \<Rightarrow> truncation_policy \<Rightarrow> rstr option" where
  "formatted_truncate_text content policy =
     (if len content \<le> byte_budget policy then Some content
      else map_option (\<lambda>result.
          lit ''Warning: truncated output (original token count: '' @ show_nat (approx_token_count content) @ lit '')''
            @ [nl] @ lit ''Total output lines: '' @ show_nat (length (lines content)) @ [nl, nl] @ result)
        (truncate_text content policy))"

fun text_segment_of :: "function_call_output_content_item \<Rightarrow> rstr option" where
  "text_segment_of (FcoInputText text) = Some text"
| "text_segment_of _ = None"

definition formatted_truncate_text_content_items_with_policy ::
    "function_call_output_content_item list \<Rightarrow> truncation_policy
      \<Rightarrow> (function_call_output_content_item list \<times> nat option) option" where
  "formatted_truncate_text_content_items_with_policy items policy =
     (let text_segments = List.map_filter text_segment_of items;
          combined = fold (\<lambda>text acc. (if acc = [] then acc else acc @ [nl]) @ text) text_segments []
      in if text_segments = [] \<or> len combined \<le> byte_budget policy then Some (items, None)
         else map_option (\<lambda>text. (FcoInputText text # filter (\<lambda>i. text_segment_of i = None) items,
                                  Some (approx_token_count combined)))
                (formatted_truncate_text combined policy))"

text \<open>
  \<open>truncate_function_output_items_with_policy\<close>: the loop carries the output so far, the remaining
  budget and the number of omitted texts.
\<close>

fun item_cost :: "truncation_policy \<Rightarrow> rstr \<Rightarrow> nat" where
  "item_cost (Bytes _) text = len text"
| "item_cost (Tokens _) text = approx_token_count text"

fun snippet_policy :: "truncation_policy \<Rightarrow> nat \<Rightarrow> truncation_policy" where
  "snippet_policy (Bytes _) remaining = Bytes remaining"
| "snippet_policy (Tokens _) remaining = Tokens remaining"

fun truncate_items :: "truncation_policy \<Rightarrow> function_call_output_content_item list \<Rightarrow> nat \<Rightarrow> nat
    \<Rightarrow> (function_call_output_content_item list \<times> nat) option" where
  "truncate_items policy [] remaining omitted = Some ([], omitted)"
| "truncate_items policy (FcoInputText text # items) remaining omitted =
     (if remaining = 0 then truncate_items policy items remaining (omitted + 1)
      else if item_cost policy text \<le> remaining
      then map_option (map_prod ((#) (FcoInputText text)) id)
             (truncate_items policy items (remaining - item_cost policy text) omitted)
      else Option.bind (truncate_text text (snippet_policy policy remaining)) (\<lambda>snippet.
             if snippet = [] then truncate_items policy items 0 (omitted + 1)
             else map_option (map_prod ((#) (FcoInputText snippet)) id) (truncate_items policy items 0 omitted)))"
| "truncate_items policy (item # items) remaining omitted =
     map_option (map_prod ((#) item) id) (truncate_items policy items remaining omitted)"

definition truncate_function_output_items_with_policy ::
    "function_call_output_content_item list \<Rightarrow> truncation_policy \<Rightarrow> function_call_output_content_item list option" where
  "truncate_function_output_items_with_policy items policy =
     map_option (\<lambda>(out, omitted).
         if 0 < omitted
         then out @ [FcoInputText (lit ''[omitted '' @ show_nat omitted @ lit '' text items ...]'')]
         else out)
       (truncate_items policy items
          (case policy of Bytes _ \<Rightarrow> byte_budget policy | Tokens _ \<Rightarrow> token_budget policy) 0)"

text \<open>
  The scaling of a policy by 1.2 in \<open>f64\<close>: \<open>f64_round\<close> rounds an integer to 53 significant bits,
  ties to even; 1.2 is the double 5404319552844595 / 2^52, and a product is the rounded exact product.
\<close>

fun bit_len :: "nat \<Rightarrow> nat" where
  "bit_len n = (if n = 0 then 0 else Suc (bit_len (n div 2)))"

declare bit_len.simps [simp del]

definition f64_round :: "nat \<Rightarrow> nat" where
  "f64_round n =
     (let e = bit_len n - 53; q = n div 2 ^ e; r = n mod 2 ^ e
      in (if 2 ^ e < 2 * r \<or> (2 ^ e = 2 * r \<and> odd q) then q + 1 else q) * 2 ^ e)"

definition scale_budget :: "nat \<Rightarrow> nat" where
  "scale_budget n = min ((f64_round (f64_round n * 5404319552844595) + (2 ^ 52 - 1)) div 2 ^ 52) USIZE_MAX"

fun policy_with_serialization_budget :: "truncation_policy \<Rightarrow> truncation_policy" where
  "policy_with_serialization_budget (Bytes bytes) = Bytes (scale_budget bytes)"
| "policy_with_serialization_budget (Tokens tokens) = Tokens (scale_budget tokens)"

lemma split_at_append: "split_at (len a) (a @ b) = Some (a, b)"
  by (induction a) (simp_all add: split_at.simps [of _ "_ # _"] split_at.simps [of 0])

lemma split_loop_suffix:
  "s \<noteq> [] \<longrightarrow> b < idx + len_utf8 (hd s) \<and> t \<le> idx \<Longrightarrow>
    split_loop b t idx s (pe, ss, rm, started) = (pe, if started \<or> s = [] then ss else idx, rm, started \<or> s \<noteq> [])"
proof (induction s arbitrary: idx ss started)
  case (Cons c s)
  then have "b < idx + len_utf8 c" "t \<le> idx" by auto
  moreover from this have "s \<noteq> [] \<longrightarrow> b < idx + len_utf8 c + len_utf8 (hd s) \<and> t \<le> idx + len_utf8 c" by simp
  ultimately show ?case using Cons.IH [of "idx + len_utf8 c"] by (simp add: Let_def)
qed simp

lemma split_loop_middle:
  assumes "s \<noteq> [] \<longrightarrow> b < idx + len_utf8 (hd s)" and "rm + length s \<le> USIZE_MAX"
  obtains mid right where "s = mid @ right"
    "split_loop b t idx s (pe, ss, rm, False)
      = (pe, if right = [] then ss else idx + len mid, rm + length mid, right \<noteq> [])"
    "mid \<noteq> [] \<longrightarrow> idx + len (butlast mid) < t" "right \<noteq> [] \<longrightarrow> t \<le> idx + len mid"
  using assms
proof (induction s arbitrary: idx rm thesis)
  case (Cons c s)
  show ?case
  proof (cases "t \<le> idx")
    case True
    with Cons.prems show ?thesis
      by (intro Cons.prems(1) [of "[]" "c # s"]) (simp_all add: split_loop_suffix)
  next
    case False
    from Cons.prems have "s \<noteq> [] \<longrightarrow> b < idx + len_utf8 c + len_utf8 (hd s)" "Suc rm + length s \<le> USIZE_MAX"
      by auto
    from Cons.IH [OF _ this] obtain mid right where ih: "s = mid @ right"
      "split_loop b t (idx + len_utf8 c) s (pe, ss, Suc rm, False)
        = (pe, if right = [] then ss else idx + len_utf8 c + len mid, Suc rm + length mid, right \<noteq> [])"
      "mid \<noteq> [] \<longrightarrow> idx + len_utf8 c + len (butlast mid) < t" "right \<noteq> [] \<longrightarrow> t \<le> idx + len_utf8 c + len mid"
      by blast
    with Cons.prems False show ?thesis
      by (intro Cons.prems(1) [of "c # mid" right]) (auto simp: Let_def saturating_add_def min_def add.assoc)
  qed
qed simp

lemma split_loop_parts:
  assumes "idx \<le> b" and "rm + length s \<le> USIZE_MAX"
  obtains left mid right where "s = left @ mid @ right"
    "split_loop b t idx s (idx, ss, rm, False)
      = (idx + len left, if right = [] then ss else idx + len left + len mid, rm + length mid, right \<noteq> [])"
    "idx + len left \<le> b" "mid @ right \<noteq> [] \<longrightarrow> b < idx + len left + len_utf8 (hd (mid @ right))"
    "mid \<noteq> [] \<longrightarrow> idx + len left + len (butlast mid) < t" "right \<noteq> [] \<longrightarrow> t \<le> idx + len left + len mid"
  using assms
proof (induction s arbitrary: idx thesis)
  case (Cons c s)
  show ?case
  proof (cases "idx + len_utf8 c \<le> b")
    case True
    from Cons.prems have "rm + length s \<le> USIZE_MAX" by simp
    from Cons.IH [OF _ True this] obtain left mid right where ih: "s = left @ mid @ right"
      "split_loop b t (idx + len_utf8 c) s (idx + len_utf8 c, ss, rm, False) = (idx + len_utf8 c + len left,
         if right = [] then ss else idx + len_utf8 c + len left + len mid, rm + length mid, right \<noteq> [])"
      "idx + len_utf8 c + len left \<le> b"
      "mid @ right \<noteq> [] \<longrightarrow> b < idx + len_utf8 c + len left + len_utf8 (hd (mid @ right))"
      "mid \<noteq> [] \<longrightarrow> idx + len_utf8 c + len left + len (butlast mid) < t"
      "right \<noteq> [] \<longrightarrow> t \<le> idx + len_utf8 c + len left + len mid" by blast
    with True show ?thesis
      by (intro Cons.prems(1) [of "c # left" mid right]) (simp_all add: Let_def add.assoc)
  next
    case False
    then have "c # s \<noteq> [] \<longrightarrow> b < idx + len_utf8 (hd (c # s))" by simp
    from split_loop_middle [OF this Cons.prems(3)] obtain mid right where
      "c # s = mid @ right" "split_loop b t idx (c # s) (idx, ss, rm, False)
        = (idx, if right = [] then ss else idx + len mid, rm + length mid, right \<noteq> [])"
      "mid \<noteq> [] \<longrightarrow> idx + len (butlast mid) < t" "right \<noteq> [] \<longrightarrow> t \<le> idx + len mid" by blast
    moreover from this(1) have "hd (mid @ right) = c" by (metis list.sel(1))
    ultimately show ?thesis using False Cons.prems(2)
      by (intro Cons.prems(1) [of "[]" mid right]) simp_all
  qed
qed simp

lemma split_string_parts:
  assumes "b + e < len s" and "len s \<le> USIZE_MAX"
  obtains left mid right where "s = left @ mid @ right" "split_string s b e = Some (length mid, left, right)"
    "mid \<noteq> []" "len left \<le> b" "len right \<le> e" "b < len left + len_utf8 (hd mid)" "e < len_utf8 (last mid) + len right"
proof -
  have "0 + length s \<le> USIZE_MAX" using length_le_len [of s] assms(2) by simp
  from split_loop_parts [OF le0 this] obtain left mid right where
    p: "s = left @ mid @ right" "split_loop b (len s - e) 0 s (0, len s, 0, False)
      = (len left, if right = [] then len s else len left + len mid, length mid, right \<noteq> [])"
    "len left \<le> b" "mid @ right \<noteq> [] \<longrightarrow> b < len left + len_utf8 (hd (mid @ right))"
    "mid \<noteq> [] \<longrightarrow> len left + len (butlast mid) < len s - e" "right \<noteq> [] \<longrightarrow> len s - e \<le> len left + len mid"
    by (metis add_0)
  have r: "len right \<le> e" using p(1,6) by (cases "right = []") auto
  with assms(1) p(1,3) have m: "mid \<noteq> []" by auto
  then have "len mid = len (butlast mid) + len_utf8 (last mid)"
    using append_butlast_last_id [OF m] len_append [of "butlast mid" "[last mid]"] by simp
  with p(1,5) m have "e < len_utf8 (last mid) + len right" by simp
  moreover have "split_at (len left) s = Some (left, mid @ right)" "split_at (len left + len mid) s = Some (left @ mid, right)"
    using split_at_append [of left "mid @ right"] split_at_append [of "left @ mid" right] by (simp_all add: p(1))
  then have "split_string s b e = Some (length mid, left, right)"
    using p(1,2) m by (auto simp: split_string_def Let_def)
  ultimately show ?thesis using that p m r by simp
qed

text \<open>What the marker counts: removed chars for a byte policy, tokens over the budget for a token policy.\<close>

fun marker_for :: "truncation_policy \<Rightarrow> rstr \<Rightarrow> rstr \<Rightarrow> rstr" where
  "marker_for (Bytes b) s mid = ellipsis @ show_nat (length mid) @ lit '' chars truncated'' @ ellipsis"
| "marker_for (Tokens t) s mid =
     ellipsis @ show_nat ((len s - approx_bytes_for_tokens t + 3) div 4) @ lit '' tokens truncated'' @ ellipsis"

lemma approx_tokens_exact:
  "n + 3 \<le> USIZE_MAX \<Longrightarrow> approx_tokens_from_byte_count n = (n + 3) div 4"
  by (simp add: approx_tokens_from_byte_count_def saturating_add_def APPROX_BYTES_PER_TOKEN_def)

lemma truncate_with_byte_estimate_fits: "len s \<le> b \<Longrightarrow> truncate_with_byte_estimate s b u = Some s"
  by (auto simp: truncate_with_byte_estimate_def)

lemma truncate_with_byte_estimate_parts:
  assumes "b < len s" and "len s + 3 \<le> USIZE_MAX"
  obtains left mid right where "s = left @ mid @ right" "mid \<noteq> []"
    "truncate_with_byte_estimate s b u
      = Some (left @ format_truncation_marker u (if u then (len s - b + 3) div 4 else length mid) @ right)"
    "len left \<le> b div 2" "len right \<le> b - b div 2"
    "b div 2 < len left + len_utf8 (hd mid)" "b - b div 2 < len_utf8 (last mid) + len right"
proof (cases "b = 0")
  case True
  with assms show ?thesis
    by (intro that [of "[]" s "[]"])
       (auto simp: truncate_with_byte_estimate_def removed_units_def approx_tokens_exact)
next
  case False
  from assms have "b div 2 + (b - b div 2) < len s" "len s \<le> USIZE_MAX" by auto
  from split_string_parts [OF this] obtain left mid right where
    "s = left @ mid @ right" "split_string s (b div 2) (b - b div 2) = Some (length mid, left, right)"
    "mid \<noteq> []" "len left \<le> b div 2" "len right \<le> b - b div 2"
    "b div 2 < len left + len_utf8 (hd mid)" "b - b div 2 < len_utf8 (last mid) + len right" .
  with False assms show ?thesis
    by (intro that [of left mid right])
       (auto simp: truncate_with_byte_estimate_def split_budget_def Let_def removed_units_def approx_tokens_exact)
qed

lemma truncate_text_estimate:
  "truncate_text s p = truncate_with_byte_estimate s (byte_budget p) (case p of Bytes _ \<Rightarrow> False | Tokens _ \<Rightarrow> True)"
  by (cases p)
     (auto simp: truncate_middle_chars_def truncate_middle_with_token_budget_def truncate_with_byte_estimate_fits
       option.map_comp comp_def if_distrib [of fst] option.map_ident cong: if_cong)

text \<open>
  C18. Truncating an output never panics and changes nothing within the budget. Beyond it the result
  is the longest beginning that fits half of the budget, a marker with the exact number of removed
  chars (or the tokens over the budget), and the longest end that fits the other half; at least one
  char is removed, and all cuts are at char boundaries.
\<close>

theorem truncate_text_keeps_ends:
  assumes "len s + 3 \<le> USIZE_MAX"
  shows "\<exists>r. truncate_text s p = Some r \<and> (if len s \<le> byte_budget p then r = s
    else (\<exists>left mid right. s = left @ mid @ right \<and> mid \<noteq> [] \<and> r = left @ marker_for p s mid @ right
      \<and> len left \<le> byte_budget p div 2 \<and> byte_budget p div 2 < len left + len_utf8 (hd mid)
      \<and> len right \<le> byte_budget p - byte_budget p div 2
      \<and> byte_budget p - byte_budget p div 2 < len_utf8 (last mid) + len right))"
proof (cases "len s \<le> byte_budget p")
  case True
  then show ?thesis by (simp add: truncate_text_estimate truncate_with_byte_estimate_fits)
next
  case False
  then have "byte_budget p < len s" by simp
  from truncate_with_byte_estimate_parts [OF this assms] obtain left mid right where
    "s = left @ mid @ right" "mid \<noteq> []"
    "truncate_text s p = Some (left @ format_truncation_marker (case p of Bytes _ \<Rightarrow> False | Tokens _ \<Rightarrow> True)
      (if case p of Bytes _ \<Rightarrow> False | Tokens _ \<Rightarrow> True then (len s - byte_budget p + 3) div 4 else length mid) @ right)"
    "len left \<le> byte_budget p div 2" "len right \<le> byte_budget p - byte_budget p div 2"
    "byte_budget p div 2 < len left + len_utf8 (hd mid)"
    "byte_budget p - byte_budget p div 2 < len_utf8 (last mid) + len right"
    unfolding truncate_text_estimate .
  moreover from this have "truncate_text s p = Some (left @ marker_for p s mid @ right)"
    by (cases p) (simp_all add: format_truncation_marker_def)
  ultimately show ?thesis using False by auto
qed

theorem truncate_text_keeps_ends_witness:
  "\<exists>r. truncate_text (lit ''abcdef'') (Bytes 4) = Some r \<and> (\<exists>left mid right. lit ''abcdef'' = left @ mid @ right
      \<and> mid \<noteq> [] \<and> r = left @ marker_for (Bytes 4) (lit ''abcdef'') mid @ right \<and> len left \<le> 2 \<and> len right \<le> 2)"
proof -
  have "len (lit ''abcdef'') = 6" by (simp add: len_def lit_def len_utf8_def)
  then show ?thesis using truncate_text_keeps_ends [of "lit ''abcdef''" "Bytes 4"]
    by (auto simp: USIZE_MAX_def)
qed

lemma bit_len_bound: "0 < n \<Longrightarrow> 2 ^ (bit_len n - 1) \<le> n"
proof (induction n rule: bit_len.induct)
  case (1 n)
  show ?case
  proof (cases "n div 2 = 0")
    case True
    with 1 show ?thesis by (simp add: bit_len.simps [of n] bit_len.simps [of 0])
  next
    case False
    then have "2 ^ (bit_len (n div 2) - 1) \<le> n div 2" "0 < bit_len (n div 2)"
      using 1 by (simp_all add: bit_len.simps [of "n div 2"])
    then show ?thesis using 1 by (cases "bit_len (n div 2)") (simp_all add: bit_len.simps [of n])
  qed
qed

lemma f64_round_bound: "n * (2 ^ 52 - 1) \<le> f64_round n * 2 ^ 52"
proof (cases "bit_len n \<le> 53")
  case True
  then show ?thesis by (simp add: f64_round_def Let_def)
next
  case False
  define e where "e = bit_len n - 53"
  from False have "0 < n" by (auto simp: bit_len.simps [of 0] intro: Nat.gr0I)
  from bit_len_bound [OF this] False have "2 ^ (52 + e) \<le> n" by (simp add: e_def)
  then have big: "2 ^ e * 2 ^ 52 \<le> n" by (simp add: power_add mult.commute)
  have "n - n mod 2 ^ e \<le> f64_round n"
    unfolding f64_round_def Let_def e_def [symmetric]
    by (auto simp: minus_mod_eq_div_mult intro: mult_le_mono1)
  moreover have "n mod 2 ^ e \<le> 2 ^ e" by (simp add: less_imp_le)
  ultimately have "n \<le> f64_round n + 2 ^ e" by linarith
  then have "n * 2 ^ 52 \<le> (f64_round n + 2 ^ e) * 2 ^ 52" by (rule mult_le_mono1)
  with big show ?thesis by (simp add: algebra_simps)
qed

lemma scale_budget_ge:
  assumes "n \<le> USIZE_MAX"
  shows "n \<le> scale_budget n"
proof -
  let ?c = "5404319552844595 :: nat"
  define a where "a = f64_round n"
  define b where "b = f64_round (a * ?c)"
  have "n * (2 ^ 52 - 1) * (?c * (2 ^ 52 - 1)) \<le> a * 2 ^ 52 * (?c * (2 ^ 52 - 1))"
    unfolding a_def by (rule mult_le_mono1) (rule f64_round_bound)
  also have "\<dots> = a * ?c * (2 ^ 52 - 1) * 2 ^ 52" by (simp add: mult_ac)
  also have "\<dots> \<le> b * 2 ^ 52 * 2 ^ 52"
    unfolding b_def by (rule mult_le_mono1) (rule f64_round_bound)
  finally have "n * 2 ^ 52 \<le> b" by simp
  then have "n \<le> b div 2 ^ 52" by (simp add: less_eq_div_iff_mult_less_eq)
  also have "\<dots> \<le> (b + (2 ^ 52 - 1)) div 2 ^ 52" by (rule div_le_mono) simp
  finally show ?thesis using assms by (simp add: scale_budget_def a_def b_def)
qed

fun is_text :: "function_call_output_content_item \<Rightarrow> bool" where
  "is_text (FcoInputText _) = True"
| "is_text _ = False"

fun item_text :: "function_call_output_content_item \<Rightarrow> rstr" where
  "item_text (FcoInputText text) = text"
| "item_text _ = []"

lemma truncate_text_total: "len s + 3 \<le> USIZE_MAX \<Longrightarrow> \<exists>r. truncate_text s p = Some r"
  unfolding truncate_text_estimate
  by (cases "len s \<le> byte_budget p", simp add: truncate_with_byte_estimate_fits,
      rule truncate_with_byte_estimate_parts [of "byte_budget p" s]) auto

lemma truncate_items_keep:
  assumes "\<forall>i \<in> set items. len (item_text i) + 3 \<le> USIZE_MAX"
  shows "\<exists>out k. truncate_items p items b n = Some (out, n + k)
    \<and> filter (\<lambda>i. \<not> is_text i) out = filter (\<lambda>i. \<not> is_text i) items
    \<and> length (filter is_text out) + k = length (filter is_text items)"
  using assms
proof (induction items arbitrary: b n)
  case (Cons i items)
  then have ih: "\<exists>out k. truncate_items p items b n = Some (out, n + k)
    \<and> filter (\<lambda>i. \<not> is_text i) out = filter (\<lambda>i. \<not> is_text i) items
    \<and> length (filter is_text out) + k = length (filter is_text items)" for b n by simp
  show ?case
  proof (cases i)
    case (FcoInputText t)
    with Cons.prems obtain r where r: "truncate_text t (snippet_policy p b) = Some r" using truncate_text_total by force
    consider "b = 0" | "b \<noteq> 0" "item_cost p t \<le> b" | "b \<noteq> 0" "\<not> item_cost p t \<le> b" "r = []"
      | "b \<noteq> 0" "\<not> item_cost p t \<le> b" "r \<noteq> []" by blast
    then show ?thesis
    proof cases
      case 1
      with FcoInputText ih [of b "n + 1"] show ?thesis by fastforce
    next
      case 2
      with FcoInputText ih [of "b - item_cost p t" n] show ?thesis by fastforce
    next
      case 3
      with FcoInputText r ih [of 0 "n + 1"] show ?thesis by fastforce
    next
      case 4
      with FcoInputText r ih [of 0 n] show ?thesis by fastforce
    qed
  qed (use ih [of b n] in fastforce)+
qed simp

lemma truncate_items_within:
  assumes "sum_list (map (\<lambda>i. if is_text i then item_cost p (item_text i) else 0) items) \<le> b"
    and "\<forall>i \<in> set items. is_text i \<longrightarrow> item_text i \<noteq> []"
  shows "truncate_items p items b n = Some (items, n)"
  using assms
proof (induction p items b n rule: truncate_items.induct)
  case (2 p t items b n)
  have "t \<noteq> []" using 2(6) by simp
  then have "0 < len t" by (simp flip: neq0_conv)
  then have "0 < item_cost p t"
    by (cases p) (simp_all add: approx_token_count_def saturating_add_def USIZE_MAX_def APPROX_BYTES_PER_TOKEN_def)
  with 2 show ?case by simp
qed auto

end
