(* ===== verification/History_Content.thy ===== *)
theory History_Content
  imports Text_Truncate
begin

text \<open>
  Which message contents are context that codex injected rather than a user's instruction:
  the marked fragments (context-fragments/src, core/src/context) and the classification of message
  contents in core/src/event_mapping.rs. Reading a hook prompt fragment (XML) and an inter-agent
  message (JSON) are parameters.
\<close>

text \<open>\<open>xml_hook_run_id\<close> is the run id of a text that parses as hook prompt XML; \<open>json_inter_agent\<close>
  says that a text parses as an inter-agent communication.\<close>

record fragment_parsers =
  xml_hook_run_id :: "rstr \<Rightarrow> rstr option"
  json_inter_agent :: "rstr \<Rightarrow> bool"

definition eq_ignore_ascii_case :: "rstr \<Rightarrow> rstr \<Rightarrow> bool" where
  "eq_ignore_ascii_case a b \<longleftrightarrow> to_ascii_lowercase a = to_ascii_lowercase b"

text \<open>\<open>s.get(..p.len())\<close> compared with \<open>p\<close>; \<open>get\<close> is \<open>None\<close> where slicing would panic.\<close>

definition prefix_ignore_case :: "rstr \<Rightarrow> rstr \<Rightarrow> bool" where
  "prefix_ignore_case s p = (case split_at (len p) s of None \<Rightarrow> False | Some (a, _) \<Rightarrow> eq_ignore_ascii_case a p)"

definition matches_marked_text :: "rstr \<Rightarrow> rstr \<Rightarrow> rstr \<Rightarrow> bool" where
  "matches_marked_text start_marker end_marker text =
     (if start_marker = [] \<or> end_marker = [] then False
      else let trimmed = trim_start text;
               starts_with_marker = prefix_ignore_case trimmed start_marker;
               trimmed = trim_end trimmed;
               ends_with_marker = (case split_at (len trimmed - len end_marker) trimmed of
                 None \<Rightarrow> False | Some (_, z) \<Rightarrow> eq_ignore_ascii_case z end_marker)
           in starts_with_marker \<and> ends_with_marker)"

definition additional_context_matches :: "rstr \<Rightarrow> bool" where
  "additional_context_matches text =
     (case strip_prefix (trim text) (lit ''<external_'') of None \<Rightarrow> False
      | Some rest \<Rightarrow> (case split_once rest 62 of None \<Rightarrow> False
          | Some (key, value_and_close) \<Rightarrow> ends_with value_and_close (lit ''</external_'' @ key @ lit ''>'')))"

definition is_ascii_lowercase :: "rchar \<Rightarrow> bool" where
  "is_ascii_lowercase c \<longleftrightarrow> 97 \<le> c \<and> c \<le> 122"

fun is_valid_source :: "rstr \<Rightarrow> bool" where
  "is_valid_source [] = False"
| "is_valid_source (first # rest) =
     (is_ascii_lowercase first \<and> list_all (\<lambda>c. is_ascii_lowercase c \<or> is_ascii_digit c \<or> c = 95) rest)"

definition internal_context_matches :: "rstr \<Rightarrow> bool" where
  "internal_context_matches text =
     (let trimmed = trim text
      in if starts_with trimmed (lit ''<goal_context>'') \<and> ends_with trimmed (lit ''</goal_context>'') then True
         else case Option.bind (strip_prefix trimmed (lit ''<codex_internal_context'')) (\<lambda>rest.
                     Option.bind (strip_prefix rest (lit '' source='' @ [34])) (\<lambda>rest. find_sub rest [34, 62])) of
           None \<Rightarrow> False
         | Some (source, rest) \<Rightarrow>
             is_valid_source source \<and> ends_with (drop 2 rest) (lit ''</codex_internal_context>''))"

text \<open>The \<open>type_markers\<close> of the registered fragments that keep the default \<open>matches_text\<close>.\<close>

definition marked_fragments :: "(rstr \<times> rstr) list" where
  "marked_fragments =
     [(lit ''# AGENTS.md instructions'', lit ''</INSTRUCTIONS>''),
      (lit ''<environment_context>'', lit ''</environment_context>''),
      (lit ''<skill>'', lit ''</skill>''),
      (lit ''<user_shell_command>'', lit ''</user_shell_command>''),
      (lit ''<turn_aborted>'', lit ''</turn_aborted>''),
      (lit ''<subagent_notification>'', lit ''</subagent_notification>''),
      (lit ''<recommended_plugins>'', lit ''</recommended_plugins>'')]"

definition process_limit_warning_matches :: "rstr \<Rightarrow> bool" where
  "process_limit_warning_matches text =
     starts_with (trim text) (lit ''Warning: The maximum number of unified exec processes you can keep open is'')"

definition apply_patch_warning_matches :: "rstr \<Rightarrow> bool" where
  "apply_patch_warning_matches text =
     (let trimmed = trim text
      in starts_with trimmed (lit ''Warning: apply_patch was requested via '')
         \<and> ends_with trimmed (lit ''Use the apply_patch tool instead of exec_command.''))"

definition model_mismatch_warning_matches :: "rstr \<Rightarrow> bool" where
  "model_mismatch_warning_matches text =
     starts_with (trim text) (lit ''Warning: Your account was flagged for potentially high-risk cyber activity'')"

definition is_standard_contextual_user_text :: "rstr \<Rightarrow> bool" where
  "is_standard_contextual_user_text text \<longleftrightarrow>
     list_ex (\<lambda>(a, z). matches_marked_text a z text) marked_fragments
     \<or> additional_context_matches text \<or> internal_context_matches text
     \<or> process_limit_warning_matches text \<or> apply_patch_warning_matches text \<or> model_mismatch_warning_matches text"

definition is_hook_prompt_fragment :: "fragment_parsers \<Rightarrow> rstr \<Rightarrow> bool" where
  "is_hook_prompt_fragment fp text =
     (case xml_hook_run_id fp (trim text) of None \<Rightarrow> False | Some run_id \<Rightarrow> trim run_id \<noteq> [])"

fun is_contextual_user_fragment :: "fragment_parsers \<Rightarrow> content_item \<Rightarrow> bool" where
  "is_contextual_user_fragment fp (InputText text) =
     (is_hook_prompt_fragment fp text \<or> is_standard_contextual_user_text text)"
| "is_contextual_user_fragment fp _ = False"

definition is_contextual_user_message_content :: "fragment_parsers \<Rightarrow> content_item list \<Rightarrow> bool" where
  "is_contextual_user_message_content fp message = list_ex (is_contextual_user_fragment fp) message"

definition CONTEXTUAL_DEVELOPER_PREFIXES :: "rstr list" where
  "CONTEXTUAL_DEVELOPER_PREFIXES =
     map lit [''<permissions instructions>'', ''<model_switch>'', ''<collaboration_mode>'', ''<multi_agent_mode>'',
       ''<realtime_conversation>'', ''<skills_instructions>'', ''<personality_spec>'', ''<token_budget>'',
       ''<rollout_budget>'']"

fun is_contextual_dev_fragment :: "content_item \<Rightarrow> bool" where
  "is_contextual_dev_fragment (InputText text) =
     list_ex (prefix_ignore_case (trim_start text)) CONTEXTUAL_DEVELOPER_PREFIXES"
| "is_contextual_dev_fragment _ = False"

definition is_contextual_dev_message_content :: "content_item list \<Rightarrow> bool" where
  "is_contextual_dev_message_content message = list_ex is_contextual_dev_fragment message"

definition has_non_contextual_dev_message_content :: "content_item list \<Rightarrow> bool" where
  "has_non_contextual_dev_message_content message = list_ex (\<lambda>c. \<not> is_contextual_dev_fragment c) message"

text \<open>\<open>InterAgentCommunication::is_message_content\<close>.\<close>

fun is_inter_agent_instruction_content :: "fragment_parsers \<Rightarrow> content_item list \<Rightarrow> bool" where
  "is_inter_agent_instruction_content fp [InputText text] = json_inter_agent fp text"
| "is_inter_agent_instruction_content fp [OutputText text] = json_inter_agent fp text"
| "is_inter_agent_instruction_content fp _ = False"

end
