(* ===== verification/History_Normalize.thy ===== *)
theory History_Normalize
  imports History_Content
begin

text \<open>
  Normalisation of the conversation history before it is sent
  (core/src/context_manager/normalize.rs): every call gets an output, every output has a call, and
  images are replaced for models that do not take them. \<open>error_or_panic\<close> panics in a debug build
  only, so the functions take the build mode and a panic is \<open>None\<close>.
\<close>

datatype input_modality = TextModality | ImageModality

definition IMAGE_CONTENT_OMITTED_PLACEHOLDER :: rstr where
  "IMAGE_CONTENT_OMITTED_PLACEHOLDER = lit ''image content omitted because you do not support image input''"

definition payload_from_text :: "rstr \<Rightarrow> function_call_output_payload" where
  "payload_from_text content = \<lparr>out_body = Text content, out_success = None\<rparr>"

text \<open>The three sets of output ids and the four sets of call ids, as lists.\<close>

fun function_output_id :: "response_item \<Rightarrow> rstr option" where
  "function_output_id (FunctionCallOutput _ call_id _ _) = Some call_id"
| "function_output_id _ = None"

fun tool_search_output_id :: "response_item \<Rightarrow> rstr option" where
  "tool_search_output_id (ToolSearchOutput _ call_id _ _ _ _) = call_id"
| "tool_search_output_id _ = None"

fun custom_tool_output_id :: "response_item \<Rightarrow> rstr option" where
  "custom_tool_output_id (CustomToolCallOutput _ call_id _ _ _) = Some call_id"
| "custom_tool_output_id _ = None"

fun function_call_id :: "response_item \<Rightarrow> rstr option" where
  "function_call_id (FunctionCall _ _ _ _ call_id _) = Some call_id"
| "function_call_id _ = None"

fun tool_search_call_id :: "response_item \<Rightarrow> rstr option" where
  "tool_search_call_id (ToolSearchCall _ call_id _ _ _ _) = call_id"
| "tool_search_call_id _ = None"

fun local_shell_call_id :: "response_item \<Rightarrow> rstr option" where
  "local_shell_call_id (LocalShellCall _ call_id _ _ _) = call_id"
| "local_shell_call_id _ = None"

fun custom_tool_call_id :: "response_item \<Rightarrow> rstr option" where
  "custom_tool_call_id (CustomToolCall _ _ call_id _ _ _) = Some call_id"
| "custom_tool_call_id _ = None"

definition has_id :: "(response_item \<Rightarrow> rstr option) \<Rightarrow> response_item list \<Rightarrow> rstr \<Rightarrow> bool" where
  "has_id f items c = list_ex (\<lambda>i. f i = Some c) items"

text \<open>The match arms of \<open>ensure_call_outputs_present\<close>: the output to insert after an unanswered call.\<close>

fun missing_output :: "response_item list \<Rightarrow> response_item \<Rightarrow> response_item option" where
  "missing_output items (FunctionCall _ _ _ _ call_id _) =
     (if has_id function_output_id items call_id then None
      else Some (FunctionCallOutput None call_id (payload_from_text (lit ''aborted'')) None))"
| "missing_output items (ToolSearchCall _ (Some call_id) _ _ _ _) =
     (if has_id tool_search_output_id items call_id then None
      else Some (ToolSearchOutput None (Some call_id) (lit ''completed'') (lit ''client'') [] None))"
| "missing_output items (CustomToolCall _ _ call_id _ _ _) =
     (if has_id custom_tool_output_id items call_id then None
      else Some (CustomToolCallOutput None call_id None (payload_from_text (lit ''aborted'')) None))"
| "missing_output items (LocalShellCall _ (Some call_id) _ _ _) =
     (if has_id function_output_id items call_id then None
      else Some (FunctionCallOutput None call_id (payload_from_text (lit ''aborted'')) None))"
| "missing_output items _ = None"

text \<open>The arms that report through \<open>error_or_panic\<close> rather than \<open>info!\<close>.\<close>

fun missing_is_error :: "response_item \<Rightarrow> bool" where
  "missing_is_error (CustomToolCall _ _ _ _ _ _) = True"
| "missing_is_error (LocalShellCall _ _ _ _ _) = True"
| "missing_is_error _ = False"

text \<open>\<open>Vec::insert\<close>.\<close>

definition insert_at :: "nat \<Rightarrow> 'a \<Rightarrow> 'a list \<Rightarrow> 'a list" where
  "insert_at n x xs = take n xs @ x # drop n xs"

definition ensure_call_outputs_present :: "bool \<Rightarrow> response_item list \<Rightarrow> response_item list option" where
  "ensure_call_outputs_present debug items =
     (if debug \<and> list_ex (\<lambda>i. missing_is_error i \<and> missing_output items i \<noteq> None) items then None
      else let missing = List.map_filter (\<lambda>(idx, i). map_option (Pair idx) (missing_output items i)) (enumerate 0 items)
           in Some (fold (\<lambda>(idx, out) xs. insert_at (idx + 1) out xs) (rev missing) items))"

fun has_match :: "response_item list \<Rightarrow> response_item \<Rightarrow> bool" where
  "has_match items (FunctionCallOutput _ call_id _ _) =
     (has_id function_call_id items call_id \<or> has_id local_shell_call_id items call_id)"
| "has_match items (CustomToolCallOutput _ call_id _ _ _) = has_id custom_tool_call_id items call_id"
| "has_match items (ToolSearchOutput _ call_id _ execution _ _) =
     (if execution = lit ''server'' then True
      else case call_id of Some c \<Rightarrow> has_id tool_search_call_id items c | None \<Rightarrow> True)"
| "has_match items _ = True"

definition remove_orphan_outputs :: "bool \<Rightarrow> response_item list \<Rightarrow> response_item list option" where
  "remove_orphan_outputs debug items =
     (if debug \<and> \<not> list_all (has_match items) items then None else Some (filter (has_match items) items))"

definition remove_first_matching :: "(response_item \<Rightarrow> bool) \<Rightarrow> response_item list \<Rightarrow> response_item list" where
  "remove_first_matching P items =
     (case List.extract P items of None \<Rightarrow> items | Some (before, _, after) \<Rightarrow> before @ after)"

fun remove_corresponding_for :: "response_item list \<Rightarrow> response_item \<Rightarrow> response_item list" where
  "remove_corresponding_for items (FunctionCall _ _ _ _ call_id _) =
     remove_first_matching (\<lambda>i. function_output_id i = Some call_id) items"
| "remove_corresponding_for items (FunctionCallOutput _ call_id _ _) =
     (if list_ex (\<lambda>i. function_call_id i = Some call_id) items
      then remove_first_matching (\<lambda>i. function_call_id i = Some call_id) items
      else remove_first_matching (\<lambda>i. local_shell_call_id i = Some call_id) items)"
| "remove_corresponding_for items (ToolSearchCall _ (Some call_id) _ _ _ _) =
     remove_first_matching (\<lambda>i. tool_search_output_id i = Some call_id) items"
| "remove_corresponding_for items (ToolSearchOutput _ (Some call_id) _ _ _ _) =
     remove_first_matching (\<lambda>i. tool_search_call_id i = Some call_id) items"
| "remove_corresponding_for items (CustomToolCall _ _ call_id _ _ _) =
     remove_first_matching (\<lambda>i. custom_tool_output_id i = Some call_id) items"
| "remove_corresponding_for items (CustomToolCallOutput _ call_id _ _ _) =
     remove_first_matching (\<lambda>i. custom_tool_call_id i = Some call_id) items"
| "remove_corresponding_for items (LocalShellCall _ (Some call_id) _ _ _) =
     remove_first_matching (\<lambda>i. function_output_id i = Some call_id) items"
| "remove_corresponding_for items _ = items"

fun omit_image :: "content_item \<Rightarrow> content_item" where
  "omit_image (InputImage _ _) = InputText IMAGE_CONTENT_OMITTED_PLACEHOLDER"
| "omit_image c = c"

fun omit_output_image :: "function_call_output_content_item \<Rightarrow> function_call_output_content_item" where
  "omit_output_image (FcoInputImage _ _) = FcoInputText IMAGE_CONTENT_OMITTED_PLACEHOLDER"
| "omit_output_image c = c"

definition omit_payload_images :: "function_call_output_payload \<Rightarrow> function_call_output_payload" where
  "omit_payload_images p =
     (case out_body p of Text _ \<Rightarrow> p | ContentItems items \<Rightarrow> p\<lparr>out_body := ContentItems (map omit_output_image items)\<rparr>)"

fun strip_item_images :: "response_item \<Rightarrow> response_item" where
  "strip_item_images (Message i role content phase m) = Message i role (map omit_image content) phase m"
| "strip_item_images (FunctionCallOutput i c out m) = FunctionCallOutput i c (omit_payload_images out) m"
| "strip_item_images (CustomToolCallOutput i c n out m) = CustomToolCallOutput i c n (omit_payload_images out) m"
| "strip_item_images (ImageGenerationCall i status prompt result m) = ImageGenerationCall i status prompt [] m"
| "strip_item_images item = item"

definition strip_images_when_unsupported :: "input_modality list \<Rightarrow> response_item list \<Rightarrow> response_item list" where
  "strip_images_when_unsupported modalities items =
     (if ImageModality \<in> set modalities then items else map strip_item_images items)"

definition normalize_history :: "bool \<Rightarrow> input_modality list \<Rightarrow> response_item list \<Rightarrow> response_item list option" where
  "normalize_history debug modalities items =
     Option.bind (ensure_call_outputs_present debug items) (\<lambda>items.
       map_option (strip_images_when_unsupported modalities) (remove_orphan_outputs debug items))"

text \<open>
  Calls and outputs by kind and id. A local shell call is answered by a function call output; the
  output of a server-side tool search needs no call.
\<close>

datatype call_kind = FunctionKind | SearchKind | CustomKind

fun call_key :: "response_item \<Rightarrow> (call_kind \<times> rstr) option" where
  "call_key (FunctionCall _ _ _ _ c _) = Some (FunctionKind, c)"
| "call_key (LocalShellCall _ (Some c) _ _ _) = Some (FunctionKind, c)"
| "call_key (ToolSearchCall _ (Some c) _ _ _ _) = Some (SearchKind, c)"
| "call_key (CustomToolCall _ _ c _ _ _) = Some (CustomKind, c)"
| "call_key _ = None"

fun output_key :: "response_item \<Rightarrow> (call_kind \<times> rstr) option" where
  "output_key (FunctionCallOutput _ c _ _) = Some (FunctionKind, c)"
| "output_key (ToolSearchOutput _ (Some c) _ _ _ _) = Some (SearchKind, c)"
| "output_key (CustomToolCallOutput _ c _ _ _) = Some (CustomKind, c)"
| "output_key _ = None"

fun server_output :: "response_item \<Rightarrow> bool" where
  "server_output (ToolSearchOutput _ _ _ execution _ _) = (execution = lit ''server'')"
| "server_output _ = False"

definition call_keys :: "response_item list \<Rightarrow> (call_kind \<times> rstr) set" where
  "call_keys items = {k. \<exists>i \<in> set items. call_key i = Some k}"

definition output_keys :: "response_item list \<Rightarrow> (call_kind \<times> rstr) set" where
  "output_keys items = {k. \<exists>i \<in> set items. output_key i = Some k}"

definition calls_paired :: "response_item list \<Rightarrow> bool" where
  "calls_paired items \<longleftrightarrow> call_keys items \<subseteq> output_keys items \<and> output_keys (filter (\<lambda>i. \<not> server_output i) items) \<subseteq> call_keys items"

lemma calls_simps [simp]:
  "call_keys [] = {}" "call_keys (i # items) = set_option (call_key i) \<union> call_keys items" "call_keys (xs @ ys) = call_keys xs \<union> call_keys ys"
  by (auto simp: call_keys_def)

lemma outs_simps [simp]:
  "output_keys [] = {}" "output_keys (i # items) = set_option (output_key i) \<union> output_keys items" "output_keys (xs @ ys) = output_keys xs \<union> output_keys ys"
  by (auto simp: output_keys_def)

lemma output_id_key:
  "function_output_id i = Some c \<longleftrightarrow> output_key i = Some (FunctionKind, c)"
  "tool_search_output_id i = Some c \<longleftrightarrow> output_key i = Some (SearchKind, c)"
  "custom_tool_output_id i = Some c \<longleftrightarrow> output_key i = Some (CustomKind, c)"
  by (cases i rule: output_key.cases; simp)+

lemma call_id_key:
  "function_call_id i = Some c \<or> local_shell_call_id i = Some c \<longleftrightarrow> call_key i = Some (FunctionKind, c)"
  "tool_search_call_id i = Some c \<longleftrightarrow> call_key i = Some (SearchKind, c)"
  "custom_tool_call_id i = Some c \<longleftrightarrow> call_key i = Some (CustomKind, c)"
  by (cases i rule: call_key.cases; simp)+

lemma has_id_outs [simp]:
  "has_id function_output_id items c \<longleftrightarrow> (FunctionKind, c) \<in> output_keys items"
  "has_id tool_search_output_id items c \<longleftrightarrow> (SearchKind, c) \<in> output_keys items"
  "has_id custom_tool_output_id items c \<longleftrightarrow> (CustomKind, c) \<in> output_keys items"
  by (simp_all add: has_id_def output_keys_def list_ex_iff output_id_key)

lemma has_id_calls [simp]:
  "has_id function_call_id items c \<or> has_id local_shell_call_id items c \<longleftrightarrow> (FunctionKind, c) \<in> call_keys items"
  "has_id tool_search_call_id items c \<longleftrightarrow> (SearchKind, c) \<in> call_keys items"
  "has_id custom_tool_call_id items c \<longleftrightarrow> (CustomKind, c) \<in> call_keys items"
  by (simp_all add: has_id_def call_keys_def list_ex_iff call_id_key flip: bex_disj_distrib)

lemma missing_output_None: "missing_output items i = None \<longleftrightarrow> set_option (call_key i) \<subseteq> output_keys items"
  by (cases i rule: call_key.cases) simp_all

lemma missing_output_Some:
  "missing_output items i = Some out \<Longrightarrow> output_key out = call_key i \<and> call_key out = None \<and> \<not> server_output out"
  by (cases i rule: call_key.cases) (auto split: if_splits)

lemma has_match_iff: "has_match items i \<longleftrightarrow> server_output i \<or> set_option (output_key i) \<subseteq> call_keys items"
  by (cases i rule: output_key.cases) (simp_all split: option.splits)

lemma call_key_output_key: "call_key i \<noteq> None \<Longrightarrow> output_key i = None"
  by (cases i rule: call_key.cases) simp_all

text \<open>Inserting from the back by position is inserting after each item.\<close>

definition with_missing :: "('a \<Rightarrow> 'a option) \<Rightarrow> 'a list \<Rightarrow> 'a list" where
  "with_missing f xs = concat (map (\<lambda>x. x # (case f x of None \<Rightarrow> [] | Some y \<Rightarrow> [y])) xs)"

lemma with_missing_simps [simp]:
  "with_missing f [] = []"
  "with_missing f (x # xs) = x # (case f x of None \<Rightarrow> [] | Some y \<Rightarrow> [y]) @ with_missing f xs"
  "with_missing f (xs @ ys) = with_missing f xs @ with_missing f ys"
  by (simp_all add: with_missing_def)

lemma insert_back_to_front:
  "fold (\<lambda>(idx, out) zs. insert_at (idx + 1) out zs)
     (rev (List.map_filter (\<lambda>(idx, x). map_option (Pair idx) (f x)) (enumerate 0 xs))) (xs @ ys)
   = with_missing f xs @ ys"
proof (induction xs arbitrary: ys rule: rev_induct)
  case (snoc x xs)
  have "insert_at (Suc (length xs)) y (xs @ x # ys) = xs @ x # y # ys" for y
    by (simp add: insert_at_def)
  then show ?case using snoc [of "x # ys"] snoc [of "x # the (f x) # ys"]
    by (cases "f x") (simp_all add: enumerate_append_eq List.map_filter_def)
qed simp

lemma ensure_with_missing:
  "ensure_call_outputs_present debug items =
     (if debug \<and> list_ex (\<lambda>i. missing_is_error i \<and> missing_output items i \<noteq> None) items then None
      else Some (with_missing (missing_output items) items))"
  using insert_back_to_front [of "missing_output items" items "[]"]
  by (simp add: ensure_call_outputs_present_def Let_def)

lemma calls_with_missing: "call_keys (with_missing (missing_output items) xs) = call_keys xs"
  by (induction xs) (auto split: option.splits dest: missing_output_Some)

lemma outs_with_missing:
  "output_keys (with_missing (missing_output items) xs) = output_keys xs \<union> (call_keys xs - output_keys items)"
proof (induction xs)
  case (Cons x xs)
  show ?case
  proof (cases "missing_output items x")
    case None
    then show ?thesis using Cons missing_output_None [of items x] by auto
  next
    case (Some out)
    then have "set_option (call_key x) \<inter> output_keys items = {}"
      using missing_output_None [of items x] by (cases "call_key x") auto
    with Some show ?thesis using Cons missing_output_Some [OF Some] by auto
  qed
qed simp

lemma has_match_call: "call_key i \<noteq> None \<Longrightarrow> has_match items i"
  by (simp add: has_match_iff call_key_output_key)

lemma calls_filter_match: "call_keys (filter (has_match items) xs) = call_keys xs"
  by (auto simp: call_keys_def has_match_call)

lemma filter_with_missing:
  assumes "call_keys xs \<subseteq> call_keys all" and "\<And>i. has_match zs i = has_match all i"
  shows "filter (has_match zs) (with_missing (missing_output items) xs)
    = with_missing (missing_output items) (filter (has_match all) xs)"
  using assms(1)
proof (induction xs)
  case (Cons x xs)
  have "has_match all out" "has_match all x" if "missing_output items x = Some out" for out
    using missing_output_Some [OF that] Cons.prems that missing_output_None [of items x]
    by (auto simp: has_match_iff [of all out] intro: has_match_call)
  with Cons show ?case by (auto simp: assms(2) split: option.splits)
qed simp

text \<open>What normalisation keeps and adds.\<close>

definition normalized :: "input_modality list \<Rightarrow> response_item list \<Rightarrow> response_item list" where
  "normalized modalities items = strip_images_when_unsupported modalities
     (with_missing (missing_output items) (filter (has_match items) items))"

lemma remove_orphans_after_ensure:
  "filter (has_match (with_missing (missing_output items) items)) (with_missing (missing_output items) items)
    = with_missing (missing_output items) (filter (has_match items) items)"
  by (rule filter_with_missing) (simp_all add: has_match_iff calls_with_missing)

lemma normalize_history_release: "normalize_history False modalities items = Some (normalized modalities items)"
  by (simp add: normalize_history_def ensure_with_missing remove_orphan_outputs_def normalized_def
      remove_orphans_after_ensure)

lemma strip_item_keys [simp]:
  "call_key (strip_item_images i) = call_key i" "output_key (strip_item_images i) = output_key i"
  "server_output (strip_item_images i) = server_output i" "missing_is_error (strip_item_images i) = missing_is_error i"
  by (cases i rule: strip_item_images.cases; simp)+

lemma paired_strip: "calls_paired (strip_images_when_unsupported ms items) \<longleftrightarrow> calls_paired items"
  by (simp add: calls_paired_def strip_images_when_unsupported_def call_keys_def output_keys_def Bex_def conj_assoc)

lemma omit_idem [simp]: "omit_image (omit_image c) = omit_image c" "omit_output_image (omit_output_image d) = omit_output_image d"
  by (cases c; simp) (cases d; simp)

lemma strip_item_idem [simp]: "strip_item_images (strip_item_images i) = strip_item_images i"
  by (cases i rule: strip_item_images.cases)
     (simp_all add: omit_payload_images_def comp_def split: function_call_output_body.splits)

lemma paired_normalized: "calls_paired (normalized ms items)"
  unfolding normalized_def paired_strip
proof -
  let ?z = "with_missing (missing_output items) (filter (has_match items) items)"
  have "call_keys ?z = call_keys items" by (simp add: calls_with_missing calls_filter_match)
  moreover have "call_keys items \<inter> output_keys items \<subseteq> output_keys (filter (has_match items) items)"
    by (auto simp: output_keys_def has_match_iff)
  then have "call_keys items \<subseteq> output_keys ?z" by (auto simp: outs_with_missing calls_filter_match)
  moreover have "has_match items out" if "out \<in> set ?z" for out
  proof -
    from that have "out \<in> set (filter (has_match (with_missing (missing_output items) items))
        (with_missing (missing_output items) items))" by (simp only: remove_orphans_after_ensure)
    then show ?thesis by (simp add: has_match_iff calls_with_missing)
  qed
  then have "output_keys (filter (\<lambda>i. \<not> server_output i) ?z) \<subseteq> call_keys items"
    by (auto simp: output_keys_def has_match_iff)
  ultimately show "calls_paired ?z" by (simp add: calls_paired_def)
qed

lemma paired_fixed:
  assumes "calls_paired items"
  shows "ensure_call_outputs_present debug items = Some items" "remove_orphan_outputs debug items = Some items"
proof -
  have "missing_output items i = None" if "i \<in> set items" for i
    using assms that by (auto simp: missing_output_None calls_paired_def call_keys_def)
  moreover from this have "with_missing (missing_output items) xs = xs" if "set xs \<subseteq> set items" for xs
    using that by (induction xs) auto
  ultimately show "ensure_call_outputs_present debug items = Some items"
    by (auto simp: ensure_with_missing list_ex_iff)
  have "has_match items i" if "i \<in> set items" for i
    using assms that by (auto simp: has_match_iff calls_paired_def output_keys_def)
  then show "remove_orphan_outputs debug items = Some items"
    by (simp add: remove_orphan_outputs_def list_all_iff)
qed

fun is_image :: "content_item \<Rightarrow> bool" where
  "is_image (InputImage _ _) = True"
| "is_image _ = False"

fun is_output_image :: "function_call_output_content_item \<Rightarrow> bool" where
  "is_output_image (FcoInputImage _ _) = True"
| "is_output_image _ = False"

fun item_has_image :: "response_item \<Rightarrow> bool" where
  "item_has_image (Message _ _ content _ _) = list_ex is_image content"
| "item_has_image (FunctionCallOutput _ _ out _) =
     (case out_body out of Text _ \<Rightarrow> False | ContentItems items \<Rightarrow> list_ex is_output_image items)"
| "item_has_image (CustomToolCallOutput _ _ _ out _) =
     (case out_body out of Text _ \<Rightarrow> False | ContentItems items \<Rightarrow> list_ex is_output_image items)"
| "item_has_image (ImageGenerationCall _ _ _ result _) = (result \<noteq> [])"
| "item_has_image _ = False"

lemma omit_no_image [simp]: "\<not> is_image (omit_image c)" "\<not> is_output_image (omit_output_image d)"
  by (cases c; simp) (cases d; simp)

lemma strip_item_no_image: "\<not> item_has_image (strip_item_images i)"
  by (cases i rule: strip_item_images.cases)
     (simp_all add: list_ex_iff omit_payload_images_def split: function_call_output_body.splits)

text \<open>
  C4. A normalised history is the recorded history without the outputs that have no call, with an
  \<open>aborted\<close> output right after every unanswered call and nothing else changed but images; every
  call in it has an output and every output a call, it has no images if the model takes none, and
  normalising it again changes nothing and does not panic, in a debug build either.
\<close>

theorem normalized_history_paired:
  "normalize_history False ms items = Some (normalized ms items) \<and> calls_paired (normalized ms items)
   \<and> (ImageModality \<in> set ms \<or> list_all (\<lambda>i. \<not> item_has_image i) (normalized ms items))
   \<and> normalize_history debug ms (normalized ms items) = Some (normalized ms items)"
proof -
  have "strip_images_when_unsupported ms (normalized ms items) = normalized ms items"
    by (simp add: normalized_def strip_images_when_unsupported_def comp_def)
  then have "normalize_history debug ms (normalized ms items) = Some (normalized ms items)"
    by (simp add: normalize_history_def paired_fixed paired_normalized)
  moreover have "ImageModality \<in> set ms \<or> list_all (\<lambda>i. \<not> item_has_image i) (normalized ms items)"
    by (auto simp: normalized_def strip_images_when_unsupported_def list_all_iff strip_item_no_image)
  ultimately show ?thesis by (simp add: normalize_history_release paired_normalized)
qed

end
