(* ===== verification/History_Manager.thy ===== *)
theory History_Manager
  imports History_Normalize
begin

text \<open>
  The conversation history itself (core/src/context_manager/history.rs): recording items with their
  outputs truncated, preparing the prompt, dropping the oldest item, replacing images, and rolling
  back whole turns. Token usage and the two context baselines are values the operations only set or
  clear. Token estimation is not modelled.
\<close>

definition truncate_function_output_payload ::
    "function_call_output_payload \<Rightarrow> truncation_policy \<Rightarrow> function_call_output_payload option" where
  "truncate_function_output_payload out policy =
     map_option (\<lambda>body. \<lparr>out_body = body, out_success = out_success out\<rparr>)
       (case out_body out of
          Text content \<Rightarrow> map_option Text (truncate_text content policy)
        | ContentItems items \<Rightarrow> map_option ContentItems (truncate_function_output_items_with_policy items policy))"

fun is_api_message :: "response_item \<Rightarrow> bool" where
  "is_api_message (Message _ role _ _ _) = (role \<noteq> lit ''system'')"
| "is_api_message (CompactionTrigger _) = False"
| "is_api_message Other = False"
| "is_api_message _ = True"

fun is_user_turn_boundary :: "fragment_parsers \<Rightarrow> response_item \<Rightarrow> bool" where
  "is_user_turn_boundary fp (AgentMessage _ _ _ _ _) = True"
| "is_user_turn_boundary fp (Message _ role content _ _) =
     ((role = lit ''user'' \<and> \<not> is_contextual_user_message_content fp content)
      \<or> (role = lit ''assistant'' \<and> is_inter_agent_instruction_content fp content))"
| "is_user_turn_boundary fp _ = False"

definition user_message_positions :: "fragment_parsers \<Rightarrow> response_item list \<Rightarrow> nat list" where
  "user_message_positions fp items = map fst (filter (\<lambda>(_, i). is_user_turn_boundary fp i) (enumerate 0 items))"

record context_manager =
  h_items :: "response_item list"
  history_version :: "64 word"
  token_info :: "opaque option"
  reference_context_item :: "opaque option"
  environment_context_baseline :: "opaque option"

definition manager_new :: context_manager where
  "manager_new = \<lparr>h_items = [], history_version = 0, token_info = None, reference_context_item = None,
     environment_context_baseline = None\<rparr>"

definition update_environment_context_baseline :: "context_manager \<Rightarrow> opaque \<Rightarrow> bool \<times> context_manager" where
  "update_environment_context_baseline h ctx =
     (if environment_context_baseline h = Some ctx then (False, h)
      else (True, h\<lparr>environment_context_baseline := Some ctx\<rparr>))"

fun process_item :: "response_item \<Rightarrow> truncation_policy \<Rightarrow> response_item option" where
  "process_item (FunctionCallOutput i call_id out m) policy =
     map_option (\<lambda>out. FunctionCallOutput i call_id out m)
       (truncate_function_output_payload out (policy_with_serialization_budget policy))"
| "process_item (CustomToolCallOutput i call_id name out m) policy =
     map_option (\<lambda>out. CustomToolCallOutput i call_id name out m)
       (truncate_function_output_payload out (policy_with_serialization_budget policy))"
| "process_item item policy = Some item"

fun record_items :: "context_manager \<Rightarrow> response_item list \<Rightarrow> truncation_policy \<Rightarrow> context_manager option" where
  "record_items h [] policy = Some h"
| "record_items h (item # rest) policy =
     (if \<not> is_api_message item then record_items h rest policy
      else Option.bind (process_item item policy) (\<lambda>processed.
             record_items (h\<lparr>h_items := h_items h @ [processed]\<rparr>) rest policy))"

definition for_prompt :: "bool \<Rightarrow> context_manager \<Rightarrow> input_modality list \<Rightarrow> response_item list option" where
  "for_prompt debug h modalities = normalize_history debug modalities (h_items h)"

definition remove_first_item :: "context_manager \<Rightarrow> context_manager" where
  "remove_first_item h =
     (case h_items h of [] \<Rightarrow> h
      | removed # rest \<Rightarrow> h\<lparr>h_items := remove_corresponding_for rest removed, environment_context_baseline := None\<rparr>)"

definition bump_version :: "64 word \<Rightarrow> 64 word" where
  "bump_version v = (if v = - 1 then v else v + 1)"

definition replace_items :: "context_manager \<Rightarrow> response_item list \<Rightarrow> context_manager" where
  "replace_items h new =
     h\<lparr>h_items := new, history_version := bump_version (history_version h), environment_context_baseline := None\<rparr>"

fun is_function_call_output :: "response_item \<Rightarrow> bool" where
  "is_function_call_output (FunctionCallOutput _ _ _ _) = True"
| "is_function_call_output _ = False"

definition replace_output_image :: "rstr \<Rightarrow> function_call_output_content_item \<Rightarrow> function_call_output_content_item" where
  "replace_output_image placeholder c = (if is_output_image c then FcoInputText placeholder else c)"

text \<open>\<open>rposition\<close>: the list split at the last item that satisfies the predicate.\<close>

definition split_last :: "('a \<Rightarrow> bool) \<Rightarrow> 'a list \<Rightarrow> ('a list \<times> 'a \<times> 'a list) option" where
  "split_last P xs = map_option (\<lambda>(after, x, before). (rev before, x, rev after)) (List.extract P (rev xs))"

definition replace_last_turn_images ::
    "fragment_parsers \<Rightarrow> context_manager \<Rightarrow> rstr \<Rightarrow> bool \<times> context_manager" where
  "replace_last_turn_images fp h placeholder =
     (case split_last (\<lambda>i. is_function_call_output i \<or> is_user_turn_boundary fp i) (h_items h) of
        Some (before, FunctionCallOutput i c out m, after) \<Rightarrow>
          (case out_body out of Text _ \<Rightarrow> (False, h)
           | ContentItems cs \<Rightarrow>
               let h = h\<lparr>h_items := before @ FunctionCallOutput i c
                       (out\<lparr>out_body := ContentItems (map (replace_output_image placeholder) cs)\<rparr>) m # after\<rparr>
               in if list_ex is_output_image cs
                  then (True, h\<lparr>history_version := bump_version (history_version h)\<rparr>) else (False, h))
      | _ \<Rightarrow> (False, h))"

text \<open>
  The backward walk of \<open>trim_pre_turn_context_updates\<close>: the cut index and whether a mixed developer
  message was trimmed, which clears the reference baseline.
\<close>

fun trimmable :: "fragment_parsers \<Rightarrow> response_item \<Rightarrow> bool" where
  "trimmable fp (Message _ role content _ _) =
     ((role = lit ''developer'' \<and> is_contextual_dev_message_content content)
      \<or> (role = lit ''user'' \<and> is_contextual_user_message_content fp content))"
| "trimmable fp _ = False"

fun mixed_developer_message :: "response_item \<Rightarrow> bool" where
  "mixed_developer_message (Message _ role content _ _) =
     (role = lit ''developer'' \<and> is_contextual_dev_message_content content
       \<and> has_non_contextual_dev_message_content content)"
| "mixed_developer_message _ = False"

fun trim_pre_turn_context_updates ::
    "fragment_parsers \<Rightarrow> response_item list \<Rightarrow> nat \<Rightarrow> nat \<Rightarrow> context_manager \<Rightarrow> nat \<times> context_manager" where
  "trim_pre_turn_context_updates fp snapshot first 0 h = (0, h)"
| "trim_pre_turn_context_updates fp snapshot first (Suc cut_idx) h =
     (if first < Suc cut_idx \<and> trimmable fp (snapshot ! cut_idx)
      then trim_pre_turn_context_updates fp snapshot first cut_idx
             (if mixed_developer_message (snapshot ! cut_idx) then h\<lparr>reference_context_item := None\<rparr> else h)
      else (Suc cut_idx, h))"

definition drop_last_n_user_turns :: "fragment_parsers \<Rightarrow> context_manager \<Rightarrow> nat \<Rightarrow> context_manager" where
  "drop_last_n_user_turns fp h num_turns =
     (if num_turns = 0 then h
      else let snapshot = h_items h; positions = user_message_positions fp snapshot
           in case positions of [] \<Rightarrow> replace_items h snapshot
              | first # _ \<Rightarrow>
                  let cut_idx = (if length positions \<le> num_turns then first else positions ! (length positions - num_turns))
                  in case trim_pre_turn_context_updates fp snapshot first cut_idx h of
                       (cut_idx, h) \<Rightarrow> replace_items h (take cut_idx snapshot))"

lemma positions_Cons:
  "user_message_positions fp (x # xs) =
     (if is_user_turn_boundary fp x then [0] else []) @ map Suc (user_message_positions fp xs)"
proof -
  have "enumerate (Suc 0) xs = map (\<lambda>(i, x). (Suc i, x)) (enumerate 0 xs)"
    by (rule nth_equalityI) (auto simp: nth_enumerate_eq)
  then show ?thesis by (auto simp: user_message_positions_def filter_map comp_def case_prod_unfold)
qed

lemma positions_Nil [simp]: "user_message_positions fp [] = []"
  by (simp add: user_message_positions_def)

definition turn_count :: "fragment_parsers \<Rightarrow> response_item list \<Rightarrow> nat" where
  "turn_count fp xs = length (filter (is_user_turn_boundary fp) xs)"

lemma turn_count_simps [simp]:
  "turn_count fp [] = 0" "turn_count fp (xs @ ys) = turn_count fp xs + turn_count fp ys"
  "turn_count fp (x # xs) = (if is_user_turn_boundary fp x then 1 else 0) + turn_count fp xs"
  by (simp_all add: turn_count_def)

lemma length_positions: "length (user_message_positions fp xs) = turn_count fp xs"
  by (induction xs) (auto simp: positions_Cons)

lemma position_nth:
  "j < turn_count fp xs \<Longrightarrow> user_message_positions fp xs ! j < length xs
    \<and> is_user_turn_boundary fp (xs ! (user_message_positions fp xs ! j))
    \<and> turn_count fp (take (user_message_positions fp xs ! j) xs) = j"
proof (induction xs arbitrary: j)
  case (Cons x xs)
  then show ?case
    by (cases j) (auto simp: positions_Cons length_positions nth_append)
qed simp

lemma first_position:
  "user_message_positions fp xs = p # ps \<Longrightarrow> p = length (takeWhile (\<lambda>i. \<not> is_user_turn_boundary fp i) xs)"
  by (induction xs arbitrary: p ps) (auto simp: positions_Cons split: if_splits)

lemma positions_mono: "j < turn_count fp xs \<Longrightarrow>
    length (takeWhile (\<lambda>i. \<not> is_user_turn_boundary fp i) xs) \<le> user_message_positions fp xs ! j"
proof (induction xs arbitrary: j)
  case (Cons x xs)
  then show ?case by (cases j) (auto simp: positions_Cons length_positions)
qed simp

lemma trimmable_not_boundary: "trimmable fp i \<Longrightarrow> \<not> is_user_turn_boundary fp i"
  by (cases i) auto

lemma trim_walk:
  assumes "first \<le> c" "c \<le> length xs"
  obtains ctx c' where "trim_pre_turn_context_updates fp xs first c h
      = (c', if list_ex mixed_developer_message ctx then h\<lparr>reference_context_item := None\<rparr> else h)"
    "take c xs = take c' xs @ ctx" "first \<le> c'" "c' \<le> c" "list_all (trimmable fp) ctx"
    "c' = first \<or> \<not> trimmable fp (xs ! (c' - 1))"
  using assms
proof (induction c arbitrary: h thesis)
  case 0
  show ?case by (rule 0(1) [of 0 "[]"]) (use 0 in simp_all)
next
  case (Suc c)
  show ?case
  proof (cases "first < Suc c \<and> trimmable fp (xs ! c)")
    case True
    let ?h = "if mixed_developer_message (xs ! c) then h\<lparr>reference_context_item := None\<rparr> else h"
    from True Suc.prems have "first \<le> c" "c \<le> length xs" by auto
    from Suc.IH [OF _ this, of ?h] obtain ctx c' where
      ih: "trim_pre_turn_context_updates fp xs first c ?h
        = (c', if list_ex mixed_developer_message ctx then ?h\<lparr>reference_context_item := None\<rparr> else ?h)"
      "take c xs = take c' xs @ ctx" "first \<le> c'" "c' \<le> c" "list_all (trimmable fp) ctx"
      "c' = first \<or> \<not> trimmable fp (xs ! (c' - 1))" by blast
    show ?thesis
      by (rule Suc.prems(1) [of c' "ctx @ [xs ! c]"])
         (use ih True Suc.prems in \<open>auto simp: take_Suc_conv_app_nth\<close>)
  next
    case False
    with Suc.prems show ?thesis
      by (intro Suc.prems(1) [of "Suc c" "[]"]) auto
  qed
qed

lemma drop_last_unfold:
  assumes "0 < n" and "user_message_positions fp (h_items h) = p # ps"
  shows "drop_last_n_user_turns fp h n =
    (case trim_pre_turn_context_updates fp (h_items h) p
        (if length (user_message_positions fp (h_items h)) \<le> n then p
         else user_message_positions fp (h_items h) ! (length (user_message_positions fp (h_items h)) - n)) h of
      (c, h') \<Rightarrow> replace_items h' (take c (h_items h)))"
  using assms by (simp add: drop_last_n_user_turns_def Let_def)

text \<open>
  C9. Rolling back removes exactly the last \<open>n\<close> instruction turn_count, or all of them: the dropped end
  starts at a turn boundary, only injected context right before it goes with it and nothing before
  the first turn, the walk stops at the first item that is no such context, and the reference
  baseline is forgotten exactly when a mixed developer message was dropped with it.
\<close>

theorem rollback_drops_whole_turns:
  assumes "0 < n" and "0 < turn_count fp (h_items h)"
  shows "\<exists>kept ctx dropped. h_items h = kept @ ctx @ dropped \<and> h_items (drop_last_n_user_turns fp h n) = kept
    \<and> dropped \<noteq> [] \<and> is_user_turn_boundary fp (hd dropped) \<and> list_all (trimmable fp) ctx
    \<and> turn_count fp dropped = min n (turn_count fp (h_items h)) \<and> turn_count fp ctx = 0
    \<and> take (length (takeWhile (\<lambda>i. \<not> is_user_turn_boundary fp i) (h_items h))) kept
        = takeWhile (\<lambda>i. \<not> is_user_turn_boundary fp i) (h_items h)
    \<and> (turn_count fp kept = 0 \<or> \<not> trimmable fp (last kept))
    \<and> reference_context_item (drop_last_n_user_turns fp h n)
        = (if list_ex mixed_developer_message ctx then None else reference_context_item h)
    \<and> history_version (drop_last_n_user_turns fp h n) = bump_version (history_version h)"
proof -
  let ?xs = "h_items h" and ?P = "is_user_turn_boundary fp"
  let ?ps = "user_message_positions fp ?xs" and ?k = "turn_count fp (h_items h)"
  let ?first = "length (takeWhile (\<lambda>i. \<not> ?P i) ?xs)"
  let ?j = "?k - min n ?k"
  have j: "?j < ?k" using assms by simp
  let ?c = "?ps ! ?j"
  note c = position_nth [OF j]
  from positions_mono [OF j] c have "?first \<le> ?c" "?c \<le> length ?xs" by auto
  from trim_walk [OF this, of fp h] obtain ctx c' where t:
    "trim_pre_turn_context_updates fp ?xs ?first ?c h
      = (c', if list_ex mixed_developer_message ctx then h\<lparr>reference_context_item := None\<rparr> else h)"
    "take ?c ?xs = take c' ?xs @ ctx" "?first \<le> c'" "c' \<le> ?c" "list_all (trimmable fp) ctx"
    "c' = ?first \<or> \<not> trimmable fp (?xs ! (c' - 1))" by blast
  obtain p ps where ps: "?ps = p # ps" using assms(2) length_positions [of fp ?xs] by (cases ?ps) auto
  have cut: "(if length ?ps \<le> n then p else ?ps ! (length ?ps - n)) = ?c"
    using ps length_positions [of fp ?xs, symmetric] assms(1) by (cases "length ?ps \<le> n") auto
  have res: "drop_last_n_user_turns fp h n
      = replace_items (if list_ex mixed_developer_message ctx then h\<lparr>reference_context_item := None\<rparr> else h) (take c' ?xs)"
    unfolding drop_last_unfold [OF assms(1) ps] unfolding cut unfolding first_position [OF ps] t(1) by simp
  have split: "?xs = take c' ?xs @ ctx @ drop ?c ?xs"
    using append_take_drop_id [of ?c ?xs] unfolding t(2) by simp
  have dropped: "drop ?c ?xs \<noteq> []" "?P (hd (drop ?c ?xs))" using c by (simp_all add: hd_drop_conv_nth)
  have ctx0: "turn_count fp ctx = 0" using t(5) trimmable_not_boundary [of fp]
    by (auto simp: turn_count_def filter_empty_conv list_all_iff)
  have "?k = turn_count fp (take ?c ?xs) + turn_count fp (drop ?c ?xs)"
    by (metis append_take_drop_id turn_count_simps(2))
  then have n: "turn_count fp (drop ?c ?xs) = min n ?k" using c assms by simp
  have keep: "take ?first (take c' ?xs) = takeWhile (\<lambda>i. \<not> ?P i) ?xs"
    unfolding take_take min_absorb1 [OF t(3)] by (rule takeWhile_eq_take [symmetric])
  have "turn_count fp (take c' ?xs) = 0 \<or> \<not> trimmable fp (last (take c' ?xs))"
  proof (cases "c' = ?first")
    case True
    then have "take c' ?xs = takeWhile (\<lambda>i. \<not> ?P i) ?xs" using takeWhile_eq_take [of "\<lambda>i. \<not> ?P i" ?xs] by simp
    then show ?thesis by (auto simp: turn_count_def filter_empty_conv dest: set_takeWhileD)
  next
    case False
    with t(3,4) c have "0 < c'" "c' \<le> length ?xs" by auto
    then have "last (take c' ?xs) = ?xs ! (c' - 1)"
      by (subst last_conv_nth) auto
    with t(6) False show ?thesis by simp
  qed
  with res split dropped ctx0 n keep t(5) show ?thesis
    by (intro exI [of _ "take c' ?xs"] exI [of _ ctx] exI [of _ "drop ?c ?xs"]) (simp add: replace_items_def)
qed

definition parsers_sample :: fragment_parsers where
  "parsers_sample = \<lparr>xml_hook_run_id = (\<lambda>_. None), json_inter_agent = (\<lambda>_. False)\<rparr>"

definition agent_turn :: response_item where
  "agent_turn = AgentMessage None (lit ''a'') (lit ''b'') [] None"

theorem rollback_drops_whole_turns_witness:
  "\<exists>kept ctx dropped. [Other, agent_turn, Other, agent_turn, Other] = kept @ ctx @ dropped
    \<and> h_items (drop_last_n_user_turns parsers_sample
         (manager_new\<lparr>h_items := [Other, agent_turn, Other, agent_turn, Other]\<rparr>) 1) = kept
    \<and> turn_count parsers_sample dropped = 1"
  using rollback_drops_whole_turns [of 1 parsers_sample "manager_new\<lparr>h_items := [Other, agent_turn, Other, agent_turn, Other]\<rparr>"]
  by (auto simp: agent_turn_def)

text \<open>Dropping the oldest item together with its counterpart.\<close>

definition item_keys :: "response_item \<Rightarrow> (call_kind \<times> rstr) set" where
  "item_keys i = set_option (call_key i) \<union> set_option (output_key i)"

definition unique_keys :: "response_item list \<Rightarrow> bool" where
  "unique_keys xs \<longleftrightarrow> distinct (List.map_filter call_key xs) \<and> distinct (List.map_filter output_key xs)"

lemma set_map_filter_keys [simp]:
  "set (List.map_filter call_key xs) = call_keys xs" "set (List.map_filter output_key xs) = output_keys xs"
  by (auto simp: call_keys_def output_keys_def List.map_filter_def) force+

lemma remove_first_matching_Cons:
  "remove_first_matching P (x # xs) = (if P x then xs else x # remove_first_matching P xs)"
  by (simp add: remove_first_matching_def extract_Cons_code split: option.splits)

lemma remove_first_matching_Nil [simp]: "remove_first_matching P [] = []"
  by (simp add: remove_first_matching_def List.extract_def)

lemma remove_unique:
  assumes "distinct (List.map_filter f xs)"
  shows "remove_first_matching (\<lambda>i. f i = Some k) xs = filter (\<lambda>i. f i \<noteq> Some k) xs"
  using assms
proof (induction xs)
  case (Cons x xs)
  have "filter (\<lambda>i. f i \<noteq> Some k) xs = xs" if "f x = Some k"
    using Cons.prems that by (force simp: filter_id_conv List.map_filter_def)
  with Cons show ?case
    by (cases "f x") (auto simp: remove_first_matching_Cons List.map_filter_def)
qed simp

lemma remove_first_matching_cong:
  "(\<And>i. i \<in> set xs \<Longrightarrow> P i = Q i) \<Longrightarrow> remove_first_matching P xs = remove_first_matching Q xs"
  by (induction xs) (simp_all add: remove_first_matching_Cons)

lemma unique_key_eq:
  assumes "distinct (List.map_filter f xs)" "i \<in> set xs" "j \<in> set xs" "f i = Some k" "f j = Some k"
  shows "i = j"
  using assms
proof (induction xs)
  case (Cons x xs)
  have "k \<in> set (List.map_filter f xs)" if "y \<in> set xs" "f y = Some k" for y
    using that by (force simp: List.map_filter_def)
  with Cons show ?case by (cases "f x") (auto simp: List.map_filter_def)
qed simp

lemma remove_call:
  assumes "distinct (List.map_filter call_key xs)"
  shows "(if list_ex (\<lambda>i. function_call_id i = Some c) xs
      then remove_first_matching (\<lambda>i. function_call_id i = Some c) xs
      else remove_first_matching (\<lambda>i. local_shell_call_id i = Some c) xs)
    = filter (\<lambda>i. call_key i \<noteq> Some (FunctionKind, c)) xs"
proof (cases "list_ex (\<lambda>i. function_call_id i = Some c) xs")
  case True
  then obtain j where j: "j \<in> set xs" "function_call_id j = Some c" by (auto simp: list_ex_iff)
  then have "function_call_id i = Some c \<longleftrightarrow> call_key i = Some (FunctionKind, c)" if "i \<in> set xs" for i
    using unique_key_eq [OF assms that j(1)] call_id_key(1) [of i c] call_id_key(1) [of j c] by blast
  then have "remove_first_matching (\<lambda>i. function_call_id i = Some c) xs
      = remove_first_matching (\<lambda>i. call_key i = Some (FunctionKind, c)) xs" by (rule remove_first_matching_cong)
  with True show ?thesis by (simp add: remove_unique [OF assms])
next
  case False
  then have "local_shell_call_id i = Some c \<longleftrightarrow> call_key i = Some (FunctionKind, c)" if "i \<in> set xs" for i
    using that call_id_key(1) [of i c] by (auto simp: list_ex_iff)
  then have "remove_first_matching (\<lambda>i. local_shell_call_id i = Some c) xs
      = remove_first_matching (\<lambda>i. call_key i = Some (FunctionKind, c)) xs" by (rule remove_first_matching_cong)
  with False show ?thesis by (simp add: remove_unique [OF assms])
qed

lemma remove_corresponding_keys:
  assumes "unique_keys (r # rest)"
  shows "remove_corresponding_for rest r = filter (\<lambda>i. item_keys i \<inter> item_keys r = {}) rest"
proof -
  from assms have u: "distinct (List.map_filter call_key rest)" "distinct (List.map_filter output_key rest)"
    "set_option (call_key r) \<inter> call_keys rest = {}" "set_option (output_key r) \<inter> output_keys rest = {}"
    by (simp_all add: unique_keys_def map_filter_simps split: option.splits)
  have "item_keys i \<inter> item_keys r = {} \<longleftrightarrow> set_option (output_key i) \<inter> set_option (call_key r) = {}
      \<and> set_option (call_key i) \<inter> set_option (output_key r) = {}" if "i \<in> set rest" for i
    using u(3,4) that by (auto simp: item_keys_def call_keys_def output_keys_def)
  then have k: "filter (\<lambda>i. item_keys i \<inter> item_keys r = {}) rest = filter (\<lambda>i. set_option (output_key i) \<inter> set_option (call_key r) = {}
      \<and> set_option (call_key i) \<inter> set_option (output_key r) = {}) rest" by (rule filter_cong [OF refl])
  note removals = output_id_key call_id_key(2,3) remove_unique [OF u(1)] remove_unique [OF u(2)] remove_call [OF u(1)]
  show ?thesis unfolding k
  proof (cases r)
    case (LocalShellCall i c status act m)
    then show "remove_corresponding_for rest r = filter (\<lambda>i. set_option (output_key i) \<inter> set_option (call_key r) = {}
        \<and> set_option (call_key i) \<inter> set_option (output_key r) = {}) rest"
      by (cases c) (simp_all add: removals elem_set)
  next
    case (ToolSearchCall i c status ex args m)
    then show "remove_corresponding_for rest r = filter (\<lambda>i. set_option (output_key i) \<inter> set_option (call_key r) = {}
        \<and> set_option (call_key i) \<inter> set_option (output_key r) = {}) rest"
      by (cases c) (simp_all add: removals elem_set)
  next
    case (ToolSearchOutput i c status ex ts m)
    then show "remove_corresponding_for rest r = filter (\<lambda>i. set_option (output_key i) \<inter> set_option (call_key r) = {}
        \<and> set_option (call_key i) \<inter> set_option (output_key r) = {}) rest"
      by (cases c) (simp_all add: removals elem_set)
  qed (simp_all add: removals elem_set)
qed

lemma keys_disjoint:
  "call_key i = Some k \<Longrightarrow> item_keys i \<inter> K = {} \<longleftrightarrow> k \<notin> K" "output_key i = Some k \<Longrightarrow> item_keys i \<inter> K = {} \<longleftrightarrow> k \<notin> K"
  using call_key_output_key [of i] by (auto simp: item_keys_def)

lemma calls_outs_filter_keys:
  "call_keys (filter (\<lambda>i. item_keys i \<inter> K = {}) xs) = call_keys xs - K"
  "output_keys (filter (\<lambda>i. item_keys i \<inter> K = {}) xs) = output_keys xs - K"
  "output_keys (filter (\<lambda>i. item_keys i \<inter> K = {} \<and> \<not> server_output i) xs) = output_keys (filter (\<lambda>i. \<not> server_output i) xs) - K"
  unfolding call_keys_def output_keys_def using keys_disjoint [of _ _ K] by (simp_all add: set_eq_iff) blast+

lemma distinct_map_filter_filter:
  "distinct (List.map_filter f xs) \<Longrightarrow> distinct (List.map_filter f (filter P xs))"
proof (induction xs)
  case (Cons x xs)
  have "set (List.map_filter f (filter P xs)) \<subseteq> set (List.map_filter f xs)"
    by (auto simp: List.map_filter_def)
  with Cons show ?case by (auto simp: map_filter_simps split: option.splits)
qed simp

lemma unique_keys_filter: "unique_keys xs \<Longrightarrow> unique_keys (filter P xs)"
  by (simp add: unique_keys_def distinct_map_filter_filter)

lemma remove_first_step:
  assumes "calls_paired (h_items h)" "unique_keys (h_items h)"
  shows "calls_paired (h_items (remove_first_item h)) \<and> unique_keys (h_items (remove_first_item h))
    \<and> length (h_items (remove_first_item h)) \<le> length (h_items h) - 1"
proof (cases "h_items h")
  case (Cons r rest)
  let ?z = "filter (\<lambda>i. item_keys i \<inter> item_keys r = {}) rest"
  have z: "h_items (remove_first_item h) = ?z"
    using remove_corresponding_keys [of r rest] assms(2) Cons by (simp add: remove_first_item_def)
  have "set_option (call_key r) \<subseteq> item_keys r" "set_option (output_key r) \<subseteq> item_keys r" by (auto simp: item_keys_def)
  then have "call_keys ?z = call_keys (r # rest) - item_keys r" "output_keys ?z = output_keys (r # rest) - item_keys r"
    "output_keys (filter (\<lambda>i. \<not> server_output i) ?z) = output_keys (filter (\<lambda>i. \<not> server_output i) (r # rest)) - item_keys r"
    by (auto simp: calls_outs_filter_keys)
  with assms(1) Cons have "calls_paired ?z" by (auto simp: calls_paired_def)
  moreover have "unique_keys rest" using assms(2) Cons
    by (auto simp: unique_keys_def map_filter_simps split: option.splits)
  then have "unique_keys ?z" by (rule unique_keys_filter)
  ultimately show ?thesis using z Cons length_filter_le [of _ rest] by simp
qed (use assms in \<open>simp add: remove_first_item_def\<close>)

text \<open>
  C26. When the oldest items are dropped one by one, a history in which every call and output are
  paired stays so, as long as no two calls and no two outputs share an id: the prompt built from it
  needs no repair, also in a debug build, and every step removes at least one item.
\<close>

theorem remove_first_keeps_pairs:
  assumes "calls_paired (h_items h)" and "unique_keys (h_items h)"
  shows "calls_paired (h_items ((remove_first_item ^^ n) h))
    \<and> for_prompt debug ((remove_first_item ^^ n) h) ms
        = Some (strip_images_when_unsupported ms (h_items ((remove_first_item ^^ n) h)))
    \<and> length (h_items ((remove_first_item ^^ n) h)) \<le> length (h_items h) - n"
proof -
  have "calls_paired (h_items ((remove_first_item ^^ n) h)) \<and> unique_keys (h_items ((remove_first_item ^^ n) h))
    \<and> length (h_items ((remove_first_item ^^ n) h)) \<le> length (h_items h) - n"
  proof (induction n)
    case (Suc n)
    with remove_first_step [of "(remove_first_item ^^ n) h"] show ?case by fastforce
  qed (use assms in simp)
  then show ?thesis by (simp add: for_prompt_def normalize_history_def paired_fixed)
qed

definition call_sample :: "char list \<Rightarrow> response_item list" where
  "call_sample c = [FunctionCall None (lit ''f'') None (lit ''{}'') (lit c) None,
     FunctionCallOutput None (lit c) (payload_from_text (lit ''ok'')) None]"

theorem remove_first_keeps_pairs_witness:
  "for_prompt True ((remove_first_item ^^ 1) (manager_new\<lparr>h_items := call_sample ''a'' @ call_sample ''b''\<rparr>)) [TextModality]
    = Some (call_sample ''b'')"
proof -
  have "calls_paired (h_items (manager_new\<lparr>h_items := call_sample ''a'' @ call_sample ''b''\<rparr>))"
    "unique_keys (h_items (manager_new\<lparr>h_items := call_sample ''a'' @ call_sample ''b''\<rparr>))"
    by (auto simp: calls_paired_def unique_keys_def call_sample_def map_filter_simps)
  from remove_first_keeps_pairs [OF this, of 1 True "[TextModality]"] show ?thesis
    by (simp add: remove_first_item_def call_sample_def remove_first_matching_Cons strip_images_when_unsupported_def
        omit_payload_images_def payload_from_text_def)
qed

text \<open>With a repeated id the counterpart that is removed is only the first one.\<close>

lemma repeated_output_orphaned:
  "let h = manager_new\<lparr>h_items := call_sample ''a'' @ tl (call_sample ''a'')\<rparr>
   in calls_paired (h_items h) \<and> \<not> calls_paired (h_items (remove_first_item h)) \<and> for_prompt True (remove_first_item h) ms = None"
  by (auto simp: Let_def calls_paired_def call_sample_def remove_first_item_def remove_first_matching_Cons for_prompt_def
      normalize_history_def ensure_call_outputs_present_def List.map_filter_def remove_orphan_outputs_def payload_from_text_def)

end
