(* ===== verification/Spec2Isabelle.thy ===== *)
theory Spec2Isabelle
  imports Compress_Transform Switch_Run Patch_Apply Stream_Assistant Exec_Buffer Policy_Amend History_Manager
begin

text \<open>
  Verification of codez: the two zmod crates that compress and redirect model requests, and the
  parts of codex they sit between.

  \<^bold>\<open>The program.\<close> codex keeps a conversation history, repairs it before every request and sends it
  to a model. The crate llm-compress (src/zmod/llm-compress) rewrites the tool outputs of a request
  to save tokens; the crate llm-switch (src/zmod/llm-switch) redirects a request to a provider that
  speaks the Chat Completions or the Anthropic Messages protocol and translates its event stream
  back. On the way back codex hides citations and plan blocks from the streamed text
  (src/codex-rs/utils/stream-parser), applies the patches the model writes (apply-patch), checks the
  commands it wants to run against a policy (execpolicy) and keeps their output in a capped buffer
  (core/src/unified_exec). The development models these parts; the rest is listed at the end.

  \<^bold>\<open>Conventions.\<close> Rust text is a list of Unicode scalars and \<open>len\<close> its UTF-8 length; byte strings are
  lists of numbers. \<open>Result\<close> is a sum (\<open>Ok\<close>, \<open>Err\<close>); a panic, and a loop that does not return, is
  \<open>None\<close>. Counters whose overflow matters have their width (\<open>64 word\<close>, \<open>32 word\<close>) or the saturation
  written out (\<open>saturating_add\<close>). Hash maps whose order shows have it as an argument. Code outside
  src/ is an argument of the definitions: the JSON and TOML readers, the TOON codec, SHA-256, the
  HTTP client, the Unicode tables, the multimap of the policy, the file system of apply-patch, the
  XML reader of hook prompts, the Starlark evaluator and shlex. The laws assumed of them are the locales \<open>multimap\<close> and \<open>file_system\<close>,
  both interpreted on executable instances, and hypotheses named in the statements.

  \<^bold>\<open>Theories.\<close>
  \<^item> \<open>Prelude\<close>, \<open>Rust_Text\<close>, \<open>Json\<close>, \<open>Protocol\<close>: results, text and bytes, JSON values, the item and event types.
  \<^item> \<open>Compress_Config\<close>, \<open>Compress_Command\<close>, \<open>Compress_Router\<close>, \<open>Compress_Preprocess\<close>, \<open>Compress_Diff\<close>,
    \<open>Compress_Log\<close>, \<open>Compress_Search\<close>, \<open>Compress_Table\<close>, \<open>Compress_Truncate\<close>, \<open>Compress_Ccr\<close>, \<open>Compress_Transform\<close>:
    one theory per source file of llm-compress, in the order of the calls. The locale
    \<open>compressor_contract\<close> is what the router relies on, with an interpretation per compressor. Shown:
    a request never grows and keeps its structure; a text ends up unchanged, decodable, or with a
    path under which the original is stored; what each compressor keeps; limits and path containment
    of the stored originals; that the fail-safe configuration only enables what a file enables.
  \<^item> \<open>Switch_Config\<close>, \<open>Switch_Route\<close>, \<open>Switch_Translator\<close>, \<open>Switch_Chat_Sse\<close>, \<open>Switch_Anthropic_Sse\<close>,
    \<open>Switch_Egress\<close>, \<open>Switch_Connector\<close>, \<open>Switch_Chat_Req\<close>, \<open>Switch_Anthropic_Req\<close>, \<open>Switch_Run\<close>: llm-switch.
    The locale \<open>sse_translator\<close> is the translator interface. Shown: routing is consistent and guarded;
    requests are built exactly when they can be expressed, with every call answered; streams are
    translated independently of their chunking and end exactly once.
  \<^item> \<open>Patch_Seek\<close>, \<open>Patch_Parse\<close>, \<open>Patch_Print\<close>, \<open>Patch_Replace\<close>, \<open>Patch_Apply\<close>: apply-patch. Shown: the parser
    inverts a printer and only yields well-formed hunks; the line search; an update is a splice; a
    delta that is marked exact replays the run, whatever failed in it.
  \<^item> \<open>Stream_Text\<close>, \<open>Stream_Plan\<close>, \<open>Stream_Assistant\<close>: the stream parsers, with their trait as the locale
    \<open>stream_text_parser\<close>. Shown: every push returns; chunking, also inside a UTF-8 sequence, does not
    matter; the char-wise plan parser agrees with a line-wise reference; the composition.
  \<^item> \<open>Exec_Buffer\<close>, \<open>Abs_Path\<close>, \<open>Exec_Policy\<close>: the output buffer against the whole output, canonical
    absolute paths, and the policy: the strictest governing rule decides, an overlay never softens,
    the last network rule wins.
  \<^item> \<open>Policy_Parse\<close>, \<open>Policy_Amend\<close>: the functions a rules file calls, the validation of its examples, the
    loading of files and their amendment. A script is the sequence of the calls it makes. Shown: the
    rules of a call cover what its pattern describes; validated examples hold in the built policy;
    host paths are canonical and named after their executable; amending adds a line once.
  \<^item> \<open>Text_Truncate\<close>, \<open>History_Content\<close>, \<open>History_Normalize\<close>, \<open>History_Manager\<close>: truncation of recorded outputs
    (utils/string, utils/output-truncation), recognition of injected context (context-fragments,
    core/src/context, core/src/event_mapping.rs), normalisation and the history itself
    (core/src/context_manager). Shown: truncation keeps the longest ends that fit; normalising pairs
    calls and outputs and is idempotent; dropping old items keeps the pairing; rollback drops whole turns.
  \<^item> This theory: the way of a prompt from the history through compression to the two connectors.

  \<^bold>\<open>Loops and bounds.\<close> There is no fuel: all loops are structural recursions or have a termination
  proof, except the tag loop of the inline parser (\<open>drain_tags\<close>), a \<open>partial_function\<close> for which
  \<open>inline_pushes_return\<close> proves that it returns. Theorems that need lengths below the address space
  say so (\<open>USIZE_MAX\<close>).

  \<^bold>\<open>Not modelled.\<close> Asynchrony is modelled by the sequence of its effects: a stream is the list of its
  chunks, a channel the list of what is sent. Of the history the token accounting is left out, of
  the absolute paths the Windows forms, of the policy the I/O of the file amendment, of
  apply-patch the shell-command extraction and the unified diff (external crates). The terminal
  interface, the app server, the session orchestration, login, sandboxing, the proxy, storage and
  the layered configuration are input and output, operating system calls or code over external
  libraries, and are not modelled.
\<close>

section \<open>From the history to the provider\<close>

text \<open>In a recorded history no output precedes its call; then every call of the prompt is answered later.\<close>

fun outputs_follow_calls :: "(call_kind \<times> rstr) set \<Rightarrow> response_item list \<Rightarrow> bool" where
  "outputs_follow_calls seen [] = True"
| "outputs_follow_calls seen (i # is) =
     (set_option (call_key i) \<inter> seen = {} \<and> outputs_follow_calls (seen \<union> set_option (output_key i)) is)"

fun answered_later :: "response_item list \<Rightarrow> bool" where
  "answered_later [] = True"
| "answered_later (i # is) = (set_option (call_key i) \<subseteq> output_keys is \<and> answered_later is)"

lemma answered_later_keys:
  assumes "map call_key xs = map call_key ys" "map output_key xs = map output_key ys"
  shows "answered_later xs \<longleftrightarrow> answered_later ys"
  using assms
proof (induction xs ys rule: list_induct2')
  case (4 x xs y ys)
  have "output_keys zs = {k. Some k \<in> set (map output_key zs)}" for zs by (force simp: output_keys_def)
  then have "output_keys xs = output_keys ys" using 4 by (metis list.inject list.simps(9))
  with 4 show ?case by simp
qed auto

lemma answered_later_normalized:
  assumes "outputs_follow_calls seen xs" "output_keys its \<subseteq> seen \<union> output_keys xs" "call_keys xs \<subseteq> call_keys its"
  shows "answered_later (with_missing (missing_output its) (filter (has_match its) xs))"
  using assms
proof (induction xs arbitrary: seen)
  case (Cons i xs)
  let ?rest = "with_missing (missing_output its) (filter (has_match its) xs)"
  from Cons.prems have ih: "answered_later ?rest"
    by (intro Cons.IH [of "seen \<union> set_option (output_key i)"]) auto
  show ?case
  proof (cases "call_key i")
    case None
    then have "missing_output its i = None" by (simp add: missing_output_None)
    with None ih show ?thesis by simp
  next
    case (Some k)
    then have k: "k \<in> call_keys its" "has_match its i" "output_key i = None"
      using Cons.prems(3) by (auto simp: has_match_call call_key_output_key)
    show ?thesis
    proof (cases "missing_output its i")
      case None
      then have "k \<in> output_keys xs" using Some Cons.prems(1,2) k by (auto simp: missing_output_None)
      then have "k \<in> output_keys (filter (has_match its) xs)"
        using k by (auto simp: output_keys_def has_match_iff)
      with None Some ih k show ?thesis by (simp add: outs_with_missing)
    next
      case (Some out)
      with \<open>call_key i = Some k\<close> ih k missing_output_Some [OF Some] show ?thesis by simp
    qed
  qed
qed simp

lemma still_open_step:
  "still_open c p (i # is) = still_open c (p \<and> output_key i \<noteq> Some (FunctionKind, c) \<or> function_call_id i = Some c) is"
  by (cases i rule: output_key.cases) auto

lemma still_open_answered:
  "answered_later its \<Longrightarrow> still_open c p its \<Longrightarrow> p \<and> (FunctionKind, c) \<notin> output_keys its"
proof (induction its arbitrary: p)
  case (Cons i its)
  from Cons.IH [OF _ Cons.prems(2) [unfolded still_open_step]] Cons.prems(1)
  show ?case using call_id_key(1) [of i c] by auto
qed simp

lemma pending_calls_step:
  "c \<in> set (pending_calls [i] ns) \<longleftrightarrow> c \<in> set ns \<and> output_key i \<noteq> Some (FunctionKind, c) \<or> function_call_id i = Some c"
  by (cases i rule: output_key.cases) auto

lemma pending_calls_answered:
  "answered_later its \<Longrightarrow> c \<in> set (pending_calls its ns) \<Longrightarrow> c \<in> set ns \<and> (FunctionKind, c) \<notin> output_keys its"
proof (induction its arbitrary: ns)
  case (Cons i its)
  from Cons.IH [OF _ Cons.prems(2) [unfolded pending_calls_Cons [of i its]]] Cons.prems(1)
  show ?case using call_id_key(1) [of i c] pending_calls_step [of c i ns] by auto
qed simp

lemma skeleton_keys: "call_key (skeleton i) = call_key i" "output_key (skeleton i) = output_key i"
  by (cases i rule: skeleton.cases; simp)+

lemma skeleton_eq_keys:
  assumes "map skeleton xs = map skeleton ys"
  shows "map call_key xs = map call_key ys" "map output_key xs = map output_key ys"
  using arg_cong [OF assms, of "map call_key"] arg_cong [OF assms, of "map output_key"]
  by (simp_all add: comp_def skeleton_keys)

text \<open>A rewriting of the items that keeps their call and output ids keeps the answers in place.\<close>

locale pairing_preserved =
  fixes f :: "response_item list \<Rightarrow> response_item list"
  assumes call_keys_kept: "map call_key (f xs) = map call_key xs"
    and output_keys_kept: "map output_key (f xs) = map output_key xs"
begin

lemma answered_later_kept: "answered_later (f xs) \<longleftrightarrow> answered_later xs"
  by (rule answered_later_keys [OF call_keys_kept output_keys_kept])

end

interpretation stripping: pairing_preserved "strip_images_when_unsupported ms" for ms
  by unfold_locales (simp_all add: strip_images_when_unsupported_def comp_def)

interpretation compression: pairing_preserved
    "\<lambda>its. input (fst (transform e env se toml rf (req\<lparr>input := its\<rparr>) q ccr))" for e env se toml rf req q ccr
proof -
  have "map skeleton (input (fst (transform e env se toml rf (req\<lparr>input := its\<rparr>) q ccr))) = map skeleton its" for its
    by (cases "enabled (load toml rf (fs_env.home_dir env))", simp add: transform_enabled map_state_items_skeleton,
        simp add: transform_def)
  then show "pairing_preserved (\<lambda>its. input (fst (transform e env se toml rf (req\<lparr>input := its\<rparr>) q ccr)))"
    by unfold_locales (auto intro: skeleton_eq_keys)
qed

lemma normalize_history_Some: "normalize_history debug ms items = Some its \<Longrightarrow> its = normalized ms items"
  by (auto simp: normalize_history_def ensure_with_missing remove_orphan_outputs_def normalized_def
      remove_orphans_after_ensure split: if_splits)

lemma prompt_answered:
  assumes "outputs_follow_calls {} (h_items h)" "for_prompt debug h ms = Some its"
  shows "answered_later (input (fst (transform e env se toml rf (req\<lparr>input := its\<rparr>) q ccr)))"
proof -
  have "its = normalized ms (h_items h)" using assms(2) by (auto simp: for_prompt_def dest: normalize_history_Some)
  with answered_later_normalized [OF assms(1), of "h_items h"] show ?thesis
    by (simp add: normalized_def compression.answered_later_kept stripping.answered_later_kept)
qed

text \<open>
  C6. From the history to the provider: when no output was recorded before its call, the request
  built from the normalised history and passed through compression has a recorded (or \<open>aborted\<close>)
  output after every function call, so that neither connector adds a placeholder of its own.
\<close>

theorem prompt_needs_no_placeholder:
  assumes "outputs_follow_calls {} (h_items h)" and "for_prompt debug h ms = Some its"
    and "req' = fst (transform e env se toml rf (req\<lparr>input := its\<rparr>) q ccr)"
  shows "(\<forall>b. chat_items (input req') \<lparr>messages = system_messages req', seen_calls = {}, calls_needing_result = {}\<rparr> = Ok b
      \<longrightarrow> calls_needing_result b = {})
    \<and> (\<forall>a. anthropic_items x (input req') \<lparr>turns = [], an_seen_calls = {}, an_calls_needing_result = []\<rparr> = Ok a
      \<longrightarrow> inject_placeholders a = turns a)"
proof -
  from prompt_answered [OF assms(1,2)] assms(3) have later: "answered_later (input req')" by simp
  have "calls_needing_result b = {}"
    if "chat_items (input req') \<lparr>messages = system_messages req', seen_calls = {}, calls_needing_result = {}\<rparr> = Ok b" for b
    using chat_items_rel [OF that] still_open_answered [OF later] by (auto simp: loop_rel_def)
  moreover have "inject_placeholders a = turns a"
    if "anthropic_items x (input req') \<lparr>turns = [], an_seen_calls = {}, an_calls_needing_result = []\<rparr> = Ok a" for a
  proof -
    have "an_calls_needing_result a = pending_calls (input req') []" using anthropic_items_rel [OF that] by simp
    moreover have "pending_calls (input req') [] = []"
      using pending_calls_answered [OF later, of _ "[]"] by (cases "pending_calls (input req') []") auto
    ultimately show ?thesis by (simp add: inject_placeholders_def)
  qed
  ultimately show ?thesis by blast
qed

theorem prompt_needs_no_placeholder_witness:
  "\<exists>its b. for_prompt True (manager_new\<lparr>h_items := [hd (call_sample ''a'')]\<rparr>) [] = Some its
    \<and> chat_items its \<lparr>messages = system_messages (request_sample\<lparr>input := its\<rparr>), seen_calls = {}, calls_needing_result = {}\<rparr> = Ok b
    \<and> calls_needing_result b = {}"
proof -
  let ?h = "manager_new\<lparr>h_items := [hd (call_sample ''a'')]\<rparr>"
  let ?its = "[hd (call_sample ''a''), FunctionCallOutput None (lit ''a'') (payload_from_text (lit ''aborted'')) None]"
  have p: "for_prompt True ?h [] = Some ?its"
    by (simp add: for_prompt_def normalize_history_def ensure_with_missing remove_orphan_outputs_def call_sample_def
        strip_images_when_unsupported_def omit_payload_images_def payload_from_text_def has_match_iff)
  have f: "outputs_follow_calls {} (h_items ?h)" by (simp add: call_sample_def)
  let ?b0 = "\<lparr>messages = system_messages (request_sample\<lparr>input := ?its\<rparr>), seen_calls = {}, calls_needing_result = {}\<rparr>"
  have "fst (transform e env se toml (\<lambda>_. None) (request_sample\<lparr>input := ?its\<rparr>) q ccr) = request_sample\<lparr>input := ?its\<rparr>"
    for e env se toml q ccr
  proof -
    have "\<not> enabled (load toml (\<lambda>_. None) (fs_env.home_dir env))"
      by (simp add: load_def load_from_def split: option.splits)
    then show ?thesis by (simp add: transform_def)
  qed
  from prompt_needs_no_placeholder [OF f p this [symmetric]]
  have "\<forall>b. chat_items ?its ?b0 = Ok b \<longrightarrow> calls_needing_result b = {}" by simp
  moreover obtain b where "chat_items ?its ?b0 = Ok b"
    by (simp add: call_sample_def map_function_call_output_def payload_from_text_def push_message_def)
  ultimately show ?thesis using p by blast
qed

end
